(* ===== verification/Go_Prelude.thy ===== *)
theory Go_Prelude
  imports Main "HOL-Library.Word" "HOL-Library.AList" "HOL-Library.Multiset"
begin

unbundle bit_operations_syntax

text \<open>
  Shared vocabulary of the development: the machine types of Go, strings and byte slices,
  readers (\<open>io.ReadFull\<close>), \<open>sort.Search\<close>, Go maps and sets, and the generic
  lemmas the component theories use.

  \<^item> A \<open>[]byte\<close> is a list of 8-bit words; a Go \<open>string\<close> is a HOL \<open>string\<close>
    (a list of 8-bit characters, as Go strings are byte sequences).
  \<^item> A Go map is an association list without duplicate keys; a \<open>map[K]struct{}\<close> is a list
    without duplicates. The order in which \<open>range\<close> visits a map is unspecified in Go:
    where it can be observed, the model takes the visiting order as an argument.
  \<^item> A reader is the sequence of bytes that will still arrive and the error that ends it.
\<close>

section \<open>Machine types\<close>

type_synonym byte = "8 word"
type_synonym bytes = "byte list"
type_synonym uint8 = "8 word"
type_synonym uint32 = "32 word"
type_synonym int32 = "32 word"
type_synonym uint64 = "64 word"
type_synonym int64 = "64 word"

named_theorems wire_defs \<open>constants of the wire format\<close>
named_theorems inv_intros \<open>preservation lemmas of component invariants\<close>

text \<open>Reading a 32-bit word as a signed number.\<close>

lemma sint_int32: "sint (w :: int32) = (if uint w < 2 ^ 31 then uint w else uint w - 2 ^ 32)"
proof -
  have "sint w = take_bit 32 (uint w + 2 ^ 31) - 2 ^ 31"
    by (simp add: sint_uint signed_take_bit_eq_take_bit_shift)
  then have s: "sint w = (uint w + 2 ^ 31) mod 2 ^ 32 - 2 ^ 31"
    by (simp add: take_bit_eq_mod)
  have r: "0 \<le> uint w" "uint w < 2 ^ 32"
    using uint_lt2p [of w] by simp_all
  show ?thesis
  proof (cases "uint w < 2 ^ 31")
    case True
    with r have "(uint w + 2 ^ 31) mod 2 ^ 32 = uint w + 2 ^ 31"
      by (intro mod_pos_pos_trivial) simp_all
    with s True show ?thesis by simp
  next
    case False
    with r have "(uint w + 2 ^ 31) mod 2 ^ 32 = (uint w - 2 ^ 31) mod 2 ^ 32"
      using mod_add_self2 [of "uint w - 2 ^ 31" "2 ^ 32 :: int"] by (simp add: add.commute)
    also have "\<dots> = uint w - 2 ^ 31"
      using r False by (intro mod_pos_pos_trivial) simp_all
    finally show ?thesis using s False by simp
  qed
qed

section \<open>Strings and bytes\<close>

definition bytes_of :: "string \<Rightarrow> bytes" where
  "bytes_of s = map (\<lambda>c. word_of_nat (of_char c)) s"

definition string_of :: "bytes \<Rightarrow> string" where
  "string_of bs = map (\<lambda>b. char_of (unat b)) bs"

lemma unat_byte_of_char [simp]: "unat (word_of_nat (of_char c) :: byte) = of_char c"
  using of_char_mod_256 [of c, where 'a = nat] by (simp add: unat_of_nat)

lemma string_of_bytes_of [simp]: "string_of (bytes_of s) = s"
  by (simp add: string_of_def bytes_of_def comp_def)

lemma bytes_of_string_of [simp]: "bytes_of (string_of bs) = bs"
proof -
  have "word_of_nat (unat b mod 256) = b" for b :: byte
  proof -
    have "unat b < 256" using unsigned_less [of b, where 'a = nat] by simp
    then show ?thesis by simp
  qed
  then show ?thesis by (simp add: string_of_def bytes_of_def comp_def map_idI)
qed

lemma length_bytes_of [simp]: "length (bytes_of s) = length s"
  by (simp add: bytes_of_def)

lemma length_string_of [simp]: "length (string_of bs) = length bs"
  by (simp add: string_of_def)

lemma bytes_of_inject [simp]: "bytes_of s = bytes_of t \<longleftrightarrow> s = t"
  by (metis string_of_bytes_of)

lemma bytes_of_append [simp]: "bytes_of (s @ t) = bytes_of s @ bytes_of t"
  by (simp add: bytes_of_def)

lemma bytes_of_Nil [simp]: "bytes_of [] = []" and
  bytes_of_eq_Nil [simp]: "bytes_of s = [] \<longleftrightarrow> s = []"
  by (simp_all add: bytes_of_def)

text \<open>\<open>strconv.Itoa\<close> on non-negative numbers.\<close>

fun itoa :: "nat \<Rightarrow> string" where
  "itoa n = (if n < 10 then [char_of (48 + n)]
             else itoa (n div 10) @ [char_of (48 + n mod 10)])"

declare itoa.simps [simp del]

lemma itoa_not_Nil [simp]: "itoa n \<noteq> []" "[] \<noteq> itoa n"
  by (simp_all add: itoa.simps [of n])

lemma digit_inject [simp]: "a < 10 \<Longrightarrow> b < 10 \<Longrightarrow> char_of (48 + a :: nat) = char_of (48 + b) \<longleftrightarrow> a = b"
proof
  assume "a < 10" "b < 10" and e: "char_of (48 + a :: nat) = char_of (48 + b)"
  then have "of_char (char_of (48 + a :: nat)) = (of_char (char_of (48 + b)) :: nat)" by simp
  with \<open>a < 10\<close> \<open>b < 10\<close> show "a = b" by (simp only: of_char_of) simp
qed simp

lemma itoa_inject [simp]: "itoa n = itoa m \<longleftrightarrow> n = m"
proof (induction n arbitrary: m rule: itoa.induct)
  case (1 n)
  have "n div 10 = m div 10 \<and> n mod 10 = m mod 10 \<longleftrightarrow> n = m" by (metis div_mod_decomp)
  then show ?case
    using 1 [of "m div 10"] itoa.simps [of n] itoa.simps [of m]
    by (cases "n < 10"; cases "m < 10") auto
qed

section \<open>Readers\<close>

text \<open>The errors a connection's \<open>Read\<close> can end with, and \<open>io.ErrUnexpectedEOF\<close>.\<close>

datatype io_error = EOF | ErrUnexpectedEOF | ErrDeadlineExceeded | ErrConn

record reader =
  rd_data :: bytes
  rd_end :: io_error

text \<open>
  \<open>io.ReadFull\<close>: all \<open>n\<close> bytes, or the error with the number of bytes read. An EOF after
  a partial read becomes \<open>io.ErrUnexpectedEOF\<close>; other errors are passed on.
\<close>

definition ReadFull :: "reader \<Rightarrow> nat \<Rightarrow> (nat \<times> io_error + bytes) \<times> reader" where
  "ReadFull r n =
     (if n \<le> length (rd_data r)
      then (Inr (take n (rd_data r)), r\<lparr>rd_data := drop n (rd_data r)\<rparr>)
      else (Inl (length (rd_data r),
                 if rd_data r \<noteq> [] \<and> rd_end r = EOF then ErrUnexpectedEOF else rd_end r),
            r\<lparr>rd_data := []\<rparr>))"

lemma ReadFull_enough [simp]:
  "length xs = n \<Longrightarrow> ReadFull (r\<lparr>rd_data := xs @ ys\<rparr>) n = (Inr xs, r\<lparr>rd_data := ys\<rparr>)"
  by (auto simp: ReadFull_def)

lemma ReadFull_Inr:
  assumes "ReadFull r n = (Inr xs, r')"
  shows "rd_data r = xs @ rd_data r'" and "length xs = n" and "rd_end r' = rd_end r"
  using assms by (auto simp: ReadFull_def split: if_splits)

section \<open>sort.Search\<close>

text \<open>
  The binary search of Go's \<open>sort\<close> package: the smallest index in \<open>[0, n)\<close> where \<open>f\<close>
  holds, or \<open>n\<close>, provided \<open>f\<close> is false on a prefix and true on the rest.
\<close>

function sort_Search_loop :: "(nat \<Rightarrow> bool) \<Rightarrow> nat \<Rightarrow> nat \<Rightarrow> nat" where
  "sort_Search_loop f i j =
     (if i < j
      then let h = (i + j) div 2
           in if \<not> f h then sort_Search_loop f (h + 1) j else sort_Search_loop f i h
      else i)"
  by pat_completeness auto
termination
  by (relation "measure (\<lambda>(f, i, j). j - i)") auto

declare sort_Search_loop.simps [simp del]

definition sort_Search :: "nat \<Rightarrow> (nat \<Rightarrow> bool) \<Rightarrow> nat" where
  "sort_Search n f = sort_Search_loop f 0 n"

lemma sort_Search_loop_least:
  assumes "i \<le> j" and "\<And>k. k < i \<Longrightarrow> \<not> f k" and "\<And>k. j \<le> k \<Longrightarrow> k < n \<Longrightarrow> f k"
    and "\<And>a b. a \<le> b \<Longrightarrow> b < n \<Longrightarrow> f a \<Longrightarrow> f b" and "j \<le> n"
  shows "sort_Search_loop f i j \<le> n \<and> (\<forall>k < sort_Search_loop f i j. \<not> f k) \<and>
    (\<forall>k. sort_Search_loop f i j \<le> k \<longrightarrow> k < n \<longrightarrow> f k)"
  using assms
proof (induction f i j rule: sort_Search_loop.induct)
  case (1 f i j)
  define h where "h = (i + j) div 2"
  show ?case
  proof (cases "i < j")
    case False
    then have "sort_Search_loop f i j = i" by (simp add: sort_Search_loop.simps [of f i j])
    with False "1.prems" show ?thesis by auto
  next
    case True
    then have h: "i \<le> h" "h < j" by (auto simp: h_def)
    show ?thesis
    proof (cases "f h")
      case True
      have "f k" if "h \<le> k" "k < n" for k
        using "1.prems"(4) that True by blast
      with "1.IH"(2) [OF \<open>i < j\<close> h_def] True h "1.prems" \<open>i < j\<close>
      show ?thesis by (simp add: sort_Search_loop.simps [of f i j] h_def [symmetric] Let_def)
    next
      case False
      have "\<not> f k" if "k < h + 1" for k
        using "1.prems"(4) [of k h] that False h "1.prems"(5) by auto
      with "1.IH"(1) [OF \<open>i < j\<close> h_def] False h "1.prems" \<open>i < j\<close>
      show ?thesis by (simp add: sort_Search_loop.simps [of f i j] h_def [symmetric] Let_def)
    qed
  qed
qed

lemma sort_Search_spec:
  assumes "\<And>a b. a \<le> b \<Longrightarrow> b < n \<Longrightarrow> f a \<Longrightarrow> f b"
  shows "sort_Search n f \<le> n" and "\<And>k. k < sort_Search n f \<Longrightarrow> \<not> f k"
    and "\<And>k. sort_Search n f \<le> k \<Longrightarrow> k < n \<Longrightarrow> f k"
  using sort_Search_loop_least [of 0 n f n] assms by (auto simp: sort_Search_def)

lemma sort_Search_eqI:
  assumes "\<And>a b. a \<le> b \<Longrightarrow> b < n \<Longrightarrow> f a \<Longrightarrow> f b"
    and "i < n" and "f i" and "\<And>k. k < i \<Longrightarrow> \<not> f k"
  shows "sort_Search n f = i"
proof (rule antisym)
  have before: "\<not> f k" if "k < sort_Search n f" for k
    using sort_Search_spec(2) [of n f] assms(1) that by blast
  have after: "f k" if "sort_Search n f \<le> k" "k < n" for k
    using sort_Search_spec(3) [of n f] assms(1) that by blast
  show "sort_Search n f \<le> i"
    using before assms(3) by (meson not_le)
  show "i \<le> sort_Search n f"
    using after [of "sort_Search n f"] assms(2,4) by (meson less_trans not_le order_refl)
qed

section \<open>Go maps and sets\<close>

type_synonym ('k, 'v) gomap = "('k \<times> 'v) list"

definition gomap_ok :: "('k, 'v) gomap \<Rightarrow> bool" where
  "gomap_ok m \<longleftrightarrow> distinct (map fst m)"

abbreviation keys_of :: "('k, 'v) gomap \<Rightarrow> 'k list" where
  "keys_of m \<equiv> map fst m"

text \<open>\<open>m[k] = v\<close>, \<open>delete(m, k)\<close> and the insertion and removal on a set.\<close>

abbreviation gput :: "'k \<Rightarrow> 'v \<Rightarrow> ('k, 'v) gomap \<Rightarrow> ('k, 'v) gomap" where
  "gput \<equiv> AList.update"

abbreviation gdel :: "'k \<Rightarrow> ('k, 'v) gomap \<Rightarrow> ('k, 'v) gomap" where
  "gdel \<equiv> AList.delete"

lemma map_of_gput [simp]: "map_of (gput k v m) = (map_of m)(k \<mapsto> v)"
  by (rule update_conv')

lemma map_of_gdel [simp]: "map_of (gdel k m) = (map_of m)(k := None)"
  by (rule delete_conv')

lemma gomap_ok_Nil [simp, intro]: "gomap_ok []"
  by (simp add: gomap_ok_def)

lemma gomap_ok_gput [simp, intro]: "gomap_ok m \<Longrightarrow> gomap_ok (gput k v m)"
  unfolding gomap_ok_def by (rule distinct_update)

lemma gomap_ok_gdel [simp, intro]: "gomap_ok m \<Longrightarrow> gomap_ok (gdel k m)"
  unfolding gomap_ok_def by (rule distinct_delete)

lemma gomap_mem_iff: "gomap_ok m \<Longrightarrow> (k, v) \<in> set m \<longleftrightarrow> map_of m k = Some v"
  by (simp add: gomap_ok_def)

lemma map_of_None_keys: "map_of m k = None \<longleftrightarrow> k \<notin> set (keys_of m)"
  by (simp add: map_of_eq_None_iff)

lemma gdel_filter: "gdel k m = filter (\<lambda>p. fst p \<noteq> k) m"
  by (induction m) auto

lemma set_gdel: "set (gdel k m) = {p \<in> set m. fst p \<noteq> k}"
  by (simp add: gdel_filter)

lemma keys_gdel [simp]: "set (keys_of (gdel k m)) = set (keys_of m) - {k}"
  by (simp only: delete_keys set_removeAll)

lemma gput_append: "k \<notin> set (keys_of m) \<Longrightarrow> gput k v m = m @ [(k, v)]"
  by (induction m) auto

lemma set_gput_subset: "set (gput k v m) \<subseteq> insert (k, v) (set m)"
  by (induction m) auto

lemma keys_gput [simp]: "set (keys_of (gput k v m)) = insert k (set (keys_of m))"
  by (induction m) auto

lemma length_gdel:
  "gomap_ok m \<Longrightarrow> length (gdel k m) = length m - (if k \<in> set (keys_of m) then 1 else 0)"
proof (induction m)
  case (Cons p m)
  show ?case
  proof (cases "fst p = k")
    case True
    with Cons.prems have "k \<notin> fst ` set m" by (auto simp: gomap_ok_def)
    with True show ?thesis by simp
  next
    case False
    with Cons have IH: "length (gdel k m) = length m - (if k \<in> set (keys_of m) then 1 else 0)"
      by (simp add: gomap_ok_def)
    have "k \<in> set (keys_of m) \<Longrightarrow> 0 < length m" by (cases m) auto
    with False IH show ?thesis by auto
  qed
qed simp

end
