(* ===== verification/Wire_Codec.thy ===== *)
theory Wire_Codec
  imports Go_Prelude
begin

text \<open>
  The frame format and its codec: \<open>pkg/proto/frame.go\<close> and \<open>pkg/proto/codec.go\<close>. A frame is
  a ten-byte big-endian header (type, flags, stream id, payload length) and its payload. This
  theory holds the pool-free path (\<open>Encode\<close>, \<open>DecodeHeader\<close>, \<open>Decode\<close>); the pooled path is
  in \<open>Buffer_Pool\<close>.
\<close>

section \<open>Frames\<close>

text \<open>\<open>FrameType\<close> is a \<open>uint8\<close>: any byte can arrive, nine values have a meaning.\<close>

type_synonym FrameType = uint8

definition REQUEST :: FrameType where [wire_defs]: "REQUEST = 0"
definition RESPONSE :: FrameType where [wire_defs]: "RESPONSE = 1"
definition PUBLISH :: FrameType where [wire_defs]: "PUBLISH = 2"
definition SUBSCRIBE :: FrameType where [wire_defs]: "SUBSCRIBE = 3"
definition UNSUBSCRIBE :: FrameType where [wire_defs]: "UNSUBSCRIBE = 4"
definition PING :: FrameType where [wire_defs]: "PING = 5"
definition PONG :: FrameType where [wire_defs]: "PONG = 6"
definition CLOSE :: FrameType where [wire_defs]: "CLOSE = 7"
definition HELLO :: FrameType where [wire_defs]: "HELLO = 8"

definition FrameType_String :: "FrameType \<Rightarrow> string" where
  "FrameType_String t =
     (if t = REQUEST then ''REQUEST''
      else if t = RESPONSE then ''RESPONSE''
      else if t = PUBLISH then ''PUBLISH''
      else if t = SUBSCRIBE then ''SUBSCRIBE''
      else if t = UNSUBSCRIBE then ''UNSUBSCRIBE''
      else if t = PING then ''PING''
      else if t = PONG then ''PONG''
      else if t = CLOSE then ''CLOSE''
      else if t = HELLO then ''HELLO''
      else ''FrameType('' @ itoa (unat t) @ '')'')"

definition HeaderSize :: nat where [wire_defs]: "HeaderSize = 10"
definition MaxFrameSize :: nat where [wire_defs]: "MaxFrameSize = 1048576"

record FrameHeader =
  FrameType :: FrameType
  Flags :: uint8
  StreamId :: uint32
  Length :: int32

definition FrameHeader_Id :: "FrameHeader \<Rightarrow> uint32" where
  "FrameHeader_Id f = (push_bit 24 (ucast (FrameType f)) OR (StreamId f AND 0x00FFFFFF))"

record Frame =
  Header :: FrameHeader
  Payload :: bytes

section \<open>Errors\<close>

text \<open>
  The errors of the codec and of the stream layer, each with the values its message prints.
  \<open>Truncated n l e\<close> is "truncated payload (n/l): e".
\<close>

datatype proto_err =
    FrameIsNil
  | ErrEmptyFrame
  | ErrFrameTooLarge int int
  | ShortHeader nat nat
  | IOErr io_error
  | Truncated nat int io_error
  | StreamViolationId uint32 uint32
  | StreamViolationType FrameType FrameType
  | ErrStreamTooLarge

section \<open>Big-endian integers\<close>

definition PutUint32 :: "uint32 \<Rightarrow> bytes" where
  "PutUint32 v = [ucast (drop_bit 24 v), ucast (drop_bit 16 v), ucast (drop_bit 8 v), ucast v]"

fun Uint32 :: "bytes \<Rightarrow> uint32" where
  "Uint32 (b0 # b1 # b2 # b3 # _) =
     (ucast b3 OR push_bit 8 (ucast b2) OR push_bit 16 (ucast b1) OR push_bit 24 (ucast b0))"
| "Uint32 _ = 0"

section \<open>Encoding\<close>

text \<open>
  \<open>EncodeHeaderTo\<close> overwrites the first ten bytes of \<open>dst\<close>; a shorter \<open>dst\<close> is an
  index-out-of-range panic (\<open>None\<close>).
\<close>

definition EncodeHeaderTo :: "bytes \<Rightarrow> FrameHeader \<Rightarrow> bytes option" where
  "EncodeHeaderTo dst h =
     (if length dst < HeaderSize then None
      else Some (FrameType h # Flags h # PutUint32 (StreamId h) @ PutUint32 (Length h)
                 @ drop HeaderSize dst))"

text \<open>\<open>copy(buf[HeaderSize:], payload)\<close> into a buffer with room for it.\<close>

definition copy_after_header :: "bytes \<Rightarrow> bytes \<Rightarrow> bytes" where
  "copy_after_header buf payload =
     take HeaderSize buf @ take (length buf - HeaderSize) payload
       @ drop (HeaderSize + length payload) buf"

definition Encode :: "Frame option \<Rightarrow> proto_err + bytes" where
  "Encode frame =
     (case frame of
        None \<Rightarrow> Inl FrameIsNil
      | Some f \<Rightarrow>
          (if length (Payload f) = 0 then Inl ErrEmptyFrame
           else if int (length (Payload f)) > int MaxFrameSize
             then Inl (ErrFrameTooLarge (int (length (Payload f))) (int MaxFrameSize))
           else (let buf = replicate (HeaderSize + length (Payload f)) 0
                 in case EncodeHeaderTo buf (Header f) of
                      None \<Rightarrow> Inl (ShortHeader (length buf) HeaderSize)
                    | Some buf' \<Rightarrow> Inr (copy_after_header buf' (Payload f)))))"

section \<open>Decoding\<close>

definition parseHeaderInto :: "bytes \<Rightarrow> proto_err + FrameHeader" where
  "parseHeaderInto src =
     (if length src < HeaderSize then Inl (ShortHeader (length src) HeaderSize)
      else let len = Uint32 (drop 6 src)
           in if sint len < 0 \<or> sint len > int MaxFrameSize
              then Inl (ErrFrameTooLarge (sint len) (int MaxFrameSize))
              else Inr \<lparr>FrameType = src ! 0, Flags = src ! 1,
                        StreamId = Uint32 (drop 2 src), Length = len\<rparr>)"

definition DecodeHeader :: "bytes \<Rightarrow> proto_err + FrameHeader" where
  "DecodeHeader src = (case parseHeaderInto src of Inl e \<Rightarrow> Inl e | Inr h \<Rightarrow> Inr h)"

text \<open>
  \<open>decodeFrame\<close> with a nil backend: read the header (a partial header is reported as
  \<open>io.EOF\<close>), check it, read exactly the announced payload.
\<close>

definition decodeFrame :: "reader \<Rightarrow> (proto_err + Frame) \<times> reader" where
  "decodeFrame r =
     (case ReadFull r HeaderSize of
        (Inl (n, err), r1) \<Rightarrow>
          (if err = ErrUnexpectedEOF then (Inl (IOErr EOF), r1) else (Inl (IOErr err), r1))
      | (Inr scratch, r1) \<Rightarrow>
          (case parseHeaderInto scratch of
             Inl e \<Rightarrow> (Inl e, r1)
           | Inr h \<Rightarrow>
               (case ReadFull r1 (nat (sint (Length h))) of
                  (Inl (n, err), r2) \<Rightarrow>
                    (let readErr = (if err = EOF then ErrUnexpectedEOF else err)
                     in (Inl (Truncated n (sint (Length h)) readErr), r2))
                | (Inr payload, r2) \<Rightarrow> (Inr \<lparr>Header = h, Payload = payload\<rparr>, r2))))"

definition Decode :: "reader \<Rightarrow> (proto_err + Frame) \<times> reader" where
  "Decode r = decodeFrame r"

text \<open>\<open>newFrame\<close> of \<open>protocol.go\<close>: the length field is the payload length as an \<open>int32\<close>.\<close>

definition newFrame :: "FrameType \<Rightarrow> uint32 \<Rightarrow> bytes \<Rightarrow> Frame" where
  "newFrame t streamId payload =
     \<lparr>Header = \<lparr>FrameType = t, Flags = 0, StreamId = streamId,
                Length = word_of_nat (length payload)\<rparr>,
      Payload = payload\<rparr>"

text \<open>
  A frame the encoder can put on the wire faithfully: a payload within the bounds, announced
  by the header's length field.
\<close>

definition wf_frame :: "Frame \<Rightarrow> bool" where
  "wf_frame f \<longleftrightarrow> 0 < length (Payload f) \<and> length (Payload f) \<le> MaxFrameSize \<and>
     sint (Length (Header f)) = int (length (Payload f))"

section \<open>The header on the wire\<close>

lemma length_PutUint32 [simp]: "length (PutUint32 v) = 4"
  by (simp add: PutUint32_def)

lemma Uint32_PutUint32 [simp]: "Uint32 (PutUint32 v @ rest) = v"
proof (rule bit_word_eqI)
  fix n
  assume n: "n < LENGTH(32)"
  consider "n < 8" | "8 \<le> n" "n < 16" | "16 \<le> n" "n < 24" | "24 \<le> n"
    by linarith
  then show "bit (Uint32 (PutUint32 v @ rest)) n = bit v n"
    using n by cases (auto simp: PutUint32_def bit_simps less_diff_conv2)
qed

lemma PutUint32_Uint32:
  assumes "length bs = 4"
  shows "PutUint32 (Uint32 bs) = bs"
proof -
  from assms obtain b0 b1 b2 b3 where "bs = [b0, b1, b2, b3]"
    by (auto simp: numeral_eq_Suc length_Suc_conv)
  moreover have "ucast (drop_bit 24 (Uint32 [b0, b1, b2, b3])) = b0"
    "ucast (drop_bit 16 (Uint32 [b0, b1, b2, b3])) = b1"
    "ucast (drop_bit 8 (Uint32 [b0, b1, b2, b3])) = b2"
    "ucast (Uint32 [b0, b1, b2, b3]) = b3"
    by (rule bit_word_eqI, auto simp: bit_simps dest: bit_imp_le_length)+
  ultimately show ?thesis by (simp add: PutUint32_def)
qed

definition header_bytes :: "FrameHeader \<Rightarrow> bytes" where
  "header_bytes h = FrameType h # Flags h # PutUint32 (StreamId h) @ PutUint32 (Length h)"

lemma length_header_bytes [simp]: "length (header_bytes h) = HeaderSize"
  by (simp add: header_bytes_def HeaderSize_def)

lemma EncodeHeaderTo_Some:
  "HeaderSize \<le> length dst \<Longrightarrow> EncodeHeaderTo dst h = Some (header_bytes h @ drop HeaderSize dst)"
  by (simp add: EncodeHeaderTo_def header_bytes_def)

lemma parseHeaderInto_header_bytes [simp]:
  "parseHeaderInto (header_bytes h) =
     (if sint (Length h) < 0 \<or> sint (Length h) > int MaxFrameSize
      then Inl (ErrFrameTooLarge (sint (Length h)) (int MaxFrameSize)) else Inr h)"
proof -
  have "drop 6 (header_bytes h) = PutUint32 (Length h) @ []"
    "drop 2 (header_bytes h) = PutUint32 (StreamId h) @ PutUint32 (Length h)"
    by (simp_all add: header_bytes_def)
  then have "Uint32 (drop 6 (header_bytes h)) = Length h"
    "Uint32 (drop 2 (header_bytes h)) = StreamId h"
    by (simp_all only: Uint32_PutUint32)
  then show ?thesis
    by (simp add: parseHeaderInto_def) (simp add: header_bytes_def)
qed

lemma header_bytes_parse:
  assumes "parseHeaderInto src = Inr h" and "length src = HeaderSize"
  shows "header_bytes h = src"
proof -
  from assms(2) obtain t fl a b c d w x y z where src: "src = [t, fl, a, b, c, d, w, x, y, z]"
    by (auto simp: HeaderSize_def numeral_eq_Suc length_Suc_conv)
  have "PutUint32 (Uint32 (a # b # c # d # rest)) = [a, b, c, d]" for rest
    using PutUint32_Uint32 [of "[a, b, c, d]"] by simp
  moreover have "PutUint32 (Uint32 [w, x, y, z]) = [w, x, y, z]"
    by (rule PutUint32_Uint32) simp
  ultimately show ?thesis
    using assms by (auto simp: src parseHeaderInto_def header_bytes_def HeaderSize_def Let_def
        simp del: Uint32.simps split: if_splits)
qed

lemma parseHeaderInto_bounds:
  "parseHeaderInto src = Inr h \<Longrightarrow> 0 \<le> sint (Length h) \<and> sint (Length h) \<le> int MaxFrameSize"
  by (auto simp: parseHeaderInto_def Let_def split: if_splits)

lemma Encode_Inr:
  "Encode (Some f) = Inr buf \<longleftrightarrow>
     0 < length (Payload f) \<and> length (Payload f) \<le> MaxFrameSize \<and>
     buf = header_bytes (Header f) @ Payload f"
  by (auto simp: Encode_def Let_def EncodeHeaderTo_Some copy_after_header_def split: option.splits)

lemma decodeFrame_wire:
  assumes "sint (Length (Header f)) = int (length (Payload f))"
    and "length (Payload f) \<le> MaxFrameSize"
  shows "decodeFrame (r\<lparr>rd_data := header_bytes (Header f) @ Payload f @ rest\<rparr>)
    = (Inr f, r\<lparr>rd_data := rest\<rparr>)"
  using assms by (simp add: decodeFrame_def)

lemma decodeFrame_Inr:
  assumes "decodeFrame r = (Inr f, r')"
  shows "rd_data r = header_bytes (Header f) @ Payload f @ rd_data r'"
    and "sint (Length (Header f)) = int (length (Payload f))"
    and "length (Payload f) \<le> MaxFrameSize"
    and "rd_end r' = rd_end r"
proof -
  from assms obtain scratch r1 h payload where
    1: "ReadFull r HeaderSize = (Inr scratch, r1)" and 2: "parseHeaderInto scratch = Inr h" and
    3: "ReadFull r1 (nat (sint (Length h))) = (Inr payload, r')" and
    f: "f = \<lparr>Header = h, Payload = payload\<rparr>"
    by (auto simp: decodeFrame_def Let_def split: prod.splits sum.splits if_splits)
  note rf = ReadFull_Inr [OF 1] ReadFull_Inr [OF 3]
  have "header_bytes h = scratch" using header_bytes_parse [OF 2] rf(2) by simp
  with rf f show "rd_data r = header_bytes (Header f) @ Payload f @ rd_data r'" by simp
  show "sint (Length (Header f)) = int (length (Payload f))" "length (Payload f) \<le> MaxFrameSize"
    using rf(5) f parseHeaderInto_bounds [OF 2] by auto
  show "rd_end r' = rd_end r" using rf by simp
qed

lemma decodeFrame_decreases:
  "decodeFrame r = (Inr f, r') \<Longrightarrow> length (rd_data r') + HeaderSize \<le> length (rd_data r)"
  by (drule decodeFrame_Inr(1)) simp

section \<open>Properties of the codec\<close>

text \<open>
  C1. Round trip on the wire: every frame with a payload of 1 byte to \<open>MaxFrameSize\<close> bytes
  whose header announces that length is encoded to header plus payload, and decoding a stream
  that starts with those bytes gives back exactly that frame and leaves the rest of the stream
  unread.
\<close>

theorem Decode_Encode_roundtrip:
  assumes "wf_frame f"
  shows "\<exists>buf. Encode (Some f) = Inr buf \<and> length buf = HeaderSize + length (Payload f) \<and>
    (\<forall>r rest. Decode (r\<lparr>rd_data := buf @ rest\<rparr>) = (Inr f, r\<lparr>rd_data := rest\<rparr>))"
  using assms by (simp add: wf_frame_def Encode_Inr Decode_def decodeFrame_wire)

theorem Decode_Encode_roundtrip_witness:
  "wf_frame (newFrame PING 7 [1, 2, 3]) \<and>
   (\<exists>buf. Encode (Some (newFrame PING 7 [1, 2, 3])) = Inr buf \<and>
     Decode \<lparr>rd_data = buf @ [9], rd_end = EOF\<rparr> =
       (Inr (newFrame PING 7 [1, 2, 3]), \<lparr>rd_data = [9], rd_end = EOF\<rparr>))"
proof -
  have wf: "wf_frame (newFrame PING 7 [1, 2, 3])"
    by (simp add: wf_frame_def newFrame_def MaxFrameSize_def)
  from Decode_Encode_roundtrip [OF wf] obtain buf where
    "Encode (Some (newFrame PING 7 [1, 2, 3])) = Inr buf"
    "\<And>r rest. Decode (r\<lparr>rd_data := buf @ rest\<rparr>) = (Inr (newFrame PING 7 [1, 2, 3]), r\<lparr>rd_data := rest\<rparr>)"
    by blast
  from this(1) this(2) [where r = "\<lparr>rd_data = [], rd_end = EOF\<rparr>" and rest = "[9]"] wf show ?thesis by simp
qed



text \<open>
  The header check: of ten header bytes \<open>DecodeHeader\<close> accepts exactly those whose length
  field, read as a signed 32-bit integer, lies in \<open>[0, MaxFrameSize]\<close>; an announced length with
  the top bit set wraps to a negative number and is refused with \<open>ErrFrameTooLarge\<close>.
\<close>

lemma DecodeHeader_length_check:
  "DecodeHeader (header_bytes h) =
     (if uint (Length h) \<le> int MaxFrameSize then Inr h
      else Inl (ErrFrameTooLarge (sint (Length h)) (int MaxFrameSize)))"
proof -
  have "uint (Length h) \<le> int MaxFrameSize \<longleftrightarrow>
      0 \<le> sint (Length h) \<and> sint (Length h) \<le> int MaxFrameSize"
    using uint_lt2p [of "Length h"] by (auto simp: sint_int32 MaxFrameSize_def)
  then show ?thesis by (auto simp: DecodeHeader_def)
qed

text \<open>
  A stream that ends inside a header is reported as a clean \<open>io.EOF\<close>, exactly like a stream
  that ends between two frames; only an end inside the payload is reported as truncated.
\<close>

lemma Decode_partial_header_is_EOF:
  assumes "length (rd_data r) < HeaderSize" and "rd_end r = EOF"
  shows "fst (Decode r) = Inl (IOErr EOF)"
  using assms by (simp add: Decode_def decodeFrame_def ReadFull_def)

end
