(* ===== verification/Stream_Codec.thy ===== *)
theory Stream_Codec
  imports Wire_Codec
begin

text \<open>
  Streamed messages: \<open>pkg/proto/stream.go\<close>. A payload above the threshold is cut into
  fragments of one stream id and type, every fragment but the last flagged with \<open>FlagMore\<close>;
  the reader assembles them and bounds the total by \<open>MaxStreamSize\<close>. This theory holds the
  pool-free path (a nil backend).
\<close>

definition FlagMore :: uint8 where [wire_defs]: "FlagMore = 0x01"
definition MaxStreamSize :: nat where [wire_defs]: "MaxStreamSize = 8388608"
definition defaultStreamThreshold :: int where
  [wire_defs]: "defaultStreamThreshold = int MaxFrameSize - 64 * 1024"

section \<open>Reading a streamed message\<close>

text \<open>
  The assembly loop of \<open>decodeStreamed\<close>: \<open>buf\<close> is the aggregate so far. Every accepted
  fragment consumes at least a header from the reader, so the loop ends.
\<close>

function decodeStreamed_loop ::
  "uint32 \<Rightarrow> FrameType \<Rightarrow> bytes \<Rightarrow> reader \<Rightarrow> (proto_err + Frame) \<times> reader" where
  "decodeStreamed_loop streamId frameType buf r =
     (case decodeFrame r of
        (Inl err, r1) \<Rightarrow> (Inl err, r1)
      | (Inr nxt, r1) \<Rightarrow>
          (if StreamId (Header nxt) \<noteq> streamId
             then (Inl (StreamViolationId (StreamId (Header nxt)) streamId), r1)
           else if FrameType (Header nxt) \<noteq> frameType
             then (Inl (StreamViolationType (FrameType (Header nxt)) frameType), r1)
           else (let last = (Flags (Header nxt) AND FlagMore = 0);
                     buf' = buf @ Payload nxt
                 in if length buf' > MaxStreamSize then (Inl ErrStreamTooLarge, r1)
                    else if last
                      then (Inr \<lparr>Header = \<lparr>FrameType = frameType, Flags = 0, StreamId = streamId,
                                          Length = word_of_nat (length buf')\<rparr>,
                                 Payload = buf'\<rparr>, r1)
                      else decodeStreamed_loop streamId frameType buf' r1)))"
  by pat_completeness auto
termination
proof (relation "measure (\<lambda>(_, _, _, r). length (rd_data r))", goal_cases)
  case 1
  show ?case by simp
next
  case (2 streamId frameType buf r x r1 nxt)
  then have "decodeFrame r = (Inr nxt, r1)" by simp
  from decodeFrame_decreases [OF this] show ?case by (simp add: HeaderSize_def)
qed

declare decodeStreamed_loop.simps [simp del]

definition decodeStreamed :: "reader \<Rightarrow> (proto_err + Frame) \<times> reader" where
  "decodeStreamed r =
     (case decodeFrame r of
        (Inl err, r1) \<Rightarrow> (Inl err, r1)
      | (Inr frame, r1) \<Rightarrow>
          (if Flags (Header frame) AND FlagMore = 0 then (Inr frame, r1)
           else decodeStreamed_loop (StreamId (Header frame)) (FrameType (Header frame))
                  (Payload frame) r1))"

definition DecodeStreamed :: "reader \<Rightarrow> (proto_err + Frame) \<times> reader" where
  "DecodeStreamed r = decodeStreamed r"

section \<open>Writing a streamed message\<close>

text \<open>\<open>encodeFrameInto\<close> without a pool: an exact-size buffer holding header and payload.\<close>

definition encodeFrameInto :: "FrameType \<Rightarrow> uint32 \<Rightarrow> bytes \<Rightarrow> uint8 \<Rightarrow> bytes" where
  "encodeFrameInto t streamId payload flags =
     (let total = HeaderSize + length payload;
          header = \<lparr>FrameType = t, Flags = flags, StreamId = streamId,
                    Length = word_of_nat (length payload)\<rparr>;
          buf = replicate total 0
      in case EncodeHeaderTo buf header of
           None \<Rightarrow> buf
         | Some buf' \<Rightarrow> copy_after_header buf' payload)"

text \<open>
  The fragment loop of \<open>encodeMessage\<close>. The guard on \<open>threshold\<close> makes the function total;
  \<open>encodeMessage\<close> clamps the threshold to at least 1 before it gets here.
\<close>

function encode_fragments ::
  "FrameType \<Rightarrow> uint32 \<Rightarrow> bytes \<Rightarrow> nat \<Rightarrow> nat \<Rightarrow> bytes list" where
  "encode_fragments t streamId payload threshold offset =
     (if offset < length payload \<and> 0 < threshold
      then let stop = (if offset + threshold > length payload then length payload
                      else offset + threshold);
               flags = (if stop < length payload then FlagMore else 0)
           in encodeFrameInto t streamId (take (stop - offset) (drop offset payload)) flags
              # encode_fragments t streamId payload threshold stop
      else [])"
  by pat_completeness auto
termination
  by (relation "measure (\<lambda>(_, _, payload, _, offset). length payload - offset)") auto

declare encode_fragments.simps [simp del]

definition clamp_threshold :: "int \<Rightarrow> nat" where
  "clamp_threshold threshold =
     nat (if threshold \<le> 0 \<or> threshold > int MaxFrameSize then int MaxFrameSize else threshold)"

text \<open>
  \<open>encodeMessage\<close> with a nil backend; the result lists the wire buffers in order, as
  \<open>encodedMessage.buffers\<close> does.
\<close>

definition encodeMessage ::
  "FrameType \<Rightarrow> uint32 \<Rightarrow> bytes \<Rightarrow> int \<Rightarrow> proto_err + bytes list" where
  "encodeMessage t streamId payload threshold =
     (let th = clamp_threshold threshold
      in if length payload \<le> th
         then (case Encode (Some (newFrame t streamId payload)) of
                 Inl e \<Rightarrow> Inl e
               | Inr buf \<Rightarrow> Inr [buf])
         else Inr (encode_fragments t streamId payload th 0))"

definition encodeStreamFrames ::
  "FrameType \<Rightarrow> uint32 \<Rightarrow> bytes \<Rightarrow> int \<Rightarrow> proto_err + bytes list" where
  "encodeStreamFrames t streamId payload threshold =
     (case encodeMessage t streamId payload threshold of Inl e \<Rightarrow> Inl e | Inr bufs \<Rightarrow> Inr bufs)"

section \<open>Fragments on the wire\<close>

lemma clamp_threshold_bounds [simp]:
  "0 < clamp_threshold th" "clamp_threshold th \<le> MaxFrameSize"
  by (auto simp: clamp_threshold_def MaxFrameSize_def)

lemma sint_length [simp]:
  "n \<le> MaxStreamSize \<Longrightarrow> sint (word_of_nat n :: int32) = int n"
  by (simp add: sint_int32 uint_nat unat_of_nat MaxStreamSize_def)

lemma MaxFrame_le_MaxStream: "n \<le> MaxFrameSize \<Longrightarrow> n \<le> MaxStreamSize"
  by (simp add: wire_defs)

definition fragment :: "FrameType \<Rightarrow> uint32 \<Rightarrow> bytes \<Rightarrow> uint8 \<Rightarrow> Frame" where
  "fragment t sid chunk flags =
     \<lparr>Header = \<lparr>FrameType = t, Flags = flags, StreamId = sid,
                Length = word_of_nat (length chunk)\<rparr>, Payload = chunk\<rparr>"

lemma fragment_simps [simp]:
  "Payload (fragment t sid chunk fl) = chunk" "FrameType (Header (fragment t sid chunk fl)) = t"
  "Flags (Header (fragment t sid chunk fl)) = fl"
  "StreamId (Header (fragment t sid chunk fl)) = sid"
  "Length (Header (fragment t sid chunk fl)) = word_of_nat (length chunk)"
  by (simp_all add: fragment_def)

lemma encodeFrameInto_wire:
  "encodeFrameInto t sid chunk fl = header_bytes (Header (fragment t sid chunk fl)) @ chunk"
  by (simp add: encodeFrameInto_def EncodeHeaderTo_Some copy_after_header_def fragment_def Let_def)

lemma newFrame_fragment: "newFrame t sid p = fragment t sid p 0"
  by (simp add: newFrame_def fragment_def)

lemma decodeFrame_fragment [simp]:
  assumes "length chunk \<le> MaxFrameSize"
  shows "decodeFrame (r\<lparr>rd_data := encodeFrameInto t sid chunk fl @ rest\<rparr>)
    = (Inr (fragment t sid chunk fl), r\<lparr>rd_data := rest\<rparr>)"
  using decodeFrame_wire [where f = "fragment t sid chunk fl"] assms
  by (simp add: encodeFrameInto_wire MaxFrame_le_MaxStream)

lemma FlagMore_nonzero [simp]: "FlagMore \<noteq> 0"
  by (simp add: FlagMore_def)

text \<open>One turn of the assembly loop on a well-formed fragment.\<close>

lemma decodeStreamed_loop_step:
  assumes "length chunk \<le> MaxFrameSize"
  shows "decodeStreamed_loop sid t buf (r\<lparr>rd_data := encodeFrameInto t sid chunk fl @ rest\<rparr>) =
    (if length (buf @ chunk) > MaxStreamSize then (Inl ErrStreamTooLarge, r\<lparr>rd_data := rest\<rparr>)
     else if fl AND FlagMore = 0
       then (Inr (newFrame t sid (buf @ chunk)), r\<lparr>rd_data := rest\<rparr>)
     else decodeStreamed_loop sid t (buf @ chunk) (r\<lparr>rd_data := rest\<rparr>))"
  using assms by (simp add: decodeStreamed_loop.simps [of sid t buf] newFrame_def Let_def)

text \<open>The fragment that starts at \<open>offset\<close>, and the loop's unfolding.\<close>

lemma encode_fragments_done:
  "length p \<le> offset \<Longrightarrow> encode_fragments t sid p th offset = []"
  by (simp add: encode_fragments.simps [of t sid p th offset])

lemma encode_fragments_last:
  assumes "offset < length p" "length p \<le> offset + th"
  shows "encode_fragments t sid p th offset = [encodeFrameInto t sid (drop offset p) 0]"
  using assms by (simp add: encode_fragments.simps [of t sid p th offset]
      encode_fragments_done Let_def)

lemma encode_fragments_more:
  assumes "0 < th" "offset + th < length p"
  shows "encode_fragments t sid p th offset =
    encodeFrameInto t sid (take th (drop offset p)) FlagMore # encode_fragments t sid p th (offset + th)"
  using assms by (simp add: encode_fragments.simps [of t sid p th offset] Let_def)

text \<open>Induction along the offsets the loop visits.\<close>

lemma fragments_induct [consumes 2, case_names last more]:
  assumes "0 < th" and "off < length p"
    and last: "\<And>off. off < length p \<Longrightarrow> length p \<le> off + th \<Longrightarrow> P off"
    and more: "\<And>off. off + th < length p \<Longrightarrow> P (off + th) \<Longrightarrow> P off"
  shows "P off"
  using assms(2)
proof (induction "length p - off" arbitrary: off rule: less_induct)
  case less
  show ?case
  proof (cases "length p \<le> off + th")
    case True
    with less.prems show ?thesis by (rule last)
  next
    case False
    with less.hyps [of "off + th"] assms(1) have "P (off + th)" by auto
    with False show ?thesis by (intro more [of off]) auto
  qed
qed

lemma take_append_chunk: "take off p @ take th (drop off p) = take (off + th) p"
  by (simp add: take_add)

lemma decodeStreamed_loop_fragments:
  assumes "0 < th" "th \<le> MaxFrameSize" "off < length p"
  shows "decodeStreamed_loop sid t (take off p)
      (r\<lparr>rd_data := concat (encode_fragments t sid p th off) @ rest\<rparr>) =
    (if length p \<le> MaxStreamSize then (Inr (newFrame t sid p), r\<lparr>rd_data := rest\<rparr>)
     else (Inl ErrStreamTooLarge, snd (decodeStreamed_loop sid t (take off p)
      (r\<lparr>rd_data := concat (encode_fragments t sid p th off) @ rest\<rparr>))))"
  using assms(1,3)
proof (induction off rule: fragments_induct)
  case (last off)
  then have "length (drop off p) \<le> MaxFrameSize" using assms(2) by simp
  from decodeStreamed_loop_step [OF this, of sid t "take off p" 0 rest r] last
  show ?case by (simp add: encode_fragments_last)
next
  case (more off)
  let ?more = "concat (encode_fragments t sid p th (off + th)) @ rest"
  have "length (take th (drop off p)) \<le> MaxFrameSize" using assms(2) by simp
  note step = decodeStreamed_loop_step [OF this, of sid t "take off p" FlagMore ?more r]
  show ?case
  proof (cases "off + th > MaxStreamSize")
    case True
    with step more assms(1) show ?thesis
      by (simp add: encode_fragments_more take_append_chunk min_def)
  next
    case False
    with step more assms(1) show ?thesis
      by (cases "length p \<le> MaxStreamSize")
        (simp_all add: encode_fragments_more take_append_chunk min_def)
  qed
qed

lemma decodeStreamed_first:
  assumes "length chunk \<le> MaxFrameSize"
  shows "decodeStreamed (r\<lparr>rd_data := encodeFrameInto t sid chunk fl @ rest\<rparr>) =
    (if fl AND FlagMore = 0 then (Inr (fragment t sid chunk fl), r\<lparr>rd_data := rest\<rparr>)
     else decodeStreamed_loop sid t chunk (r\<lparr>rd_data := rest\<rparr>))"
  using assms by (simp add: decodeStreamed_def)

lemma encodeMessage_small:
  assumes "0 < length p" "length p \<le> clamp_threshold th"
  shows "encodeMessage t sid p th = Inr [encodeFrameInto t sid p 0]"
proof -
  from assms clamp_threshold_bounds(2) [of th] have "length p \<le> MaxFrameSize" by linarith
  with assms have "Encode (Some (newFrame t sid p)) = Inr (encodeFrameInto t sid p 0)"
    by (simp add: Encode_Inr newFrame_fragment encodeFrameInto_wire)
  with assms show ?thesis by (simp add: encodeMessage_def Let_def)
qed

lemma encodeMessage_decode:
  assumes "0 < length p" and "encodeMessage t sid p th = Inr bufs"
  shows "fst (DecodeStreamed (r\<lparr>rd_data := concat bufs @ rest\<rparr>)) =
      (if length p \<le> MaxStreamSize then Inr (newFrame t sid p) else Inl ErrStreamTooLarge)"
    and "length p \<le> MaxStreamSize \<Longrightarrow>
      snd (DecodeStreamed (r\<lparr>rd_data := concat bufs @ rest\<rparr>)) = r\<lparr>rd_data := rest\<rparr>"
proof -
  let ?th = "clamp_threshold th"
  have th: "0 < ?th" "?th \<le> MaxFrameSize" by simp_all
  have "fst (DecodeStreamed (r\<lparr>rd_data := concat bufs @ rest\<rparr>)) =
      (if length p \<le> MaxStreamSize then Inr (newFrame t sid p) else Inl ErrStreamTooLarge) \<and>
    (length p \<le> MaxStreamSize \<longrightarrow>
      snd (DecodeStreamed (r\<lparr>rd_data := concat bufs @ rest\<rparr>)) = r\<lparr>rd_data := rest\<rparr>)"
  proof (cases "length p \<le> ?th")
    case True
    with th have "length p \<le> MaxFrameSize" by linarith
    moreover have "bufs = [encodeFrameInto t sid p 0]"
      using assms True by (simp add: encodeMessage_small)
    ultimately show ?thesis
      by (simp add: DecodeStreamed_def decodeStreamed_first newFrame_fragment
          MaxFrame_le_MaxStream)
  next
    case False
    with assms have bufs: "bufs = encodeFrameInto t sid (take ?th p) FlagMore
        # encode_fragments t sid p ?th ?th"
      using encode_fragments_more [of ?th 0 p t sid] th by (simp add: encodeMessage_def Let_def)
    have "length (take ?th p) \<le> MaxFrameSize" using th by (simp add: min.coboundedI2)
    from decodeStreamed_first [OF this, of t sid FlagMore _ r] False
      decodeStreamed_loop_fragments [OF th, of ?th p sid t rest r]
    show ?thesis by (auto simp: bufs DecodeStreamed_def prod_eq_iff split: if_splits)
  qed
  then show "fst (DecodeStreamed (r\<lparr>rd_data := concat bufs @ rest\<rparr>)) =
      (if length p \<le> MaxStreamSize then Inr (newFrame t sid p) else Inl ErrStreamTooLarge)"
    and "length p \<le> MaxStreamSize \<Longrightarrow>
      snd (DecodeStreamed (r\<lparr>rd_data := concat bufs @ rest\<rparr>)) = r\<lparr>rd_data := rest\<rparr>"
    by blast+
qed

lemma encodeMessage_Inr:
  assumes "0 < length p"
  obtains bufs where "encodeMessage t sid p th = Inr bufs"
  using encodeMessage_small [OF assms] by (cases "length p \<le> clamp_threshold th") (auto simp: encodeMessage_def Let_def)

text \<open>What the fragment loop writes: count, contents, sizes and flags.\<close>

lemma encodeFrameInto_simps [simp]:
  "length (encodeFrameInto t sid c fl) = HeaderSize + length c"
  "drop HeaderSize (encodeFrameInto t sid c fl) = c"
  "encodeFrameInto t sid c fl ! Suc 0 = fl"
  by (simp add: encodeFrameInto_wire, simp add: encodeFrameInto_wire,
      simp add: encodeFrameInto_wire header_bytes_def)

lemma encode_fragments_count:
  assumes "0 < th" "off < length p"
  shows "length (encode_fragments t sid p th off) = (length p - off + th - 1) div th"
  using assms
proof (induction off rule: fragments_induct)
  case (last off)
  then have "(length p - off + th - 1) div th = 1"
    by (intro div_nat_eqI) auto
  with last show ?case by (simp add: encode_fragments_last)
next
  case (more off)
  define x where "x = length p - (off + th) + th - 1"
  from more have x: "length p - off + th - 1 = x + th" by (simp add: x_def)
  have "(x + th) div th = Suc (x div th)"
    using assms(1) by (simp add: div_add_self2)
  with x have "(length p - off + th - 1) div th = Suc ((length p - (off + th) + th - 1) div th)"
    by (simp only: x_def)
  with more assms(1) show ?case by (simp only: encode_fragments_more length_Cons)
qed

lemma encode_fragments_contents:
  assumes "0 < th" "off < length p"
  shows "concat (map (drop HeaderSize) (encode_fragments t sid p th off)) = drop off p"
  using assms
proof (induction off rule: fragments_induct)
  case (more off)
  have "drop off p = take th (drop off p) @ drop (off + th) p"
    by (metis append_take_drop_id drop_drop add.commute)
  with more assms(1) show ?case by (simp add: encode_fragments_more)
qed (simp add: encode_fragments_last)

lemma encode_fragments_sizes:
  assumes "0 < th" "off < length p"
  shows "\<forall>b \<in> set (encode_fragments t sid p th off).
    HeaderSize < length b \<and> length b \<le> HeaderSize + th"
  using assms
  by (induction off rule: fragments_induct)
    (use assms(1) in \<open>auto simp: encode_fragments_last encode_fragments_more\<close>)

lemma encode_fragments_flags:
  assumes "0 < th" "off < length p"
  shows "\<forall>i < length (encode_fragments t sid p th off). (encode_fragments t sid p th off ! i) ! Suc 0 =
    (if Suc i < length (encode_fragments t sid p th off) then FlagMore else 0)"
  using assms
proof (induction off rule: fragments_induct)
  case (more off)
  then have "encode_fragments t sid p th (off + th) \<noteq> []"
    using assms(1) by (simp add: encode_fragments.simps [of t sid p th "off + th"] Let_def)
  with more assms(1) show ?case
    by (auto simp: encode_fragments_more less_Suc_eq_0_disj)
qed (simp add: encode_fragments_last)

text \<open>What an accepted message was made of.\<close>

definition wire :: "Frame \<Rightarrow> bytes" where
  "wire f = header_bytes (Header f) @ Payload f"

abbreviation more_flag :: "Frame \<Rightarrow> bool" where
  "more_flag f \<equiv> Flags (Header f) AND FlagMore \<noteq> 0"

lemma decodeStreamed_loop_sound:
  assumes "decodeStreamed_loop sid t buf r = (Inr f, r')"
  shows "\<exists>fs. fs \<noteq> [] \<and> rd_data r = concat (map wire fs) @ rd_data r' \<and>
    (\<forall>g \<in> set fs. StreamId (Header g) = sid \<and> FrameType (Header g) = t) \<and>
    (\<forall>g \<in> set (butlast fs). more_flag g) \<and> \<not> more_flag (last fs) \<and>
    f = newFrame t sid (buf @ concat (map Payload fs)) \<and> length (Payload f) \<le> MaxStreamSize"
  using assms
proof (induction "length (rd_data r)" arbitrary: buf r rule: less_induct)
  case less
  from less.prems obtain nxt r1 where d: "decodeFrame r = (Inr nxt, r1)"
    by (auto simp: decodeStreamed_loop.simps [of sid t buf r] split: prod.splits sum.splits)
  with less.prems have id: "StreamId (Header nxt) = sid" "FrameType (Header nxt) = t"
    and small: "\<not> length (buf @ Payload nxt) > MaxStreamSize"
    by (auto simp: decodeStreamed_loop.simps [of sid t buf r] Let_def split: if_splits)
  have data: "rd_data r = wire nxt @ rd_data r1"
    using decodeFrame_Inr(1) [OF d] by (simp add: wire_def)
  show ?case
  proof (cases "more_flag nxt")
    case False
    with less.prems d id small have "f = newFrame t sid (buf @ Payload nxt)" "r' = r1"
      by (auto simp: decodeStreamed_loop.simps [of sid t buf r] newFrame_def Let_def)
    with False id data small show ?thesis
      by (intro exI [of _ "[nxt]"]) (simp add: newFrame_def)
  next
    case True
    with less.prems d id small
    have "decodeStreamed_loop sid t (buf @ Payload nxt) r1 = (Inr f, r')"
      by (simp add: decodeStreamed_loop.simps [of sid t buf r] Let_def)
    from less.hyps [OF _ this] decodeFrame_decreases [OF d] obtain fs where "fs \<noteq> []" "rd_data r1 = concat (map wire fs) @ rd_data r'"
      "\<forall>g \<in> set fs. StreamId (Header g) = sid \<and> FrameType (Header g) = t"
      "\<forall>g \<in> set (butlast fs). more_flag g" "\<not> more_flag (last fs)"
      "f = newFrame t sid ((buf @ Payload nxt) @ concat (map Payload fs))"
      "length (Payload f) \<le> MaxStreamSize"
      by (auto simp: HeaderSize_def)
    with True id data show ?thesis by (intro exI [of _ "nxt # fs"]) auto
  qed
qed

section \<open>Properties of the stream layer\<close>

text \<open>
  C3. Streaming round trip: for every payload from 1 byte to \<open>MaxStreamSize\<close> and every
  threshold (also a zero, negative or oversized one), \<open>encodeMessage\<close> succeeds, and reading the
  buffers back to back with \<open>DecodeStreamed\<close> gives one frame with the same type, stream id and
  payload, leaving what follows unread.
\<close>

theorem DecodeStreamed_encodeMessage:
  assumes "0 < length p" and "length p \<le> MaxStreamSize"
  shows "\<exists>bufs. encodeMessage t sid p th = Inr bufs \<and>
    (\<forall>r rest. DecodeStreamed (r\<lparr>rd_data := concat bufs @ rest\<rparr>) =
       (Inr (newFrame t sid p), r\<lparr>rd_data := rest\<rparr>))"
proof -
  obtain bufs where "encodeMessage t sid p th = Inr bufs"
    using encodeMessage_Inr [OF assms(1)] .
  with encodeMessage_decode [OF assms(1) this] assms(2) show ?thesis
    by (metis prod.collapse)
qed

theorem DecodeStreamed_encodeMessage_witness:
  "\<exists>bufs. encodeMessage REQUEST 3 [1, 2, 3, 4, 5] 2 = Inr bufs \<and> length bufs = 3 \<and>
    DecodeStreamed \<lparr>rd_data = concat bufs @ [7], rd_end = EOF\<rparr> =
      (Inr (newFrame REQUEST 3 [1, 2, 3, 4, 5]), \<lparr>rd_data = [7], rd_end = EOF\<rparr>)"
proof -
  from DecodeStreamed_encodeMessage [of "[1, 2, 3, 4, 5]" REQUEST 3 2] obtain bufs where
    b: "encodeMessage REQUEST 3 [1, 2, 3, 4, 5] 2 = Inr bufs" and
    d: "\<And>r rest. DecodeStreamed (r\<lparr>rd_data := concat bufs @ rest\<rparr>) =
       (Inr (newFrame REQUEST 3 [1, 2, 3, 4, 5]), r\<lparr>rd_data := rest\<rparr>)"
    by (auto simp: MaxStreamSize_def)
  have "length bufs = 3"
    using b encode_fragments_count [of 2 0 "[1, 2, 3, 4, 5 :: byte]" REQUEST 3]
    by (auto simp: encodeMessage_def clamp_threshold_def MaxFrameSize_def)
  with b d [where r = "\<lparr>rd_data = [], rd_end = EOF\<rparr>" and rest = "[7]"] show ?thesis by simp
qed



text \<open>
  C5. Soundness of assembly on arbitrary input: an accepted message is the concatenation of
  complete frames found back to back at the front of the stream, all of one stream id and type,
  every one but the last flagged \<open>FlagMore\<close>; its payload is the fragments' payloads in order and
  never exceeds \<open>MaxStreamSize\<close>.
\<close>

theorem DecodeStreamed_sound:
  assumes "DecodeStreamed r = (Inr f, r')"
  shows "\<exists>fs. fs \<noteq> [] \<and> rd_data r = concat (map wire fs) @ rd_data r' \<and>
    (\<forall>g \<in> set fs. StreamId (Header g) = StreamId (Header f) \<and>
       FrameType (Header g) = FrameType (Header f)) \<and>
    (\<forall>g \<in> set (butlast fs). more_flag g) \<and> \<not> more_flag (last fs) \<and>
    Payload f = concat (map Payload fs) \<and> length (Payload f) \<le> MaxStreamSize"
proof -
  from assms obtain g r1 where d: "decodeFrame r = (Inr g, r1)"
    by (auto simp: DecodeStreamed_def decodeStreamed_def split: prod.splits sum.splits)
  note g = decodeFrame_Inr [OF d]
  show ?thesis
  proof (cases "more_flag g")
    case False
    with assms d have "f = g" "r' = r1" by (simp_all add: DecodeStreamed_def decodeStreamed_def)
    with False g MaxFrame_le_MaxStream show ?thesis
      by (intro exI [of _ "[g]"]) (simp add: wire_def)
  next
    case True
    with assms d have "decodeStreamed_loop (StreamId (Header g)) (FrameType (Header g)) (Payload g) r1
        = (Inr f, r')"
      by (simp add: DecodeStreamed_def decodeStreamed_def)
    from decodeStreamed_loop_sound [OF this] obtain fs where
      fs: "fs \<noteq> []" "rd_data r1 = concat (map wire fs) @ rd_data r'"
      "\<forall>h \<in> set fs. StreamId (Header h) = StreamId (Header g) \<and> FrameType (Header h) = FrameType (Header g)"
      "\<forall>h \<in> set (butlast fs). more_flag h" "\<not> more_flag (last fs)"
      "f = newFrame (FrameType (Header g)) (StreamId (Header g)) (Payload g @ concat (map Payload fs))"
      "length (Payload f) \<le> MaxStreamSize"
      by blast
    with True g(1) show ?thesis
      by (intro exI [of _ "g # fs"]) (auto simp: wire_def newFrame_def)
  qed
qed

theorem DecodeStreamed_sound_witness:
  "\<exists>bufs r'. encodeMessage REQUEST 3 [1, 2, 3] 2 = Inr bufs \<and>
     DecodeStreamed \<lparr>rd_data = concat bufs, rd_end = EOF\<rparr> = (Inr (newFrame REQUEST 3 [1, 2, 3]), r') \<and>
     (\<exists>fs. fs \<noteq> [] \<and> concat bufs = concat (map wire fs) @ rd_data r' \<and>
       [1, 2, 3] = concat (map Payload fs))"
proof -
  obtain bufs where b: "encodeMessage REQUEST 3 [1, 2, 3] 2 = Inr bufs"
    using encodeMessage_Inr [of "[1, 2, 3]" REQUEST 3 2] by auto
  have d: "DecodeStreamed \<lparr>rd_data = concat bufs, rd_end = EOF\<rparr> =
      (Inr (newFrame REQUEST 3 [1, 2, 3]), \<lparr>rd_data = [], rd_end = EOF\<rparr>)"
    using encodeMessage_decode [OF _ b, where r = "\<lparr>rd_data = [], rd_end = EOF\<rparr>" and rest = "[]"]
    by (simp add: prod_eq_iff MaxStreamSize_def)
  from DecodeStreamed_sound [OF d] b d show ?thesis by (auto simp: newFrame_def)
qed

text \<open>
  C6. The writer has no upper bound of its own: a payload above \<open>MaxStreamSize\<close> is encoded
  without an error, and every reader refuses the resulting bytes with \<open>ErrStreamTooLarge\<close>.
\<close>

theorem encodeMessage_oversize_unreadable:
  assumes "MaxStreamSize < length p"
  shows "\<exists>bufs. encodeMessage t sid p th = Inr bufs \<and>
    (\<forall>r rest. fst (DecodeStreamed (r\<lparr>rd_data := concat bufs @ rest\<rparr>)) = Inl ErrStreamTooLarge)"
proof -
  from assms have p: "0 < length p" by linarith
  obtain bufs where "encodeMessage t sid p th = Inr bufs"
    using encodeMessage_Inr [OF p] .
  with encodeMessage_decode(1) [OF p this] assms show ?thesis by auto
qed

theorem encodeMessage_oversize_unreadable_witness:
  "\<exists>bufs. encodeMessage REQUEST 1 (replicate 8388609 0) defaultStreamThreshold = Inr bufs \<and>
    fst (DecodeStreamed \<lparr>rd_data = concat bufs, rd_end = EOF\<rparr>) = Inl ErrStreamTooLarge"
proof -
  from encodeMessage_oversize_unreadable
    [of "replicate 8388609 0" REQUEST 1 defaultStreamThreshold]
  obtain bufs where "encodeMessage REQUEST 1 (replicate 8388609 0) defaultStreamThreshold = Inr bufs"
    and d: "\<And>r rest. fst (DecodeStreamed (r\<lparr>rd_data := concat bufs @ rest\<rparr>)) = Inl ErrStreamTooLarge"
    by (auto simp: MaxStreamSize_def)
  with d [where r = "\<lparr>rd_data = [], rd_end = EOF\<rparr>" and rest = "[]"] show ?thesis by auto
qed

end
