(* ===== verification/Json_Std.thy ===== *)
theory Json_Std
  imports Go_Prelude
begin

text \<open>
  What the program uses of Go's \<open>encoding/json\<close> (Go 1.22), \<open>unicode/utf8\<close> and \<open>strconv\<close>:
  the string encoder with HTML escaping, the validating scanner with its nesting limit, string
  decoding with surrogate pairs and replacement of invalid UTF-8, and the matching of object keys
  to struct fields. A string is a sequence of bytes, as in Go; \<open>code\<close> is a byte's value.
\<close>

abbreviation code :: "char \<Rightarrow> nat" where
  "code c \<equiv> of_char c"

abbreviation quote :: char where "quote \<equiv> CHR 0x22"
abbreviation bslash :: char where "bslash \<equiv> CHR 0x5C"

section \<open>UTF-8\<close>

text \<open>The length a leading byte announces (0: not a leading byte) and the range of the second byte.\<close>

definition utf8_size :: "nat \<Rightarrow> nat" where
  "utf8_size b = (if b < 0x80 then 1 else if 0xC2 \<le> b \<and> b \<le> 0xDF then 2
     else if 0xE0 \<le> b \<and> b \<le> 0xEF then 3 else if 0xF0 \<le> b \<and> b \<le> 0xF4 then 4 else 0)"

definition utf8_range :: "nat \<Rightarrow> nat \<times> nat" where
  "utf8_range b = (if b = 0xE0 then (0xA0, 0xBF) else if b = 0xED then (0x80, 0x9F)
     else if b = 0xF0 then (0x90, 0xBF) else if b = 0xF4 then (0x80, 0x8F) else (0x80, 0xBF))"

text \<open>The length of the valid sequence a string starts with, 0 when \<open>utf8.DecodeRune\<close> reports an error.\<close>

definition utf8_len :: "string \<Rightarrow> nat" where
  "utf8_len s =
     (case s of [] \<Rightarrow> 0
      | c # cs \<Rightarrow>
          (let n = utf8_size (code c); (lo, hi) = utf8_range (code c)
           in if n \<le> 1 then n
              else if n - 1 \<le> length cs \<and> lo \<le> code (cs ! 0) \<and> code (cs ! 0) \<le> hi \<and>
                      list_all (\<lambda>x. 0x80 \<le> code x \<and> code x \<le> 0xBF) (take (n - 2) (drop 1 cs))
                   then n else 0))"

text \<open>\<open>utf8.AppendRune\<close> on a code point that is not a surrogate.\<close>

definition append_rune :: "nat \<Rightarrow> string" where
  "append_rune r =
     (if r < 0x80 then [char_of r]
      else if r < 0x800 then [char_of (0xC0 + r div 64), char_of (0x80 + r mod 64)]
      else if r < 0x10000 then
        [char_of (0xE0 + r div 4096), char_of (0x80 + r div 64 mod 64), char_of (0x80 + r mod 64)]
      else [char_of (0xF0 + r div 262144), char_of (0x80 + r div 4096 mod 64),
            char_of (0x80 + r div 64 mod 64), char_of (0x80 + r mod 64)])"

definition rune_error :: string where
  "rune_error = [CHR 0xEF, CHR 0xBF, CHR 0xBD]"

text \<open>A string with every invalid byte replaced by U+FFFD.\<close>

function to_valid :: "string \<Rightarrow> string" where
  "to_valid [] = []"
| "to_valid (c # cs) =
     (let n = utf8_len (c # cs)
      in if n = 0 then rune_error @ to_valid cs
         else take n (c # cs) @ to_valid (drop (n - 1) cs))"
  by pat_completeness auto
termination by (relation "measure length") auto

fun valid_utf8 :: "string \<Rightarrow> bool" where
  "valid_utf8 s = (to_valid s = s)"

section \<open>Encoding strings\<close>

definition hex_digit :: "nat \<Rightarrow> char" where
  "hex_digit n = char_of (if n < 10 then 48 + n else 87 + n)"

text \<open>The escapes of \<open>appendString\<close> for a byte below 0x80, HTML characters included.\<close>

definition html_safe :: "char \<Rightarrow> bool" where
  "html_safe c \<longleftrightarrow> 0x20 \<le> code c \<and> c \<noteq> quote \<and> c \<noteq> bslash \<and>
     c \<noteq> CHR ''<'' \<and> c \<noteq> CHR ''>'' \<and> c \<noteq> CHR ''&''"

definition escape_ascii :: "char \<Rightarrow> string" where
  "escape_ascii c =
     (if c = quote \<or> c = bslash then [bslash, c]
      else if code c = 8 then [bslash, CHR ''b'']
      else if code c = 12 then [bslash, CHR ''f'']
      else if code c = 10 then [bslash, CHR ''n'']
      else if code c = 13 then [bslash, CHR ''r'']
      else if code c = 9 then [bslash, CHR ''t'']
      else [bslash, CHR ''u'', CHR ''0'', CHR ''0'', hex_digit (code c div 16), hex_digit (code c mod 16)])"

function quote_body :: "string \<Rightarrow> string" where
  "quote_body [] = []"
| "quote_body (c # cs) =
     (if code c < 0x80 then (if html_safe c then [c] else escape_ascii c) @ quote_body cs
      else let n = utf8_len (c # cs)
           in if n = 0 then bslash # ''ufffd'' @ quote_body cs
              else if take n (c # cs) = [CHR 0xE2, CHR 0x80, CHR 0xA8]
                then bslash # ''u2028'' @ quote_body (drop (n - 1) cs)
              else if take n (c # cs) = [CHR 0xE2, CHR 0x80, CHR 0xA9]
                then bslash # ''u2029'' @ quote_body (drop (n - 1) cs)
              else take n (c # cs) @ quote_body (drop (n - 1) cs))"
  by pat_completeness auto
termination by (relation "measure length") auto

definition marshal_string :: "string \<Rightarrow> string" where
  "marshal_string s = quote # quote_body s @ [quote]"

section \<open>Scanning\<close>

definition is_space :: "char \<Rightarrow> bool" where
  "is_space c \<longleftrightarrow> code c \<in> {0x20, 0x09, 0x0D, 0x0A}"

abbreviation skip_ws :: "string \<Rightarrow> string" where
  "skip_ws \<equiv> dropWhile is_space"

definition is_digit :: "char \<Rightarrow> bool" where
  "is_digit c \<longleftrightarrow> 48 \<le> code c \<and> code c \<le> 57"

definition hex_value :: "char \<Rightarrow> nat option" where
  "hex_value c =
     (if is_digit c then Some (code c - 48)
      else if 97 \<le> code c \<and> code c \<le> 102 then Some (code c - 87)
      else if 65 \<le> code c \<and> code c \<le> 70 then Some (code c - 55)
      else None)"

text \<open>From behind the opening quote: the text up to the closing quote and what follows it.\<close>

fun scan_str :: "string \<Rightarrow> (string \<times> string) option" where
  "scan_str [] = None"
| "scan_str (c # cs) =
     (if c = quote then Some ([], cs)
      else if code c < 0x20 then None
      else if c = bslash then
        (case cs of
           [] \<Rightarrow> None
         | e # es \<Rightarrow>
             (if e = CHR ''u'' then
                (case es of
                   h1 # h2 # h3 # h4 # rest \<Rightarrow>
                     (if list_all (\<lambda>h. hex_value h \<noteq> None) [h1, h2, h3, h4]
                      then map_option (apfst (\<lambda>b. c # e # h1 # h2 # h3 # h4 # b)) (scan_str rest)
                      else None)
                 | _ \<Rightarrow> None)
              else if e \<in> set ''bfnrt/'' \<union> {quote, bslash}
                then map_option (apfst (\<lambda>b. c # e # b)) (scan_str es)
              else None))
      else map_option (apfst ((#) c)) (scan_str cs))"

definition hex4 :: "char \<Rightarrow> char \<Rightarrow> char \<Rightarrow> char \<Rightarrow> nat" where
  "hex4 h1 h2 h3 h4 =
     ((the (hex_value h1) * 16 + the (hex_value h2)) * 16 + the (hex_value h3)) * 16 + the (hex_value h4)"

definition is_surrogate :: "nat \<Rightarrow> bool" where
  "is_surrogate r \<longleftrightarrow> 0xD800 \<le> r \<and> r < 0xE000"

text \<open>\<open>utf16.DecodeRune\<close>; \<open>None\<close> when the two units are not a pair.\<close>

definition decode_pair :: "nat \<Rightarrow> nat \<Rightarrow> nat option" where
  "decode_pair r1 r2 =
     (if 0xD800 \<le> r1 \<and> r1 < 0xDC00 \<and> 0xDC00 \<le> r2 \<and> r2 < 0xE000
      then Some ((r1 - 0xD800) * 1024 + (r2 - 0xDC00) + 0x10000) else None)"

text \<open>The text between the quotes, decoded (\<open>unquote\<close>).\<close>

definition unescape :: "char \<Rightarrow> string" where
  "unescape e = (if e = CHR ''b'' then [char_of (8 :: nat)] else if e = CHR ''f'' then [char_of (12 :: nat)]
     else if e = CHR ''n'' then [char_of (10 :: nat)] else if e = CHR ''r'' then [char_of (13 :: nat)]
     else if e = CHR ''t'' then [char_of (9 :: nat)] else [e])"

function unquote :: "string \<Rightarrow> string" where
  "unquote [] = []"
| "unquote (c # cs) =
     (if c = bslash then
        (case cs of
           e # es \<Rightarrow>
             (if e = CHR ''u'' then
                (case es of
                   h1 # h2 # h3 # h4 # rest \<Rightarrow>
                     (let r = hex4 h1 h2 h3 h4
                      in if is_surrogate r then
                           (case rest of
                              b # u # k1 # k2 # k3 # k4 # rest' \<Rightarrow>
                                (case (if b = bslash \<and> u = CHR ''u''
                                       then decode_pair r (hex4 k1 k2 k3 k4) else None) of
                                   Some d \<Rightarrow> append_rune d @ unquote rest'
                                 | None \<Rightarrow> rune_error @ unquote rest)
                            | _ \<Rightarrow> rune_error @ unquote rest)
                         else append_rune r @ unquote rest)
                 | _ \<Rightarrow> [])
              else unescape e @ unquote es)
         | [] \<Rightarrow> [])
      else let n = utf8_len (c # cs)
           in if n = 0 then rune_error @ unquote cs
              else take n (c # cs) @ unquote (drop (n - 1) cs))"
  by pat_completeness auto
termination by (relation "measure length") auto

declare to_valid.simps(2) [simp del] quote_body.simps(2) [simp del] unquote.simps(2) [simp del]

section \<open>Values\<close>

text \<open>
  A scanned value. An object keeps, for each member, the decoded key, the text of the value as
  it stands in the input (what a raw message receives) and the value.
\<close>

datatype json =
    JNull
  | JBool bool
  | JNumber string
  | JString string
  | JArray "json list"
  | JObject "(string \<times> string \<times> json) list"

text \<open>A number: the longest prefix that the grammar allows, and the rest.\<close>

definition scan_digits :: "string \<Rightarrow> (string \<times> string) option" where
  "scan_digits s = (let ds = takeWhile is_digit s
     in if ds = [] then None else Some (ds, drop (length ds) s))"

definition scan_int :: "string \<Rightarrow> (string \<times> string) option" where
  "scan_int s = (case s of
      [] \<Rightarrow> None
    | c # cs \<Rightarrow> if c = CHR ''0'' then Some ([c], cs) else scan_digits s)"

definition scan_frac :: "string \<Rightarrow> (string \<times> string) option" where
  "scan_frac s = (case s of
      c # cs \<Rightarrow> if c = CHR ''.'' then map_option (apfst ((#) c)) (scan_digits cs) else Some ([], s)
    | [] \<Rightarrow> Some ([], s))"

definition scan_exp :: "string \<Rightarrow> (string \<times> string) option" where
  "scan_exp s = (case s of
      c # cs \<Rightarrow>
        (if c = CHR ''e'' \<or> c = CHR ''E'' then
           (case cs of
              d # ds \<Rightarrow> if d = CHR ''+'' \<or> d = CHR ''-''
                        then map_option (apfst (\<lambda>x. c # d # x)) (scan_digits ds)
                        else map_option (apfst ((#) c)) (scan_digits cs)
            | [] \<Rightarrow> None)
         else Some ([], s))
    | [] \<Rightarrow> Some ([], s))"

definition scan_unsigned :: "string \<Rightarrow> (string \<times> string) option" where
  "scan_unsigned s =
     (case scan_int s of None \<Rightarrow> None
       | Some (i, s2) \<Rightarrow> (case scan_frac s2 of None \<Rightarrow> None
       | Some (f, s3) \<Rightarrow> (case scan_exp s3 of None \<Rightarrow> None
       | Some (e, s4) \<Rightarrow> Some (i @ f @ e, s4))))"

definition scan_number :: "string \<Rightarrow> (string \<times> string) option" where
  "scan_number s =
     (case s of
        c # cs \<Rightarrow> if c = CHR ''-'' then map_option (apfst ((#) c)) (scan_unsigned cs) else scan_unsigned s
      | [] \<Rightarrow> None)"

definition scan_literal :: "string \<Rightarrow> json \<Rightarrow> string \<Rightarrow> (json \<times> string) option" where
  "scan_literal w v s = (if take (length w) s = w then Some (v, drop (length w) s) else None)"

definition maxNestingDepth :: nat where "maxNestingDepth = 10000"

text \<open>
  The scanner, by recursive descent; the first argument is fuel, of which every call takes one
  and which twice the length of the text bounds (\<open>parse_enough\<close> below), the second the nesting depth.
\<close>

fun parse_value :: "nat \<Rightarrow> nat \<Rightarrow> string \<Rightarrow> (json \<times> string) option"
  and parse_members :: "nat \<Rightarrow> nat \<Rightarrow> string \<Rightarrow> ((string \<times> string \<times> json) list \<times> string) option"
  and parse_elems :: "nat \<Rightarrow> nat \<Rightarrow> string \<Rightarrow> (json list \<times> string) option" where
  "parse_value 0 d s = None"
| "parse_value (Suc f) d s =
     (case s of
        [] \<Rightarrow> None
      | c # cs \<Rightarrow>
          (if c = CHR ''{'' then
             (if maxNestingDepth \<le> d then None
              else if take 1 (skip_ws cs) = ''}'' then Some (JObject [], drop 1 (skip_ws cs))
              else map_option (apfst JObject) (parse_members f (d + 1) (skip_ws cs)))
           else if c = CHR ''['' then
             (if maxNestingDepth \<le> d then None
              else if take 1 (skip_ws cs) = '']'' then Some (JArray [], drop 1 (skip_ws cs))
              else map_option (apfst JArray) (parse_elems f (d + 1) (skip_ws cs)))
           else if c = quote then map_option (apfst (\<lambda>b. JString (unquote b))) (scan_str cs)
           else if c = CHR ''t'' then scan_literal ''true'' (JBool True) s
           else if c = CHR ''f'' then scan_literal ''false'' (JBool False) s
           else if c = CHR ''n'' then scan_literal ''null'' JNull s
           else if c = CHR ''-'' \<or> is_digit c then map_option (apfst JNumber) (scan_number s)
           else None))"
| "parse_members 0 d s = None"
| "parse_members (Suc f) d s =
     (if take 1 s \<noteq> [quote] then None
      else case scan_str (drop 1 s) of
        None \<Rightarrow> None
      | Some (key, s1) \<Rightarrow>
          (if take 1 (skip_ws s1) \<noteq> '':'' then None
           else let s2 = skip_ws (drop 1 (skip_ws s1))
                in case parse_value f d s2 of
                     None \<Rightarrow> None
                   | Some (v, s3) \<Rightarrow>
                       (let m = (unquote key, take (length s2 - length s3) s2, v); s4 = skip_ws s3
                        in if take 1 s4 = ''}'' then Some ([m], drop 1 s4)
                           else if take 1 s4 = '','' then
                             map_option (apfst ((#) m)) (parse_members f d (skip_ws (drop 1 s4)))
                           else None)))"
| "parse_elems 0 d s = None"
| "parse_elems (Suc f) d s =
     (case parse_value f d s of
        None \<Rightarrow> None
      | Some (v, s1) \<Rightarrow>
          (let s2 = skip_ws s1
           in if take 1 s2 = '']'' then Some ([v], drop 1 s2)
              else if take 1 s2 = '','' then
                map_option (apfst ((#) v)) (parse_elems f d (skip_ws (drop 1 s2)))
              else None))"

text \<open>\<open>json.Unmarshal\<close> up to the typed decoding: the whole input is one value.\<close>

definition parse_json :: "string \<Rightarrow> json option" where
  "parse_json s =
     (case parse_value (Suc (2 * length s)) 0 (skip_ws s) of
        Some (v, r) \<Rightarrow> if skip_ws r = [] then Some v else None
      | None \<Rightarrow> None)"

section \<open>Object keys and struct fields\<close>

text \<open>
  The folding of keys: ASCII letters to upper case, and the two code points outside ASCII that
  fold into it (U+017F to S, U+212A to K). A key is matched exactly or else by its folding.
\<close>

definition upper :: "char \<Rightarrow> char" where
  "upper c = (if 97 \<le> code c \<and> code c \<le> 122 then char_of (code c - 32) else c)"

fun foldName :: "string \<Rightarrow> string" where
  "foldName (a # b # c # cs) =
     (if a = CHR 0xC5 \<and> b = CHR 0xBF then CHR ''S'' # foldName (c # cs)
      else if a = CHR 0xE2 \<and> b = CHR 0x84 \<and> c = CHR 0xAA then CHR ''K'' # foldName cs
      else upper a # foldName (b # c # cs))"
| "foldName [a, b] = (if a = CHR 0xC5 \<and> b = CHR 0xBF then ''S'' else [upper a, upper b])"
| "foldName [a] = [upper a]"
| "foldName [] = []"

definition match_field :: "string list \<Rightarrow> string \<Rightarrow> string option" where
  "match_field names key =
     (if key \<in> set names then Some key else find (\<lambda>n. foldName n = foldName key) names)"

text \<open>The errors of decoding; the first is the envelope's own.\<close>

datatype json_err = NilFrame | SyntaxError | UnmarshalTypeError

section \<open>The scanner consumes a prefix\<close>

text \<open>One step of the string scanner: the closing quote, a plain byte or one of the two escapes.\<close>

definition str_unit :: "string \<Rightarrow> bool" where
  "str_unit u \<longleftrightarrow> (\<exists>c. u = [c] \<and> c \<noteq> quote \<and> 0x20 \<le> code c \<and> c \<noteq> bslash) \<or>
     (\<exists>e. u = [bslash, e] \<and> e \<in> set ''bfnrt/'' \<union> {quote, bslash}) \<or>
     (\<exists>h1 h2 h3 h4. u = [bslash, CHR ''u'', h1, h2, h3, h4] \<and>
        (\<forall>h \<in> {h1, h2, h3, h4}. hex_value h \<noteq> None))"

lemma scan_str_unit:
  assumes "str_unit u"
  shows "scan_str (u @ s) = map_option (apfst ((@) u)) (scan_str s)"
  using assms by (cases "scan_str s") (auto simp: str_unit_def not_less [symmetric])

lemma scan_str_cases:
  assumes "scan_str s = Some (b, r)"
  obtains "s = quote # r" "b = []"
  | u s' b' where "str_unit u" "s = u @ s'" "scan_str s' = Some (b', r)" "b = u @ b'"
proof -
  obtain c cs where s: "s = c # cs" using assms by (cases s) auto
  consider "c = quote" | "c \<noteq> quote" "c = bslash" | "c \<noteq> quote" "c \<noteq> bslash" by blast
  then show thesis
  proof cases
    case 1
    with assms s that(1) show ?thesis by simp
  next
    case 2
    with assms s obtain e es where cs: "cs = e # es" by (cases cs) auto
    show ?thesis
    proof (cases "e = CHR ''u''")
      case True
      with 2 assms s cs obtain h1 h2 h3 h4 rest b' where
        "es = h1 # h2 # h3 # h4 # rest" "\<forall>h \<in> {h1, h2, h3, h4}. hex_value h \<noteq> None"
        "scan_str rest = Some (b', r)" "b = [bslash, CHR ''u'', h1, h2, h3, h4] @ b'"
        by (auto split: list.splits if_splits)
      with True 2 s cs show ?thesis
        by (intro that(2) [of "[bslash, CHR ''u'', h1, h2, h3, h4]" rest b']) (auto simp: str_unit_def)
    next
      case False
      with 2 assms s cs obtain b' where
        "e \<in> set ''bfnrt/'' \<union> {quote, bslash}" "scan_str es = Some (b', r)" "b = [bslash, e] @ b'"
        by (auto split: if_splits)
      with 2 s cs show ?thesis by (intro that(2) [of "[bslash, e]" es b']) (auto simp: str_unit_def)
    qed
  next
    case 3
    with assms s obtain b' where "scan_str cs = Some (b', r)" "b = [c] @ b'" "\<not> code c < 0x20"
      by (auto split: if_splits)
    with 3 s show ?thesis by (intro that(2) [of "[c]" cs b']) (auto simp: str_unit_def)
  qed
qed

lemma str_unit_length: "str_unit u \<Longrightarrow> 0 < length u"
  by (auto simp: str_unit_def)

lemma scan_str_length: "scan_str s = Some (b, r) \<Longrightarrow> length s = length b + 1 + length r"
proof (induction "length s" arbitrary: s b r rule: less_induct)
  case less
  from less.prems show ?case
  proof (cases rule: scan_str_cases)
    case (2 u s' b')
    with less.hyps [of s' b' r] str_unit_length [of u] show ?thesis by simp
  qed simp
qed

lemma scan_str_append: "scan_str s = Some (b, r) \<Longrightarrow> scan_str (s @ t) = Some (b, r @ t)"
proof (induction "length s" arbitrary: s b r rule: less_induct)
  case less
  from less.prems show ?case
  proof (cases rule: scan_str_cases)
    case (2 u s' b')
    with less.hyps [of s' b' r] str_unit_length [of u] show ?thesis
      by (simp add: scan_str_unit del: scan_str.simps)
  qed simp
qed

text \<open>What may follow a number without becoming part of it.\<close>

definition stops :: "string \<Rightarrow> bool" where
  "stops t \<longleftrightarrow> (case t of [] \<Rightarrow> True | c # _ \<Rightarrow> \<not> is_digit c \<and> c \<notin> set ''.eE'')"

lemma stops_simps [simp]: "stops []" "stops (c # cs) \<longleftrightarrow> \<not> is_digit c \<and> c \<notin> set ''.eE''"
  by (simp_all add: stops_def)

lemma scan_digits_append:
  assumes "scan_digits s = Some (ds, r)" and "r \<noteq> [] \<or> stops t"
  shows "scan_digits (s @ t) = Some (ds, r @ t)"
proof -
  from assms(1) have ds: "ds = takeWhile is_digit s" "ds \<noteq> []" and r: "r = dropWhile is_digit s"
    by (auto simp: scan_digits_def Let_def dropWhile_eq_drop split: if_splits)
  have "takeWhile is_digit (s @ t) = takeWhile is_digit s"
  proof (cases "r = []")
    case True
    with r have "\<forall>x \<in> set s. is_digit x" by (metis dropWhile_eq_Nil_conv)
    moreover have "takeWhile is_digit t = []" using True assms(2) by (cases t) auto
    ultimately show ?thesis by (simp add: takeWhile_append takeWhile_eq_all_conv [THEN iffD2])
  next
    case False
    with r show ?thesis by (auto simp: takeWhile_append dropWhile_eq_Nil_conv)
  qed
  with ds r show ?thesis
    by (simp add: scan_digits_def Let_def dropWhile_eq_drop length_takeWhile_le)
qed

lemma scan_digits_length: "scan_digits s = Some (ds, r) \<Longrightarrow> length r < length s"
  using length_takeWhile_le [of is_digit s] by (cases s) (auto simp: scan_digits_def Let_def split: if_splits)

lemma scan_int_append:
  "scan_int s = Some (x, r) \<Longrightarrow> r \<noteq> [] \<or> stops t \<Longrightarrow> scan_int (s @ t) = Some (x, r @ t)"
  using scan_digits_append [of s x r t] by (auto simp: scan_int_def split: list.splits if_splits)

lemma scan_int_length: "scan_int s = Some (x, r) \<Longrightarrow> length r < length s"
  by (auto simp: scan_int_def dest: scan_digits_length split: list.splits if_splits)

lemma scan_frac_append:
  "scan_frac s = Some (x, r) \<Longrightarrow> r \<noteq> [] \<or> stops t \<Longrightarrow> scan_frac (s @ t) = Some (x, r @ t)"
  by (auto simp: scan_frac_def scan_digits_append split: list.splits if_splits)

lemma scan_frac_length: "scan_frac s = Some (x, r) \<Longrightarrow> length r \<le> length s"
  by (auto simp: scan_frac_def dest!: scan_digits_length split: list.splits if_splits)

lemma scan_exp_append:
  "scan_exp s = Some (x, r) \<Longrightarrow> r \<noteq> [] \<or> stops t \<Longrightarrow> scan_exp (s @ t) = Some (x, r @ t)"
  by (auto simp: scan_exp_def scan_digits_append split: list.splits if_splits)
    (auto dest: scan_digits_append [where t = t])

lemma scan_exp_length: "scan_exp s = Some (x, r) \<Longrightarrow> length r \<le> length s"
  by (auto simp: scan_exp_def dest!: scan_digits_length split: list.splits if_splits)

lemma scan_unsigned_append:
  assumes "scan_unsigned s = Some (x, r)" and "r \<noteq> [] \<or> stops t"
  shows "scan_unsigned (s @ t) = Some (x, r @ t)"
proof -
  from assms(1) obtain i s2 f s3 e where p: "scan_int s = Some (i, s2)" "scan_frac s2 = Some (f, s3)"
    "scan_exp s3 = Some (e, r)" "x = i @ f @ e"
    by (auto simp: scan_unsigned_def split: option.splits)
  have "s2 \<noteq> [] \<or> stops t" "s3 \<noteq> [] \<or> stops t"
    using assms(2) scan_frac_length [OF p(2)] scan_exp_length [OF p(3)] by auto
  then have "scan_int (s @ t) = Some (i, s2 @ t)" "scan_frac (s2 @ t) = Some (f, s3 @ t)"
    "scan_exp (s3 @ t) = Some (e, r @ t)"
    using p assms(2) by (auto intro: scan_int_append scan_frac_append scan_exp_append)
  with p(4) show ?thesis by (simp add: scan_unsigned_def)
qed

lemma scan_number_append:
  "scan_number s = Some (x, r) \<Longrightarrow> r \<noteq> [] \<or> stops t \<Longrightarrow> scan_number (s @ t) = Some (x, r @ t)"
  using scan_unsigned_append [of s x r t] scan_unsigned_append [of "tl s" _ r t]
  by (auto simp: scan_number_def split: list.splits if_splits)

lemma scan_unsigned_length: "scan_unsigned s = Some (x, r) \<Longrightarrow> length r < length s"
  by (auto simp: scan_unsigned_def split: option.splits
      dest!: scan_int_length scan_frac_length scan_exp_length)

lemma scan_number_length: "scan_number s = Some (x, r) \<Longrightarrow> length r < length s"
  by (auto simp: scan_number_def dest: scan_unsigned_length split: list.splits if_splits)

lemma skip_ws_length: "length (skip_ws s) \<le> length s"
  by (rule length_dropWhile_le)

lemma skip_ws_append: "skip_ws s \<noteq> [] \<Longrightarrow> skip_ws (s @ t) = skip_ws s @ t"
  by (auto simp: dropWhile_append dropWhile_eq_Nil_conv)

lemma skip_ws_append_length:
  "length r < length (skip_ws s) \<Longrightarrow> skip_ws (s @ t) = skip_ws s @ t" for r :: string
  by (intro skip_ws_append) (metis length_0_conv not_less_zero)

lemma take1_append: "take 1 s = [c] \<Longrightarrow> take 1 (s @ t) = [c]" "take 1 s = [c] \<Longrightarrow> drop 1 (s @ t) = drop 1 s @ t"
  by (cases s; simp)+

lemma take1_drop1_length: "take 1 s = [c] \<Longrightarrow> length s = Suc (length (drop 1 s))"
  by (cases s) auto

lemma scan_literal_length: "scan_literal w v s = Some (v', r) \<Longrightarrow> w \<noteq> [] \<Longrightarrow> length r < length s"
  by (auto simp: scan_literal_def split: if_splits) (metis length_greater_0_conv diff_less take_Nil)

lemma scan_literal_append: "scan_literal w v s = Some (v', r) \<Longrightarrow> scan_literal w v (s @ t) = Some (v', r @ t)"
proof -
  assume *: "scan_literal w v s = Some (v', r)"
  then have "length w \<le> length s" by (auto simp: scan_literal_def split: if_splits) (metis length_take min_def nle_le)
  with * show ?thesis by (auto simp: scan_literal_def split: if_splits)
qed

lemma take1_conv: "take (Suc 0) s = [c] \<longleftrightarrow> (\<exists>cs. s = c # cs)"
  by (cases s) auto

lemma parse_value_cases:
  assumes "parse_value (Suc f) d s = Some (v, r)"
  obtains (obj0) cs where "s = CHR ''{'' # cs" "d < maxNestingDepth" "skip_ws cs = CHR ''}'' # r" "v = JObject []"
  | (obj) cs ms where "s = CHR ''{'' # cs" "d < maxNestingDepth" "take 1 (skip_ws cs) \<noteq> ''}''"
      "parse_members f (d + 1) (skip_ws cs) = Some (ms, r)" "v = JObject ms"
  | (arr0) cs where "s = CHR ''['' # cs" "d < maxNestingDepth" "skip_ws cs = CHR '']'' # r" "v = JArray []"
  | (arr) cs vs where "s = CHR ''['' # cs" "d < maxNestingDepth" "take 1 (skip_ws cs) \<noteq> '']''"
      "parse_elems f (d + 1) (skip_ws cs) = Some (vs, r)" "v = JArray vs"
  | (str) cs b where "s = quote # cs" "scan_str cs = Some (b, r)" "v = JString (unquote b)"
  | (true) "hd s = CHR ''t''" "scan_literal ''true'' (JBool True) s = Some (v, r)"
  | (false) "hd s = CHR ''f''" "scan_literal ''false'' (JBool False) s = Some (v, r)"
  | (null) "hd s = CHR ''n''" "scan_literal ''null'' JNull s = Some (v, r)"
  | (num) x where "s \<noteq> []" "hd s = CHR ''-'' \<or> is_digit (hd s)" "scan_number s = Some (x, r)" "v = JNumber x"
proof -
  obtain c cs where s: "s = c # cs" using assms by (cases s) auto
  consider "c = CHR ''{''" | "c = CHR ''[''" | "c = quote" | "c = CHR ''t''" | "c = CHR ''f''"
    | "c = CHR ''n''" | "c \<notin> {CHR ''{'', CHR ''['', quote, CHR ''t'', CHR ''f'', CHR ''n''}" by blast
  then show thesis
  proof cases
    case 1 with assms s obj0 obj show ?thesis by (auto split: if_splits simp: take1_conv)
  next
    case 2 with assms s arr0 arr show ?thesis by (auto split: if_splits simp: take1_conv)
  next
    case 3 with assms s str show ?thesis by auto
  next
    case 4 with assms s true show ?thesis by auto
  next
    case 5 with assms s false show ?thesis by auto
  next
    case 6 with assms s null show ?thesis by auto
  next
    case 7
    then have "(if c = CHR ''-'' \<or> is_digit c then map_option (apfst JNumber) (scan_number (c # cs)) else None) =
        Some (v, r)"
      using assms s by (simp split del: if_split)
    then have "c = CHR ''-'' \<or> is_digit c" "\<exists>x. scan_number (c # cs) = Some (x, r) \<and> v = JNumber x"
      by (auto split: if_splits)
    with s num show ?thesis by auto
  qed
qed

lemma parse_value_num:
  assumes "s \<noteq> []" "hd s = CHR ''-'' \<or> is_digit (hd s)"
  shows "parse_value (Suc f) d s = map_option (apfst JNumber) (scan_number s)"
proof -
  obtain c cs where s: "s = c # cs" using assms(1) by (cases s) auto
  have "c \<noteq> CHR ''{''" "c \<noteq> CHR ''[''" "c \<noteq> quote" "c \<noteq> CHR ''t''" "c \<noteq> CHR ''f''" "c \<noteq> CHR ''n''"
    using assms(2) s by (auto simp: is_digit_def)
  with assms(2) s show ?thesis by (simp split del: if_split)
qed

lemma parse_value_lit:
  "hd s = CHR ''t'' \<Longrightarrow> s \<noteq> [] \<Longrightarrow> parse_value (Suc f) d s = scan_literal ''true'' (JBool True) s"
  "hd s = CHR ''f'' \<Longrightarrow> s \<noteq> [] \<Longrightarrow> parse_value (Suc f) d s = scan_literal ''false'' (JBool False) s"
  "hd s = CHR ''n'' \<Longrightarrow> s \<noteq> [] \<Longrightarrow> parse_value (Suc f) d s = scan_literal ''null'' JNull s"
  by (cases s; simp)+

lemma parse_value_str: "parse_value (Suc f) d (quote # s) = map_option (apfst (\<lambda>b. JString (unquote b))) (scan_str s)"
  by simp

lemma scan_literal_nonempty: "scan_literal (c # w) v s = Some x \<Longrightarrow> s \<noteq> []"
  by (auto simp: scan_literal_def)

lemma parse_members_cases:
  assumes "parse_members (Suc f) d s = Some (ms, r)"
  obtains (last) s0 key s1 s2 v s3 where "s = quote # s0" "scan_str s0 = Some (key, s1)"
      "skip_ws s1 = CHR '':'' # s2" "parse_value f d (skip_ws s2) = Some (v, s3)"
      "skip_ws s3 = CHR ''}'' # r"
      "ms = [(unquote key, take (length (skip_ws s2) - length s3) (skip_ws s2), v)]"
  | (more) s0 key s1 s2 v s3 s4 ms' where "s = quote # s0" "scan_str s0 = Some (key, s1)"
      "skip_ws s1 = CHR '':'' # s2" "parse_value f d (skip_ws s2) = Some (v, s3)"
      "skip_ws s3 = CHR '','' # s4" "parse_members f d (skip_ws s4) = Some (ms', r)"
      "ms = (unquote key, take (length (skip_ws s2) - length s3) (skip_ws s2), v) # ms'"
  using assms
  by (auto split: if_splits option.splits simp: Let_def take1_conv)

lemma parse_elems_cases:
  assumes "parse_elems (Suc f) d s = Some (vs, r)"
  obtains (last) v s1 where "parse_value f d s = Some (v, s1)" "skip_ws s1 = CHR '']'' # r" "vs = [v]"
  | (more) v s1 s2 vs' where "parse_value f d s = Some (v, s1)" "skip_ws s1 = CHR '','' # s2"
      "parse_elems f d (skip_ws s2) = Some (vs', r)" "vs = v # vs'"
  using assms
  by (auto split: if_splits option.splits simp: Let_def take1_conv)

lemma skip_ws_Cons_length: "skip_ws s = c # r \<Longrightarrow> length r < length s"
  using skip_ws_length [of s] by simp

lemma parse_length:
  "parse_value f d s = Some (v, r) \<Longrightarrow> length r < length s"
  "parse_members f d s = Some (ms, r) \<Longrightarrow> length r < length s"
  "parse_elems f d s = Some (vs, r) \<Longrightarrow> length r < length s"
proof (induction f arbitrary: d s v ms vs r)
  case (Suc f)
  { case 1
    then show ?case
    proof (cases rule: parse_value_cases)
      case (obj cs ms) with Suc(2) [OF obj(4)] skip_ws_length [of cs] show ?thesis by simp
    next
      case (arr cs vs) with Suc(3) [OF arr(4)] skip_ws_length [of cs] show ?thesis by simp
    qed (auto dest: scan_str_length skip_ws_Cons_length scan_literal_length scan_number_length)
  next
    case 2
    then show ?case
    proof (cases rule: parse_members_cases)
      case (last s0 key s1 s2 v s3)
      with Suc(1) [OF last(4)] skip_ws_length [of s2] show ?thesis
        by (auto dest!: scan_str_length skip_ws_Cons_length)
    next
      case (more s0 key s1 s2 v s3 s4 ms')
      with Suc(1) [OF more(4)] Suc(2) [OF more(6)] skip_ws_length [of s2] skip_ws_length [of s4]
      show ?thesis by (auto dest!: scan_str_length skip_ws_Cons_length)
    qed
  next
    case 3
    then show ?case
    proof (cases rule: parse_elems_cases)
      case (last v s1)
      with Suc(1) [OF last(1)] show ?thesis by (auto dest!: skip_ws_Cons_length)
    next
      case (more v s1 s2 vs')
      with Suc(1) [OF more(1)] Suc(3) [OF more(3)] skip_ws_length [of s2]
      show ?thesis by (auto dest!: skip_ws_Cons_length)
    qed }
qed simp_all

lemma skip_ws_Cons_append: "skip_ws s = c # r \<Longrightarrow> skip_ws (s @ t) = c # r @ t"
  using skip_ws_append [of s t] by simp

lemma take1_append_ne: "s \<noteq> [] \<Longrightarrow> take (Suc 0) (s @ t) = take (Suc 0) s"
  by (cases s) auto

lemma parse_nonempty:
  "parse_members f d s = Some (ms, r) \<Longrightarrow> s \<noteq> []"
  "parse_elems f d s = Some (vs, r) \<Longrightarrow> s \<noteq> []"
  using parse_length by fastforce+

text \<open>
  A value is recognised the same way whatever follows it (a number must not run on), and more
  fuel changes nothing.
\<close>

lemma parse_append:
  "parse_value f d s = Some (v, r) \<Longrightarrow> r \<noteq> [] \<or> stops t \<Longrightarrow> f \<le> f' \<Longrightarrow>
    parse_value f' d (s @ t) = Some (v, r @ t)"
  "parse_members f d s = Some (ms, r) \<Longrightarrow> f \<le> f' \<Longrightarrow> parse_members f' d (s @ t) = Some (ms, r @ t)"
  "parse_elems f d s = Some (vs, r) \<Longrightarrow> f \<le> f' \<Longrightarrow> parse_elems f' d (s @ t) = Some (vs, r @ t)"
proof (induction f arbitrary: d s v ms vs r f')
  case (Suc f)
  { case 1
    then obtain g where g: "f' = Suc g" "f \<le> g" by (cases f') auto
    from 1(1) show ?case
    proof (cases rule: parse_value_cases)
      case (obj cs ms)
      then have "skip_ws (cs @ t) = skip_ws cs @ t" by (intro skip_ws_append parse_nonempty)
      moreover obtain c' cs' where "skip_ws cs = c' # cs'"
        using parse_nonempty(1) [OF obj(4)] by (cases "skip_ws cs") auto
      ultimately show ?thesis using obj g Suc(2) [OF obj(4) g(2)] by simp
    next
      case (arr cs vs)
      then have "skip_ws (cs @ t) = skip_ws cs @ t" by (intro skip_ws_append parse_nonempty)
      moreover obtain c' cs' where "skip_ws cs = c' # cs'"
        using parse_nonempty(2) [OF arr(4)] by (cases "skip_ws cs") auto
      ultimately show ?thesis using arr g Suc(3) [OF arr(4) g(2)] by simp
    next
      case (num x)
      with g 1(2) scan_number_append [OF num(3), of t] parse_value_num [of "s @ t" g d] show ?thesis
        by (simp del: parse_value.simps)
    next
      case true
      with g scan_literal_append [OF true(2), of t] scan_literal_nonempty [OF true(2)]
      show ?thesis by (simp add: parse_value_lit(1) del: parse_value.simps)
    next
      case false
      with g scan_literal_append [OF false(2), of t] scan_literal_nonempty [OF false(2)]
      show ?thesis by (simp add: parse_value_lit(2) del: parse_value.simps)
    next
      case null
      with g scan_literal_append [OF null(2), of t] scan_literal_nonempty [OF null(2)]
      show ?thesis by (simp add: parse_value_lit(3) del: parse_value.simps)
    qed (auto simp: g scan_str_append skip_ws_Cons_append)
  next
    case 2
    then obtain g where g: "f' = Suc g" "f \<le> g" by (cases f') auto
    have raw: "take (length (x @ t) - length (y @ t)) (x @ t) = take (length x - length y) x"
      if "length y < length x" for x y :: string using that by simp
    from 2(1) show ?case
    proof (cases rule: parse_members_cases)
      case (last s0 key s1 s2 v s3)
      have sk: "skip_ws (s2 @ t) = skip_ws s2 @ t"
        using parse_length(1) [OF last(4)] by (rule skip_ws_append_length)
      have "s3 \<noteq> []" using last(5) by auto
      with Suc(1) [OF last(4) _ g(2)] have "parse_value g d (skip_ws s2 @ t) = Some (v, s3 @ t)" by blast
      with last g sk raw [OF parse_length(1) [OF last(4)]] show ?thesis
        by (simp add: scan_str_append skip_ws_Cons_append)
    next
      case (more s0 key s1 s2 v s3 s4 ms')
      have sk: "skip_ws (s2 @ t) = skip_ws s2 @ t" "skip_ws (s4 @ t) = skip_ws s4 @ t"
        using parse_length(1) [OF more(4)] parse_length(2) [OF more(6)]
        by (auto intro: skip_ws_append_length)
      have "s3 \<noteq> []" using more(5) by auto
      with Suc(1) [OF more(4) _ g(2)] have "parse_value g d (skip_ws s2 @ t) = Some (v, s3 @ t)" by blast
      with more g sk raw [OF parse_length(1) [OF more(4)]] Suc(2) [OF more(6) g(2)] show ?thesis
        by (simp add: scan_str_append skip_ws_Cons_append)
    qed
  next
    case 3
    then obtain g where g: "f' = Suc g" "f \<le> g" by (cases f') auto
    from 3(1) show ?case
    proof (cases rule: parse_elems_cases)
      case (last v s1)
      then have "s1 \<noteq> []" by auto
      with last g Suc(1) [OF last(1) _ g(2)] show ?thesis by (simp add: skip_ws_Cons_append)
    next
      case (more v s1 s2 vs')
      then have "s1 \<noteq> []" by auto
      moreover have "skip_ws (s2 @ t) = skip_ws s2 @ t"
        using parse_length(3) [OF more(3)] by (rule skip_ws_append_length)
      ultimately show ?thesis
        using more g Suc(1) [OF more(1) _ g(2)] Suc(3) [OF more(3) g(2)]
        by (simp add: skip_ws_Cons_append)
    qed }
qed simp_all

text \<open>Fuel: twice the length of the text is enough, a larger amount finds nothing more.\<close>

lemma parse_enough:
  "2 * length s < f \<Longrightarrow> parse_value f' d s = Some (v, r) \<Longrightarrow> parse_value f d s = Some (v, r)"
  "2 * length s < f \<Longrightarrow> parse_members f' d s = Some (ms, r) \<Longrightarrow> parse_members f d s = Some (ms, r)"
  "Suc (2 * length s) < f \<Longrightarrow> parse_elems f' d s = Some (vs, r) \<Longrightarrow> parse_elems f d s = Some (vs, r)"
proof (induction f' arbitrary: d s v ms vs r f)
  case (Suc f')
  { case 1
    then obtain g where g: "f = Suc g" "2 * length s \<le> g" by (cases f) auto
    from 1(2) show ?case
    proof (cases rule: parse_value_cases)
      case (obj cs ms)
      with g skip_ws_length [of cs] have "2 * length (skip_ws cs) < g" by simp
      from Suc(2) [OF this obj(4)] obj g show ?thesis by simp
    next
      case (arr cs vs)
      with g skip_ws_length [of cs] have "Suc (2 * length (skip_ws cs)) < g" by simp
      from Suc(3) [OF this arr(4)] arr g show ?thesis by simp
    next
      case (num x)
      with g parse_value_num [of s g d] show ?thesis by (simp del: parse_value.simps)
    next
      case true
      with g scan_literal_nonempty [OF true(2)] show ?thesis
        by (simp add: parse_value_lit(1) del: parse_value.simps)
    next
      case false
      with g scan_literal_nonempty [OF false(2)] show ?thesis
        by (simp add: parse_value_lit(2) del: parse_value.simps)
    next
      case null
      with g scan_literal_nonempty [OF null(2)] show ?thesis
        by (simp add: parse_value_lit(3) del: parse_value.simps)
    qed (auto simp: g)
  next
    case 2
    then obtain g where g: "f = Suc g" "2 * length s \<le> g" by (cases f) auto
    from 2(2) show ?case
    proof (cases rule: parse_members_cases)
      case (last s0 key s1 s2 v s3)
      with g have "2 * length (skip_ws s2) < g"
        using skip_ws_length [of s2] skip_ws_Cons_length [OF last(3)] scan_str_length [OF last(2)] by simp
      from Suc(1) [OF this last(4)] last g show ?thesis by (simp add: Let_def)
    next
      case (more s0 key s1 s2 v s3 s4 ms')
      with g have 1: "2 * length (skip_ws s2) < g"
        using skip_ws_length [of s2] skip_ws_Cons_length [OF more(3)] scan_str_length [OF more(2)] by simp
      then have "2 * length (skip_ws s4) < g"
        using skip_ws_length [of s4] skip_ws_Cons_length [OF more(5)] parse_length(1) [OF more(4)] by simp
      from Suc(1) [OF 1 more(4)] Suc(2) [OF this more(6)] more g show ?thesis by (simp add: Let_def)
    qed
  next
    case 3
    then obtain g where g: "f = Suc g" "2 * length s < g" by (cases f) auto
    from 3(2) show ?case
    proof (cases rule: parse_elems_cases)
      case (last v s1)
      from Suc(1) [OF g(2) last(1)] last g show ?thesis by simp
    next
      case (more v s1 s2 vs')
      with g have "Suc (2 * length (skip_ws s2)) < g"
        using skip_ws_length [of s2] skip_ws_Cons_length [OF more(2)] parse_length(1) [OF more(1)] by simp
      from Suc(1) [OF g(2) more(1)] Suc(3) [OF this more(3)] more g show ?thesis by simp
    qed }
qed simp_all

section \<open>Strings round trip\<close>

lemma utf8_len_le: "utf8_len s \<le> length s"
  by (auto simp: utf8_len_def utf8_size_def Let_def split: list.splits prod.splits)

lemma utf8_len_take:
  assumes "0 < utf8_len s"
  shows "utf8_len (take (utf8_len s) s @ t) = utf8_len s"
proof -
  obtain c cs where s: "s = c # cs" using assms by (cases s) (auto simp: utf8_len_def)
  let ?n = "utf8_size (code c)"
  show ?thesis
  proof (cases "?n \<le> 1")
    case True
    with assms have "?n = 1" "utf8_len s = 1" by (auto simp: s utf8_len_def Let_def split: prod.splits)
    then show ?thesis by (simp add: s utf8_len_def Let_def split: prod.splits)
  next
    case False
    then have n: "utf8_len s = ?n" "?n - 1 \<le> length cs"
      using assms by (auto simp: s utf8_len_def Let_def split: prod.splits if_splits)
    have "take ?n s @ t = c # take (?n - 1) cs @ t" using False by (cases ?n) (auto simp: s)
    moreover have "(take (?n - 1) cs @ t) ! 0 = cs ! 0" using False n(2) by (auto simp: nth_append)
    moreover have "take (?n - 2) (drop 1 (take (?n - 1) cs @ t)) = take (?n - 2) (drop 1 cs)"
      using n(2) by (simp add: drop_take)
    ultimately show ?thesis
      using n False assms by (auto simp: s utf8_len_def Let_def split: prod.splits if_splits)
  qed
qed

lemma utf8_len_high:
  assumes "code (hd s) \<ge> 0x80" and "0 < utf8_len s" and "x \<in> set (take (utf8_len s) s)"
  shows "0x80 \<le> code x"
proof -
  obtain c cs where s: "s = c # cs" using assms(2) by (cases s) (auto simp: utf8_len_def)
  let ?n = "utf8_size (code c)"
  have two: "2 \<le> ?n" using assms(1,2)
    by (auto simp: s utf8_len_def utf8_size_def Let_def split: prod.splits if_splits)
  then obtain m where m: "?n = Suc (Suc m)" by (metis Suc_le_D numeral_2_eq_2 Suc_le_mono)
  from assms(2) two obtain lo hi where r: "utf8_range (code c) = (lo, hi)" "lo \<le> code (cs ! 0)"
    and n: "utf8_len s = ?n" "?n - 1 \<le> length cs"
    and rest: "list_all (\<lambda>x. 0x80 \<le> code x \<and> code x \<le> 0xBF) (take (?n - 2) (drop 1 cs))"
    by (auto simp: s utf8_len_def Let_def split: prod.splits if_splits)
  obtain d ds where cs: "cs = d # ds" using n(2) two by (cases cs) auto
  have "0x80 \<le> lo" using r(1) by (auto simp: utf8_range_def split: if_splits)
  with assms(1,3) r(2) n(1) rest show ?thesis
    by (auto simp: s cs m list_all_iff)
qed

lemma utf8_len_complete:
  assumes "utf8_len (c # cs) = Suc (length cs)" and "x \<in> set cs"
  shows "code x \<le> 0xBF" and "utf8_size (code c) = Suc (length cs)"
proof -
  let ?n = "utf8_size (code c)"
  from assms(1) have n: "?n = Suc (length cs)"
    by (auto simp: utf8_len_def Let_def split: prod.splits if_splits)
  then show "utf8_size (code c) = Suc (length cs)" .
  obtain d ds where cs: "cs = d # ds" using assms(2) by (cases cs) auto
  from assms(1) n obtain lo hi where r: "utf8_range (code c) = (lo, hi)" "code d \<le> hi"
    "list_all (\<lambda>x. 0x80 \<le> code x \<and> code x \<le> 0xBF) ds"
    by (auto simp: cs utf8_len_def Let_def split: prod.splits if_splits)
  then have "hi \<le> 0xBF" by (auto simp: utf8_range_def split: if_splits)
  with r assms(2) show "code x \<le> 0xBF" by (auto simp: cs list_all_iff)
qed

lemma utf8_len_ascii: "code c < 0x80 \<Longrightarrow> utf8_len (c # cs) = 1"
  by (simp add: utf8_len_def utf8_size_def Let_def split: prod.splits)

lemma scan_str_plain:
  assumes "\<forall>c \<in> set u. c \<noteq> quote \<and> 0x20 \<le> code c \<and> c \<noteq> bslash"
  shows "scan_str (u @ s) = map_option (apfst ((@) u)) (scan_str s)"
  using assms
proof (induction u)
  case Nil
  show ?case by (cases "scan_str s") auto
next
  case (Cons c u)
  then have "str_unit [c]" by (auto simp: str_unit_def)
  note scan_str_unit [OF this, of "u @ s"]
  moreover have "scan_str (u @ s) = map_option (apfst ((@) u)) (scan_str s)"
    using Cons by simp
  ultimately show ?case by (cases "scan_str s") (simp_all add: apfst_compose comp_def del: scan_str.simps)
qed

lemma hex_value_digit: "n < 16 \<Longrightarrow> hex_value (hex_digit n) = Some n"
  by (cases "n < 10") (auto simp: hex_value_def hex_digit_def is_digit_def)

lemma char_of_bytes:
  "char_of (239 :: nat) = CHR 0xEF" "char_of (191 :: nat) = CHR 0xBF" "char_of (189 :: nat) = CHR 0xBD"
  "char_of (226 :: nat) = CHR 0xE2" "char_of (128 :: nat) = CHR 0x80" "char_of (168 :: nat) = CHR 0xA8"
  "char_of (169 :: nat) = CHR 0xA9"
  by code_simp+

lemma unquote_u:
  assumes "hex4 h1 h2 h3 h4 = r" "\<not> is_surrogate r"
  shows "unquote (bslash # CHR ''u'' # h1 # h2 # h3 # h4 # s) = append_rune r @ unquote s"
  using assms by (simp add: unquote.simps(2) Let_def)

lemma unquote_escape: "e \<noteq> CHR ''u'' \<Longrightarrow> unquote (bslash # e # s) = unescape e @ unquote s"
  by (simp add: unquote.simps(2))

lemma escape_ascii_cases:
  assumes "code c < 0x80" "\<not> html_safe c"
  obtains e where "escape_ascii c = [bslash, e]" "e \<in> set ''bfnrt'' \<union> {quote, bslash}" "unescape e = [c]"
  | "escape_ascii c = [bslash, CHR ''u'', CHR ''0'', CHR ''0'', hex_digit (code c div 16), hex_digit (code c mod 16)]"
proof -
  have chr: "char_of n = c" if "code c = n" for n using that by auto
  consider "c = quote \<or> c = bslash" | "code c = 8" | "code c = 12" | "code c = 10" | "code c = 13"
    | "code c = 9" | "c \<noteq> quote" "c \<noteq> bslash" "code c \<notin> {8, 12, 10, 13, 9}" by blast
  then show thesis
  proof cases
    case 1 then show ?thesis by (intro that(1) [of c]) (auto simp: escape_ascii_def unescape_def)
  next
    case 2 with chr [OF 2] show ?thesis
      by (intro that(1) [of "CHR ''b''"]) (auto simp: escape_ascii_def unescape_def)
  next
    case 3 with chr [OF 3] show ?thesis
      by (intro that(1) [of "CHR ''f''"]) (auto simp: escape_ascii_def unescape_def)
  next
    case 4 with chr [OF 4] show ?thesis
      by (intro that(1) [of "CHR ''n''"]) (auto simp: escape_ascii_def unescape_def)
  next
    case 5 with chr [OF 5] show ?thesis
      by (intro that(1) [of "CHR ''r''"]) (auto simp: escape_ascii_def unescape_def)
  next
    case 6 with chr [OF 6] show ?thesis
      by (intro that(1) [of "CHR ''t''"]) (auto simp: escape_ascii_def unescape_def)
  next
    case 7 then show ?thesis by (intro that(2)) (simp add: escape_ascii_def)
  qed
qed

lemma escape_ascii_unit:
  assumes "code c < 0x80" "\<not> html_safe c"
  shows "str_unit (escape_ascii c)" and "unquote (escape_ascii c @ s) = c # unquote s"
proof -
  have hex: "hex4 (CHR ''0'') (CHR ''0'') (hex_digit (code c div 16)) (hex_digit (code c mod 16)) = code c"
    using assms(1) by (simp add: hex4_def hex_value_digit hex_value_def [of "CHR ''0''"] is_digit_def)
  have val: "\<forall>h \<in> {CHR ''0'', CHR ''0'', hex_digit (code c div 16), hex_digit (code c mod 16)}. hex_value h \<noteq> None"
    using assms(1) by (auto simp: hex_value_digit hex_value_def [of "CHR ''0''"] is_digit_def)
  from assms show "str_unit (escape_ascii c)"
    by (cases rule: escape_ascii_cases) (use val in \<open>auto simp: str_unit_def\<close>)
  from assms show "unquote (escape_ascii c @ s) = c # unquote s"
  proof (cases rule: escape_ascii_cases)
    case (1 e)
    then show ?thesis using unquote_escape [of e s] by auto
  next
    case 2
    then show ?thesis
      using unquote_u [OF hex] assms(1) by (simp add: is_surrogate_def append_rune_def)
  qed
qed

lemma quote_body_steps:
  obtains (Nil) "s = []"
  | (safe) c cs where "s = c # cs" "code c < 0x80" "html_safe c" "quote_body s = c # quote_body cs" "to_valid s = c # to_valid cs"
  | (escape) c cs where "s = c # cs" "code c < 0x80" "\<not> html_safe c"
      "quote_body s = escape_ascii c @ quote_body cs" "to_valid s = c # to_valid cs"
  | (invalid) c cs where "s = c # cs" "quote_body s = bslash # ''ufffd'' @ quote_body cs"
      "to_valid s = rune_error @ to_valid cs"
  | (sep) x r where "length r < length s" "quote_body s = bslash # ''u202'' @ x # quote_body r"
      "x = CHR ''8'' \<and> to_valid s = [CHR 0xE2, CHR 0x80, CHR 0xA8] @ to_valid r \<or>
       x = CHR ''9'' \<and> to_valid s = [CHR 0xE2, CHR 0x80, CHR 0xA9] @ to_valid r"
  | (seq) u r where "length r < length s" "quote_body s = u @ quote_body r" "to_valid s = u @ to_valid r"
      "\<forall>c \<in> set u. 0x80 \<le> code c" "u \<noteq> []" "\<And>t. utf8_len (u @ t) = length u"
      "u \<noteq> [CHR 0xE2, CHR 0x80, CHR 0xA8]" "u \<noteq> [CHR 0xE2, CHR 0x80, CHR 0xA9]"
proof (cases s)
  case Nil
  then show ?thesis by (rule that(1))
next
  case (Cons c cs)
  let ?n = "utf8_len s"
  show ?thesis
  proof (cases "code c < 0x80")
    case True
    then have "to_valid s = c # to_valid cs" by (simp add: Cons to_valid.simps(2) utf8_len_ascii Let_def)
    with True Cons that(2,3) show ?thesis by (cases "html_safe c") (auto simp: quote_body.simps(2))
  next
    case high: False
    show ?thesis
    proof (cases "?n = 0")
      case True
      with high Cons that(4) show ?thesis by (auto simp: quote_body.simps(2) to_valid.simps(2))
    next
      case False
      let ?u = "take ?n s" and ?r = "drop (?n - 1) cs"
      have drop: "drop ?n s = ?r" using False by (cases ?n) (auto simp: Cons)
      have len: "length ?r < length s" "length ?u = ?n" using utf8_len_le [of s] by (auto simp: Cons)
      have tv: "to_valid s = ?u @ to_valid ?r"
        using False by (simp add: Cons to_valid.simps(2) Let_def)
      have hi: "\<forall>x \<in> set ?u. 0x80 \<le> code x" using utf8_len_high [of s] high False by (auto simp: Cons)
      have "?u \<noteq> []" using len(2) False by auto
      moreover have "utf8_len (?u @ t) = length ?u" for t
        using utf8_len_take [of s t] False len(2) by simp
      ultimately have seq: thesis if "quote_body s = ?u @ quote_body ?r"
        "?u \<noteq> [CHR 0xE2, CHR 0x80, CHR 0xA8]" "?u \<noteq> [CHR 0xE2, CHR 0x80, CHR 0xA9]"
        using that len(1) tv hi by (intro seq)
      have sep: thesis if "quote_body s = bslash # ''u202'' @ x # quote_body ?r"
        "x = CHR ''8'' \<and> ?u = [CHR 0xE2, CHR 0x80, CHR 0xA8] \<or>
         x = CHR ''9'' \<and> ?u = [CHR 0xE2, CHR 0x80, CHR 0xA9]" for x
        using that(2) by (intro sep [OF len(1) that(1)]) (simp add: tv)
      have "quote_body s = (if ?u = [CHR 0xE2, CHR 0x80, CHR 0xA8] then bslash # ''u2028'' @ quote_body ?r
          else if ?u = [CHR 0xE2, CHR 0x80, CHR 0xA9] then bslash # ''u2029'' @ quote_body ?r
          else ?u @ quote_body ?r)"
        using high False unfolding Cons by (simp only: quote_body.simps(2) Let_def if_False)
      then show ?thesis using seq sep [of "CHR ''8''"] sep [of "CHR ''9''"]
        by (cases "?u = [CHR 0xE2, CHR 0x80, CHR 0xA8]"; cases "?u = [CHR 0xE2, CHR 0x80, CHR 0xA9]")
          (simp_all only: if_True if_False append.simps simp_thms)
    qed
  qed
qed

lemma scan_quote_body: "scan_str (quote_body s @ quote # r) = Some (quote_body s, r)"
proof (induction "length s" arbitrary: s rule: less_induct)
  case less
  have u: "str_unit (bslash # ''ufffd'')" "str_unit (bslash # ''u2028'')" "str_unit (bslash # ''u2029'')"
    by (auto simp: str_unit_def hex_value_def is_digit_def)
  show ?case
  proof (cases s rule: quote_body_steps)
    case (safe c cs)
    then have "str_unit [c]" by (auto simp: str_unit_def html_safe_def)
    from scan_str_unit [OF this, of "quote_body cs @ quote # r"] safe less show ?thesis by simp
  next
    case (escape c cs)
    with scan_str_unit [OF escape_ascii_unit(1), of c "quote_body cs @ quote # r"] less show ?thesis by simp
  next
    case (invalid c cs)
    with scan_str_unit [OF u(1), of "quote_body cs @ quote # r"] less show ?thesis
      by (simp del: scan_str.simps)
  next
    case (sep x r')
    with scan_str_unit [OF u(2), of "quote_body r' @ quote # r"]
      scan_str_unit [OF u(3), of "quote_body r' @ quote # r"] less show ?thesis
      by (auto simp del: scan_str.simps)
  next
    case (seq u r')
    then have "\<forall>c \<in> set u. c \<noteq> quote \<and> 0x20 \<le> code c \<and> c \<noteq> bslash" by fastforce
    from scan_str_plain [OF this, of "quote_body r' @ quote # r"] seq less show ?thesis by simp
  qed simp
qed

lemma unquote_quote_body: "unquote (quote_body s) = to_valid s"
proof (induction "length s" arbitrary: s rule: less_induct)
  case less
  have hex: "hex4 (CHR ''f'') (CHR ''f'') (CHR ''f'') (CHR ''d'') = 0xFFFD"
    "hex4 (CHR ''2'') (CHR ''0'') (CHR ''2'') (CHR ''8'') = 0x2028"
    "hex4 (CHR ''2'') (CHR ''0'') (CHR ''2'') (CHR ''9'') = 0x2029"
    by (simp_all add: hex4_def hex_value_def is_digit_def)
  show ?case
  proof (cases s rule: quote_body_steps)
    case (safe c cs)
    then have "c \<noteq> bslash" by (auto simp: html_safe_def)
    with safe less show ?thesis by (simp add: unquote.simps(2) utf8_len_ascii Let_def)
  next
    case (escape c cs)
    with less show ?thesis by (simp add: escape_ascii_unit(2))
  next
    case (invalid c cs)
    with less unquote_u [OF hex(1), of "quote_body cs"] show ?thesis
      by (simp add: is_surrogate_def append_rune_def rune_error_def char_of_bytes)
  next
    case (sep x r')
    with less unquote_u [OF hex(2), of "quote_body r'"] unquote_u [OF hex(3), of "quote_body r'"]
    show ?thesis by (auto simp: is_surrogate_def append_rune_def char_of_bytes)
  next
    case (seq u r')
    then obtain c cs where u: "u = c # cs" by (cases u) auto
    with seq have "c \<noteq> bslash" by fastforce
    with seq u seq(6) [of "quote_body r'"] less show ?thesis by (simp add: unquote.simps(2) Let_def)
  qed simp
qed

end
