(* ===== verification/Envelope.thy ===== *)
theory Envelope
  imports Json_Std Wire_Codec
begin

text \<open>
  The application envelope of \<open>pkg/proto/json.go\<close>: \<open>EncodeJSON\<close> with its hand-assembled payload,
  \<open>DecodeJSONMessage\<close> and \<open>DecodeJSONData\<close>. The hand assembly is compared with what marshalling the
  \<open>JSONMessage\<close> struct emits, and encoding and decoding are shown to be inverse to each other.
\<close>

section \<open>The code\<close>

record JSONMessage =
  Action :: string
  Data :: string

text \<open>
  The values passed as \<open>any\<close>: nil, a raw message, a string, or another value, represented by
  what \<open>json.Marshal\<close> makes of it (\<open>None\<close> when it fails).
\<close>

datatype go_any = AnyNil | AnyRaw string | AnyString string | AnyOther "string option"

definition jsonPlainASCII :: "string \<Rightarrow> bool" where
  "jsonPlainASCII s = list_all (\<lambda>c. \<not> (code c < 0x20 \<or> code c > 0x7E \<or> c = quote \<or> c = bslash \<or>
     c = CHR ''<'' \<or> c = CHR ''>'' \<or> c = CHR ''&'')) s"

record envelope =
  e_action :: string
  e_raw :: string
  e_stringData :: string
  e_directString :: bool

text \<open>A quoted key and the colon, as the code's string literals have it.\<close>

abbreviation json_key :: "string \<Rightarrow> string" where
  "json_key k \<equiv> quote # k @ [quote, CHR '':'']"

definition envelope_bytes :: "envelope \<Rightarrow> string" where
  "envelope_bytes e =
     (let payload = CHR ''{'' # json_key ''action'';
          payload = (if jsonPlainASCII (e_action e)
                     then payload @ [quote] @ e_action e @ [quote]
                     else payload @ marshal_string (e_action e));
          payload = (if e_directString e
                     then payload @ '','' @ json_key ''data'' @ [quote] @ e_stringData e @ [quote]
                     else if length (e_raw e) > 0
                     then payload @ '','' @ json_key ''data'' @ e_raw e
                     else payload)
      in payload @ ''}'')"

definition EncodeJSON :: "FrameType \<Rightarrow> uint32 \<Rightarrow> string \<Rightarrow> go_any \<Rightarrow> Frame option" where
  "EncodeJSON t streamId action data =
     (let frame = (\<lambda>e. let payload = bytes_of (envelope_bytes (e\<lparr>e_action := action\<rparr>))
            in \<lparr>Header = \<lparr>FrameType = t, Flags = 0, StreamId = streamId,
                          Length = word_of_nat (length payload)\<rparr>, Payload = payload\<rparr>);
          e = \<lparr>e_action = [], e_raw = [], e_stringData = [], e_directString = False\<rparr>
      in case data of
           AnyNil \<Rightarrow> Some (frame e)
         | AnyRaw rm \<Rightarrow> Some (frame (e\<lparr>e_raw := rm\<rparr>))
         | AnyString s \<Rightarrow>
             (if jsonPlainASCII s then Some (frame (e\<lparr>e_stringData := s, e_directString := True\<rparr>))
              else Some (frame (e\<lparr>e_raw := marshal_string s\<rparr>)))
         | AnyOther m \<Rightarrow> map_option (\<lambda>encoded. frame (e\<lparr>e_raw := encoded\<rparr>)) m)"

text \<open>
  Decoding into the shadow struct: \<open>null\<close> leaves a string field alone, any other type is an
  error; the raw field takes the text of the value, \<open>null\<close> included. Later members win.
\<close>

fun decode_string :: "string \<Rightarrow> json \<Rightarrow> string option" where
  "decode_string old (JString s) = Some s"
| "decode_string old JNull = Some old"
| "decode_string old _ = None"

fun shadow_step :: "string \<times> string \<times> json \<Rightarrow> JSONMessage option \<Rightarrow> JSONMessage option" where
  "shadow_step (key, raw, v) None = None"
| "shadow_step (key, raw, v) (Some m) =
     (case match_field [''action'', ''data''] key of
        None \<Rightarrow> Some m
      | Some f \<Rightarrow>
          (if f = ''action'' then map_option (\<lambda>a. m\<lparr>Action := a\<rparr>) (decode_string (Action m) v)
           else Some (m\<lparr>Data := raw\<rparr>)))"

definition decode_shadow :: "json \<Rightarrow> JSONMessage option" where
  "decode_shadow v =
     (case v of
        JNull \<Rightarrow> Some \<lparr>Action = [], Data = []\<rparr>
      | JObject ms \<Rightarrow> fold shadow_step ms (Some \<lparr>Action = [], Data = []\<rparr>)
      | _ \<Rightarrow> None)"

definition unmarshal :: "(json \<Rightarrow> 'a option) \<Rightarrow> string \<Rightarrow> json_err + 'a" where
  "unmarshal dec s =
     (case parse_json s of
        None \<Rightarrow> Inl SyntaxError
      | Some v \<Rightarrow> (case dec v of None \<Rightarrow> Inl UnmarshalTypeError | Some x \<Rightarrow> Inr x))"

definition DecodeJSONMessage :: "Frame option \<Rightarrow> json_err + JSONMessage" where
  "DecodeJSONMessage frame =
     (case frame of
        None \<Rightarrow> Inl NilFrame
      | Some f \<Rightarrow> unmarshal decode_shadow (string_of (Payload f)))"

text \<open>\<open>out\<close> is the value decoded into, \<open>dec\<close> the decoding into its type.\<close>

definition DecodeJSONData :: "('a \<Rightarrow> json \<Rightarrow> 'a option) \<Rightarrow> Frame option \<Rightarrow> 'a \<Rightarrow> json_err + 'a" where
  "DecodeJSONData dec frame out =
     (case DecodeJSONMessage frame of
        Inl e \<Rightarrow> Inl e
      | Inr msg \<Rightarrow> if length (Data msg) = 0 then Inr out else unmarshal (dec out) (Data msg))"

section \<open>The struct marshal, for comparison\<close>

text \<open>
  \<open>json.Marshal\<close> re-encodes a raw message: it must be valid, spaces outside strings go, and
  the characters of HTML and the two line separators are escaped. The flag says whether the
  position is inside a string.
\<close>

fun compact :: "bool \<Rightarrow> string \<Rightarrow> string" where
  "compact q [] = []"
| "compact False (c # cs) =
     (if is_space c then compact False cs else if c = quote then c # compact True cs
      else c # compact False cs)"
| "compact True (c # cs) =
     (if c = bslash then c # (case cs of d # ds \<Rightarrow> d # compact True ds | [] \<Rightarrow> [])
      else if c = quote then c # compact False cs
      else if c = CHR ''<'' \<or> c = CHR ''>'' \<or> c = CHR ''&'' then escape_ascii c @ compact True cs
      else if take 2 cs = [CHR 0x80, CHR 0xA8] \<and> c = CHR 0xE2 then bslash # ''u2028'' @ compact True (drop 2 cs)
      else if take 2 cs = [CHR 0x80, CHR 0xA9] \<and> c = CHR 0xE2 then bslash # ''u2029'' @ compact True (drop 2 cs)
      else c # compact True cs)"

definition marshal_JSONMessage :: "JSONMessage \<Rightarrow> string option" where
  "marshal_JSONMessage m =
     (if Data m = [] then Some (CHR ''{'' # json_key ''action'' @ marshal_string (Action m) @ ''}'')
      else if parse_json (Data m) = None then None
      else Some (CHR ''{'' # json_key ''action'' @ marshal_string (Action m) @ '','' @
                 json_key ''data'' @ compact False (Data m) @ ''}''))"

text \<open>\<open>json.Marshal\<close> of a value; the empty raw message is the nil one.\<close>

definition json_Marshal :: "go_any \<Rightarrow> string option" where
  "json_Marshal v =
     (case v of
        AnyNil \<Rightarrow> Some ''null''
      | AnyRaw r \<Rightarrow> (if r = [] then Some ''null''
                     else if parse_json r = None then None else Some (compact False r))
      | AnyString s \<Rightarrow> Some (marshal_string s)
      | AnyOther m \<Rightarrow> m)"

section \<open>The payload\<close>

lemma plain_quote_body: "jsonPlainASCII s \<Longrightarrow> quote_body s = s"
  by (induction s) (auto simp: jsonPlainASCII_def quote_body.simps(2) html_safe_def)

lemma plain_marshal_string: "jsonPlainASCII s \<Longrightarrow> marshal_string s = quote # s @ [quote]"
  by (simp add: marshal_string_def plain_quote_body)

text \<open>The payload for an action and the text of the data (none when empty), and that text.\<close>

definition env_text :: "string \<Rightarrow> string \<Rightarrow> string" where
  "env_text a raw = CHR ''{'' # json_key ''action'' @ marshal_string a @
     (if raw = [] then [] else '','' @ json_key ''data'' @ raw) @ ''}''"

definition data_text :: "go_any \<Rightarrow> string option" where
  "data_text d = (case d of AnyNil \<Rightarrow> Some [] | AnyRaw r \<Rightarrow> Some r
     | AnyString s \<Rightarrow> Some (marshal_string s) | AnyOther m \<Rightarrow> m)"

lemma envelope_bytes_eq:
  "envelope_bytes \<lparr>e_action = a, e_raw = raw, e_stringData = [], e_directString = False\<rparr> = env_text a raw"
  "jsonPlainASCII s \<Longrightarrow>
   envelope_bytes \<lparr>e_action = a, e_raw = [], e_stringData = s, e_directString = True\<rparr> =
     env_text a (marshal_string s)"
  by (simp_all add: envelope_bytes_def env_text_def plain_marshal_string Let_def)

lemma EncodeJSON_eq:
  "EncodeJSON t i a d = map_option (\<lambda>r. newFrame t i (bytes_of (env_text a r))) (data_text d)"
  by (cases d) (auto simp: EncodeJSON_def newFrame_def data_text_def envelope_bytes_eq Let_def
      marshal_string_def plain_quote_body intro!: arg_cong [where f = "\<lambda>f. map_option f _"])

section \<open>Decoding what was encoded\<close>

lemma not_space [simp]: "\<not> is_space quote" "\<not> is_space (CHR ''{'')" "\<not> is_space (CHR ''}'')"
  "\<not> is_space (CHR '','')" "\<not> is_space (CHR '':'')"
  by (simp_all add: is_space_def)

text \<open>A text that is one value, ready to stand inside an object.\<close>

definition json_text :: "string \<Rightarrow> bool" where
  "json_text s \<longleftrightarrow> (case parse_value (Suc (2 * length s)) 1 s of Some (v, r) \<Rightarrow> r = [] | None \<Rightarrow> False)"

lemma parse_value_head:
  assumes "parse_value f d s = Some (v, r)"
  shows "\<exists>c cs. s = c # cs \<and> \<not> is_space c"
proof -
  obtain g where g: "f = Suc g" using assms by (cases f) auto
  from assms [unfolded g] show ?thesis
    by (cases rule: parse_value_cases; cases s)
      (auto simp: is_space_def is_digit_def scan_literal_def)
qed

lemma parse_member:
  assumes "parse_value f d (V @ x # w) = Some (v, x # w)" "\<not> is_space x"
    and "\<forall>c \<in> set k. c \<noteq> quote \<and> 0x20 \<le> code c \<and> c \<noteq> bslash"
  shows "parse_members (Suc f) d (json_key k @ V @ x # w) =
    (if x = CHR ''}'' then Some ([(unquote k, V, v)], w)
     else if x = CHR '','' then map_option (apfst ((#) (unquote k, V, v))) (parse_members f d (skip_ws w))
     else None)"
proof -
  obtain c cs where "V @ x # w = c # cs" "\<not> is_space c" using parse_value_head [OF assms(1)] by blast
  then have ws: "skip_ws (V @ x # w) = V @ x # w" by simp
  have "scan_str (k @ quote # CHR '':'' # V @ x # w) = Some (k, CHR '':'' # V @ x # w)"
    using scan_str_plain [OF assms(3), of "quote # CHR '':'' # V @ x # w"] by simp
  then show ?thesis
    using assms(1,2) ws by (simp add: Let_def)
qed

lemma parse_marshal_string:
  "parse_value (Suc f) d (marshal_string a @ w) = Some (JString (to_valid a), w)"
  using scan_quote_body [of a w] by (simp add: marshal_string_def unquote_quote_body)

lemma unquote_plain: "jsonPlainASCII s \<Longrightarrow> unquote s = s"
proof (induction s)
  case (Cons c s)
  then have "code c < 0x80" "c \<noteq> bslash" by (auto simp: jsonPlainASCII_def)
  with Cons show ?case by (simp add: jsonPlainASCII_def unquote.simps(2) utf8_len_ascii Let_def)
qed simp

lemma keys_plain [simp]: "jsonPlainASCII ''action''" "jsonPlainASCII ''data''"
  by code_simp+

lemma plain_chars: "jsonPlainASCII k \<Longrightarrow> \<forall>c \<in> set k. c \<noteq> quote \<and> 0x20 \<le> code c \<and> c \<noteq> bslash"
  by (simp only: jsonPlainASCII_def list_all_iff not_less de_Morgan_disj) blast

text \<open>The two keys of the envelope as members.\<close>

lemma parse_member_action:
  "parse_members (Suc (Suc f)) d (json_key ''action'' @ marshal_string a @ CHR '','' # w) =
     map_option (apfst ((#) (''action'', marshal_string a, JString (to_valid a))))
       (parse_members (Suc f) d (skip_ws w))"
  "parse_members (Suc (Suc f)) d (json_key ''action'' @ marshal_string a @ ''}'') =
     Some ([(''action'', marshal_string a, JString (to_valid a))], [])"
  by (simp_all only: parse_member [OF parse_marshal_string not_space(4) plain_chars [OF keys_plain(1)]]
      parse_member [OF parse_marshal_string not_space(3) plain_chars [OF keys_plain(1)]]
      unquote_plain [OF keys_plain(1)] if_True refl, simp)

lemma parse_member_data:
  assumes "parse_value f d (raw @ ''}'') = Some (v, ''}'')"
  shows "parse_members (Suc f) d (json_key ''data'' @ raw @ ''}'') = Some ([(''data'', raw, v)], [])"
  by (simp only: parse_member [OF assms not_space(3) plain_chars [OF keys_plain(2)]]
      unquote_plain [OF keys_plain(2)] if_True simp_thms)

lemma parse_json_object:
  assumes "parse_members f 1 (quote # s) = Some (ms, [])"
  shows "parse_json (CHR ''{'' # quote # s) = Some (JObject ms)"
proof -
  have "parse_members (2 * length (CHR ''{'' # quote # s)) 1 (quote # s) = Some (ms, [])"
    by (rule parse_enough(2) [OF _ assms]) simp
  then show ?thesis
    by (simp add: parse_json_def maxNestingDepth_def del: parse_members.simps)
qed

lemma parse_env_text:
  assumes "raw \<noteq> []" "parse_value (Suc (2 * length raw)) 1 raw = Some (v, [])"
  shows "parse_json (env_text a raw) =
    Some (JObject [(''action'', marshal_string a, JString (to_valid a)), (''data'', raw, v)])"
proof -
  let ?f = "Suc (2 * length raw)"
  have "stops ''}''" by (simp add: is_digit_def)
  then have "parse_value ?f 1 (raw @ ''}'') = Some (v, ''}'')"
    using parse_append(1) [OF assms(2), of "''}''" ?f] by simp
  from parse_member_data [OF this]
  have "parse_members (Suc (Suc ?f)) 1
      (json_key ''action'' @ marshal_string a @ CHR '','' # json_key ''data'' @ raw @ ''}'') =
    Some ([(''action'', marshal_string a, JString (to_valid a)), (''data'', raw, v)], [])"
    by (subst parse_member_action(1)) simp
  from parse_json_object [OF this [simplified append.simps append_assoc]] assms(1) show ?thesis
    by (simp add: env_text_def)
qed

lemma parse_env_text_nil:
  "parse_json (env_text a []) = Some (JObject [(''action'', marshal_string a, JString (to_valid a))])"
  using parse_json_object [OF parse_member_action(2) [of 0 1 a, simplified append.simps append_assoc]]
  by (simp add: env_text_def)

lemma decode_env_text:
  assumes "raw = [] \<or> json_text raw"
  shows "DecodeJSONMessage (Some (newFrame t i (bytes_of (env_text a raw)))) =
    Inr \<lparr>Action = to_valid a, Data = raw\<rparr>"
proof (cases "raw = []")
  case True
  then show ?thesis
    by (simp add: DecodeJSONMessage_def newFrame_def unmarshal_def parse_env_text_nil decode_shadow_def
        match_field_def)
next
  case False
  with assms obtain v where "parse_value (Suc (2 * length raw)) 1 raw = Some (v, [])"
    by (auto simp: json_text_def simp del: parse_value.simps split: option.splits)
  from parse_env_text [OF False this] show ?thesis
    by (simp add: DecodeJSONMessage_def newFrame_def unmarshal_def decode_shadow_def match_field_def)
qed

lemma json_text_marshal_string: "json_text (marshal_string s)"
  using parse_marshal_string [of "2 * length (marshal_string s)" 1 s "[]"]
  by (simp add: json_text_def del: parse_value.simps)

lemma parse_json_marshal_string: "parse_json (marshal_string s) = Some (JString (to_valid s))"
proof -
  have "skip_ws (marshal_string s) = marshal_string s" by (simp add: marshal_string_def)
  then show ?thesis
    using parse_marshal_string [of "2 * length (marshal_string s)" 0 s "[]"]
    by (simp add: parse_json_def del: parse_value.simps)
qed

section \<open>The hand assembly against the struct marshal\<close>

lemma compact_plain:
  assumes "\<forall>c \<in> set u. c \<noteq> bslash \<and> c \<noteq> quote \<and> c \<noteq> CHR ''<'' \<and> c \<noteq> CHR ''>'' \<and> c \<noteq> CHR ''&'' \<and> c \<noteq> CHR 0xE2"
  shows "compact True (u @ s) = u @ compact True s"
  using assms by (induction u) auto

lemma compact_seq:
  assumes "\<forall>c \<in> set u. 0x80 \<le> code c" "utf8_len u = length u"
    "u \<noteq> [CHR 0xE2, CHR 0x80, CHR 0xA8]" "u \<noteq> [CHR 0xE2, CHR 0x80, CHR 0xA9]"
  shows "compact True (u @ s) = u @ compact True s"
proof -
  have special: "c \<noteq> bslash \<and> c \<noteq> quote \<and> c \<noteq> CHR ''<'' \<and> c \<noteq> CHR ''>'' \<and> c \<noteq> CHR ''&''"
    if "0x80 \<le> code c" for c using that by (auto simp: not_le)
  show ?thesis
  proof (cases u)
    case (Cons c cs)
    have tail: "x \<noteq> CHR 0xE2" if "x \<in> set cs" for x
      using utf8_len_complete(1) [of c cs x] assms(2) Cons that by auto
    then have cs: "compact True (cs @ s) = cs @ compact True s"
      using assms(1) Cons special by (intro compact_plain) auto
    have "take 2 (cs @ s) \<noteq> [CHR 0x80, CHR 0xA8] \<and> take 2 (cs @ s) \<noteq> [CHR 0x80, CHR 0xA9]"
      if "c = CHR 0xE2"
    proof -
      have "cs \<noteq> []" using assms(2) Cons that by (auto simp: utf8_len_def utf8_size_def Let_def split: prod.splits)
      then have "length cs = 2"
        using utf8_len_complete(2) [of c cs "hd cs"] assms(2) Cons that by (auto simp: utf8_size_def)
      then have "take 2 (cs @ s) = cs" by simp
      with assms(3,4) Cons that show ?thesis by simp
    qed
    moreover have "c \<noteq> bslash \<and> c \<noteq> quote \<and> c \<noteq> CHR ''<'' \<and> c \<noteq> CHR ''>'' \<and> c \<noteq> CHR ''&''"
      using special [of c] assms(1) Cons by simp
    ultimately show ?thesis using cs Cons by (cases "c = CHR 0xE2") simp_all
  qed simp
qed

lemma compact_hex: "n < 16 \<Longrightarrow> compact True (hex_digit n # s) = hex_digit n # compact True s"
proof -
  assume "n < 16"
  then have "hex_value (hex_digit n) \<noteq> None" by (simp add: hex_value_digit)
  moreover have "hex_value bslash = None" "hex_value quote = None" "hex_value (CHR ''<'') = None"
    "hex_value (CHR ''>'') = None" "hex_value (CHR ''&'') = None" "hex_value (CHR 0xE2) = None"
    by (simp_all add: hex_value_def is_digit_def)
  ultimately have "hex_digit n \<notin> {bslash, quote, CHR ''<'', CHR ''>'', CHR ''&'', CHR 0xE2}" by auto
  then show ?thesis by simp
qed

lemma compact_quote_body: "compact True (quote_body s @ quote # r) = quote_body s @ quote # compact False r"
proof (induction "length s" arbitrary: s rule: less_induct)
  case less
  show ?case
  proof (cases s rule: quote_body_steps)
    case (safe c cs)
    have "c \<noteq> CHR 0xE2" using safe(2) by auto
    with safe less [of cs] show ?thesis by (simp add: html_safe_def)
  next
    case (escape c cs)
    have IH: "compact True (quote_body cs @ quote # r) = quote_body cs @ quote # compact False r"
      using less [of cs] escape(1) by simp
    from escape(2,3) show ?thesis
    proof (cases rule: escape_ascii_cases)
      case (1 e)
      with escape(4) IH show ?thesis by simp
    next
      case 2
      have "code c div 16 < 16" using escape(2) by simp
      moreover have "compact True (bslash # CHR ''u'' # CHR ''0'' # CHR ''0'' # x) =
          bslash # CHR ''u'' # CHR ''0'' # CHR ''0'' # compact True x" for x by simp
      ultimately show ?thesis using escape(4) IH 2 by (simp add: compact_hex del: compact.simps)
    qed
  next
    case (seq u r')
    with less compact_seq [of u "quote_body r' @ quote # r"] seq(6) [of "[]"] show ?thesis by simp
  qed (use less in auto)
qed

lemma compact_marshal_string: "compact False (marshal_string s) = marshal_string s"
  using compact_quote_body [of s "[]"] by (simp add: marshal_string_def)

section \<open>Properties of the envelope\<close>

text \<open>
  C34. Round trip of the envelope: whatever action and data \<open>EncodeJSON\<close> is given, as long as the
  data's text is one JSON value, \<open>DecodeJSONMessage\<close> recovers the action (with invalid UTF-8
  replaced, so unchanged when it is valid) and exactly the bytes of the data.
\<close>

theorem DecodeJSONMessage_EncodeJSON:
  assumes "data_text d = Some raw" and "raw = [] \<or> json_text raw"
  shows "\<exists>f. EncodeJSON t i a d = Some f \<and> FrameHeader.FrameType (Header f) = t \<and> StreamId (Header f) = i \<and>
    DecodeJSONMessage (Some f) = Inr \<lparr>Action = to_valid a, Data = raw\<rparr> \<and>
    (valid_utf8 a \<longrightarrow> DecodeJSONMessage (Some f) = Inr \<lparr>Action = a, Data = raw\<rparr>)"
  using assms(1) decode_env_text [OF assms(2), of t i a]
  by (auto simp: EncodeJSON_eq newFrame_def)

theorem DecodeJSONMessage_EncodeJSON_witness:
  "\<exists>f. EncodeJSON REQUEST 7 ''echo'' (AnyRaw ''[1,2]'') = Some f \<and>
    DecodeJSONMessage (Some f) = Inr \<lparr>Action = ''echo'', Data = ''[1,2]''\<rparr>"
proof -
  have "data_text (AnyRaw ''[1,2]'') = Some ''[1,2]''" by (simp add: data_text_def)
  moreover have "''[1,2]'' = [] \<or> json_text ''[1,2]''" by code_simp
  ultimately have "\<exists>f. EncodeJSON REQUEST 7 ''echo'' (AnyRaw ''[1,2]'') = Some f \<and>
      FrameHeader.FrameType (Header f) = REQUEST \<and> StreamId (Header f) = 7 \<and>
      DecodeJSONMessage (Some f) = Inr \<lparr>Action = to_valid ''echo'', Data = ''[1,2]''\<rparr> \<and>
      (valid_utf8 ''echo'' \<longrightarrow> DecodeJSONMessage (Some f) = Inr \<lparr>Action = ''echo'', Data = ''[1,2]''\<rparr>)"
    by (rule DecodeJSONMessage_EncodeJSON)
  moreover have "valid_utf8 ''echo''" by code_simp
  ultimately show ?thesis by blast
qed

text \<open>
  Strings survive the envelope: a string passed as data, spliced in directly when it is plain
  and marshalled otherwise, is read back by \<open>DecodeJSONData\<close> with invalid UTF-8 replaced, whatever
  the action and the previous content of the target.
\<close>

lemma DecodeJSONData_EncodeJSON_string:
  "\<exists>f. EncodeJSON t i a (AnyString s) = Some f \<and>
    DecodeJSONMessage (Some f) = Inr \<lparr>Action = to_valid a, Data = marshal_string s\<rparr> \<and>
    DecodeJSONData decode_string (Some f) out = Inr (to_valid s)"
proof -
  have "DecodeJSONMessage (Some (newFrame t i (bytes_of (env_text a (marshal_string s))))) =
      Inr \<lparr>Action = to_valid a, Data = marshal_string s\<rparr>"
    by (rule decode_env_text) (simp add: json_text_marshal_string)
  then show ?thesis
    by (simp add: EncodeJSON_eq data_text_def DecodeJSONData_def unmarshal_def parse_json_marshal_string)
      (simp add: marshal_string_def)
qed

text \<open>
  C35. The hand-assembled payload against marshalling the struct: for no data and for every string
  the bytes are the same; for a raw message that is valid JSON they are the same exactly when
  compacting and HTML-escaping it changes nothing.
\<close>

theorem EncodeJSON_matches_struct:
  "map_option (string_of \<circ> Payload) (EncodeJSON t i a AnyNil) = marshal_JSONMessage \<lparr>Action = a, Data = []\<rparr> \<and>
   map_option (string_of \<circ> Payload) (EncodeJSON t i a (AnyString s)) =
     marshal_JSONMessage \<lparr>Action = a, Data = marshal_string s\<rparr> \<and>
   (raw \<noteq> [] \<and> parse_json raw \<noteq> None \<longrightarrow>
     (map_option (string_of \<circ> Payload) (EncodeJSON t i a (AnyRaw raw)) =
       marshal_JSONMessage \<lparr>Action = a, Data = raw\<rparr>) = (compact False raw = raw))"
proof -
  have ne: "marshal_string s \<noteq> []" by (simp add: marshal_string_def)
  show ?thesis
    using compact_marshal_string [of s]
    by (auto simp: EncodeJSON_eq data_text_def newFrame_def marshal_JSONMessage_def env_text_def ne
        parse_json_marshal_string)
qed

theorem EncodeJSON_matches_struct_witness:
  "(map_option (string_of \<circ> Payload) (EncodeJSON REQUEST 7 ''echo'' (AnyRaw ''[1]'')) =
      marshal_JSONMessage \<lparr>Action = ''echo'', Data = ''[1]''\<rparr>) \<and>
   (map_option (string_of \<circ> Payload) (EncodeJSON REQUEST 7 ''echo'' (AnyRaw ''[1 ]'')) \<noteq>
      marshal_JSONMessage \<lparr>Action = ''echo'', Data = ''[1 ]''\<rparr>)"
proof -
  have "parse_json ''[1]'' \<noteq> None" "parse_json ''[1 ]'' \<noteq> None"
    "compact False ''[1]'' = ''[1]''" "compact False ''[1 ]'' \<noteq> ''[1 ]''" by code_simp+
  then show ?thesis
    using EncodeJSON_matches_struct [where raw = "''[1]''" and t = REQUEST and i = 7 and a = "''echo''"]
      EncodeJSON_matches_struct [where raw = "''[1 ]''" and t = REQUEST and i = 7 and a = "''echo''"]
    by simp
qed

end
