(* ===== verification/Balancer_Interface.thy ===== *)
theory Balancer_Interface
  imports Go_Prelude
begin

text \<open>
  The load-balancer interface of \<open>pkg/balancer.go\<close>: the backend interfaces as records (an
  embedded interface is a record extension), the loops over the backend list that all the
  list-based balancers of \<open>internal/balancer\<close> share, and the contract \<open>Balancer[T]\<close> promises
  to the worker group, as a locale that every balancer interprets.
\<close>

section \<open>Backends\<close>

record backend =
  Id :: string

record weight_backend = backend +
  Weight :: int

record count_backend = backend +
  Count :: int

text \<open>The errors the balancers return; \<open>DivideByZero\<close> stands for the run-time panic.\<close>

datatype bal_err =
    NoBackends
  | NoReplicas
  | InvalidWeight string int
  | TotalWeightNotPositive int
  | MutatedWeight string int int int
  | DivideByZero

section \<open>The loops of Register, Unregister and Iterate\<close>

text \<open>
  \<open>for _, back := range backends { if back.Id() == x.Id() ... }\<close>: whether some backend has
  the identifier, and the list without the first such backend.
\<close>

fun has_id :: "string \<Rightarrow> 'a backend_scheme list \<Rightarrow> bool" where
  "has_id i [] = False"
| "has_id i (b # bs) = (if Id b = i then True else has_id i bs)"

fun remove_id :: "string \<Rightarrow> 'a backend_scheme list \<Rightarrow> 'a backend_scheme list" where
  "remove_id i [] = []"
| "remove_id i (b # bs) = (if Id b = i then bs else b # remove_id i bs)"

text \<open>\<open>Register\<close> without weights or counts: append unless the identifier is there.\<close>

definition register_id :: "'a backend_scheme list \<Rightarrow> 'a backend_scheme \<Rightarrow> 'a backend_scheme list" where
  "register_id bs b = (if has_id (Id b) bs then bs else bs @ [b])"

text \<open>\<open>Iterate\<close>: the backends the callback is called on, until it returns false.\<close>

fun iterate_visits :: "('b \<Rightarrow> bool) \<Rightarrow> 'b list \<Rightarrow> 'b list" where
  "iterate_visits f [] = []"
| "iterate_visits f (b # bs) = b # (if f b then iterate_visits f bs else [])"

abbreviation ids :: "'a backend_scheme list \<Rightarrow> string list" where
  "ids bs \<equiv> map Id bs"

lemma has_id_iff [simp]: "has_id i bs \<longleftrightarrow> i \<in> set (ids bs)"
  by (induction bs) auto

lemma remove_id_absent: "i \<notin> set (ids bs) \<Longrightarrow> remove_id i bs = bs"
  by (induction bs) auto

lemma set_remove_id_subset: "set (remove_id i bs) \<subseteq> set bs"
  by (induction bs) auto

lemma ids_remove_id: "ids (remove_id i bs) = remove1 i (ids bs)"
  by (induction bs) auto

lemma set_ids_remove_id [simp]:
  "distinct (ids bs) \<Longrightarrow> set (ids (remove_id i bs)) = set (ids bs) - {i}"
  by (simp only: ids_remove_id set_remove1_eq)

lemma distinct_remove_id [simp, intro]: "distinct (ids bs) \<Longrightarrow> distinct (ids (remove_id i bs))"
  by (simp only: ids_remove_id distinct_remove1)

lemma register_id_simps [simp]:
  "set (ids (register_id bs b)) = insert (Id b) (set (ids bs))"
  "distinct (ids bs) \<Longrightarrow> distinct (ids (register_id bs b))"
  by (auto simp: register_id_def)

lemma iterate_visits_all: "\<forall>b \<in> set bs. f b \<Longrightarrow> iterate_visits f bs = bs"
  by (induction bs) auto

text \<open>\<open>n\<close> successive calls and what they returned.\<close>

primrec calls :: "nat \<Rightarrow> ('s \<Rightarrow> 's \<times> 'x) \<Rightarrow> 's \<Rightarrow> 's \<times> 'x list" where
  "calls 0 f s = (s, [])"
| "calls (Suc n) f s = (let (s', xs) = calls n f s; (s'', x) = f s' in (s'', xs @ [x]))"

lemma calls_invariant:
  assumes "P s" and "\<And>s. P s \<Longrightarrow> P (fst (f s))"
  shows "P (fst (calls n f s))"
  using assms(1)
proof (induction n)
  case (Suc n)
  then show ?case using assms(2) by (auto simp: Let_def split: prod.splits) (metis fst_conv)
qed simp

section \<open>The contract\<close>

text \<open>
  One operation of a balancer, and its effect on the state. \<open>Next\<close> may draw random numbers
  or read live figures; what it drew is the first argument of \<open>Pick\<close>.
\<close>

datatype ('r, 'b) bal_op = Register 'b | Unregister 'b | Pick 'r string

fun bal_step ::
  "('r \<Rightarrow> 's \<Rightarrow> string \<Rightarrow> 's \<times> 'x) \<Rightarrow> ('s \<Rightarrow> 'b \<Rightarrow> 's \<times> 'e) \<Rightarrow> ('s \<Rightarrow> 'b \<Rightarrow> 's) \<Rightarrow>
   ('r, 'b) bal_op \<Rightarrow> 's \<Rightarrow> 's" where
  "bal_step nxt reg unreg (Register b) s = fst (reg s b)"
| "bal_step nxt reg unreg (Unregister b) s = unreg s b"
| "bal_step nxt reg unreg (Pick r k) s = fst (nxt r s k)"

abbreviation bal_run where
  "bal_run nxt reg unreg ops s \<equiv> fold (bal_step nxt reg unreg) ops s"

text \<open>
  What a client relies on. \<open>elems\<close> lists the registered backends, \<open>bid\<close> is \<open>Id()\<close>;
  \<open>admits s b\<close> is the precondition under which registering \<open>b\<close> keeps the invariant and
  \<open>draw_ok r s\<close> says that the drawn values are in range.
\<close>

locale balancer =
  fixes new :: "'s"
    and pick :: "'r \<Rightarrow> 's \<Rightarrow> string \<Rightarrow> 's \<times> (bal_err + 'b option)"
    and enroll :: "'s \<Rightarrow> 'b \<Rightarrow> 's \<times> bal_err option"
    and retire :: "'s \<Rightarrow> 'b \<Rightarrow> 's"
    and count :: "'s \<Rightarrow> int"
    and elems :: "'s \<Rightarrow> 'b list"
    and bid :: "'b \<Rightarrow> string"
    and inv :: "'s \<Rightarrow> bool"
    and admits :: "'s \<Rightarrow> 'b \<Rightarrow> bool"
    and draw_ok :: "'r \<Rightarrow> 's \<Rightarrow> bool"
  assumes inv_new: "inv new" and elems_new: "elems new = []"
    and inv_enroll: "inv s \<Longrightarrow> admits s b \<Longrightarrow> inv (fst (enroll s b))"
    and enroll_ok: "inv s \<Longrightarrow> snd (enroll s b) = None \<Longrightarrow>
      bid ` set (elems (fst (enroll s b))) = insert (bid b) (bid ` set (elems s))"
    and enroll_err: "snd (enroll s b) = Some e \<Longrightarrow> fst (enroll s b) = s"
    and inv_retire: "inv s \<Longrightarrow> inv (retire s b)"
    and retire_ids: "inv s \<Longrightarrow> bid ` set (elems (retire s b)) = bid ` set (elems s) - {bid b}"
    and inv_pick: "inv s \<Longrightarrow> inv (fst (pick r s k))"
    and pick_ids: "inv s \<Longrightarrow> bid ` set (elems (fst (pick r s k))) = bid ` set (elems s)"
    and pick_empty: "inv s \<Longrightarrow> elems s = [] \<Longrightarrow> \<exists>e. snd (pick r s k) = Inl e"
    and pick_some: "inv s \<Longrightarrow> elems s \<noteq> [] \<Longrightarrow> draw_ok r s \<Longrightarrow>
      \<exists>b \<in> set (elems (fst (pick r s k))). snd (pick r s k) = Inr (Some b)"
    and distinct_elems: "inv s \<Longrightarrow> distinct (map bid (elems s))"
    and count_elems: "inv s \<Longrightarrow> count s = int (length (elems s))"
begin

text \<open>The operations a client may perform: registrations the balancer admits, and the rest.\<close>

fun admitted :: "('r, 'b) bal_op list \<Rightarrow> 's \<Rightarrow> bool" where
  "admitted [] s = True"
| "admitted (x # xs) s =
     ((case x of Register b \<Rightarrow> admits s b | _ \<Rightarrow> True) \<and> admitted xs (bal_step pick enroll retire x s))"

lemma inv_step: "inv s \<Longrightarrow> (case x of Register b \<Rightarrow> admits s b | _ \<Rightarrow> True) \<Longrightarrow>
    inv (bal_step pick enroll retire x s)"
  by (cases x) (auto intro: inv_enroll inv_retire inv_pick)

lemma inv_run: "inv s \<Longrightarrow> admitted xs s \<Longrightarrow> inv (bal_run pick enroll retire xs s)"
  by (induction xs arbitrary: s) (auto intro: inv_step)

text \<open>A balancer that admits every backend admits every history.\<close>

lemma admitted_all:
  assumes "\<And>s b. admits s b"
  shows "admitted xs s"
  using assms by (induction xs arbitrary: s) (auto split: bal_op.split)

text \<open>
  The client's guarantee: after any admitted history, asking for a backend either reports an
  error (exactly when none is registered) or hands over one that is registered. In particular
  it never reports success without a backend.
\<close>

lemma served:
  assumes "admitted xs new" and "draw_ok r (bal_run pick enroll retire xs new)"
  shows "(case snd (pick r (bal_run pick enroll retire xs new) k) of
      Inl e \<Rightarrow> count (bal_run pick enroll retire xs new) = 0
    | Inr None \<Rightarrow> False
    | Inr (Some b) \<Rightarrow> bid b \<in> bid ` set (elems (bal_run pick enroll retire xs new)))"
proof -
  let ?s = "bal_run pick enroll retire xs new"
  have inv: "inv ?s" using assms(1) inv_new by (rule inv_run [rotated])
  show ?thesis
  proof (cases "elems ?s = []")
    case True
    from pick_empty [OF inv True, of r k] obtain e where "snd (pick r ?s k) = Inl e" by blast
    with True count_elems [OF inv] show ?thesis by simp
  next
    case False
    from pick_some [OF inv False assms(2)] obtain b where
      "b \<in> set (elems (fst (pick r ?s k)))" "snd (pick r ?s k) = Inr (Some b)" by blast
    with pick_ids [OF inv] show ?thesis by (metis imageI option.case(2) sum.case(2))
  qed
qed

text \<open>Registering the same identifier twice counts once.\<close>

lemma enroll_idempotent_count:
  assumes "inv s" "admits s b" "snd (enroll s b) = None" "bid b \<in> bid ` set (elems s)"
  shows "count (fst (enroll s b)) = count s"
proof -
  have "distinct (map bid (elems (fst (enroll s b))))" "distinct (map bid (elems s))"
    using assms by (auto intro: distinct_elems inv_enroll)
  moreover have "set (map bid (elems (fst (enroll s b)))) = set (map bid (elems s))"
    using enroll_ok [OF assms(1,3)] assms(4) by auto
  ultimately have "length (elems (fst (enroll s b))) = length (elems s)"
    by (metis distinct_card length_map)
  then show ?thesis using assms(1,2) by (simp add: count_elems inv_enroll)
qed

end

end
