(* ===== verification/Balancer_List.thy ===== *)
theory Balancer_List
  imports Balancer_Interface
begin

text \<open>
  The balancers that keep a plain list of backends: \<open>round_robin.go\<close>, \<open>random.go\<close>,
  \<open>least_connections.go\<close> and \<open>adaptive.go\<close> of \<open>internal/balancer\<close>. Their methods run under
  the balancer's mutex, so each is one state transition.
\<close>

section \<open>RoundRobinBalancer\<close>

record 'b round_robin =
  rr_backends :: "'b list"
  rr_current :: nat

definition NewRoundRobinBalancer :: "'b round_robin" where
  "NewRoundRobinBalancer = \<lparr>rr_backends = [], rr_current = 0\<rparr>"

definition RoundRobin_Next :: "'b round_robin \<Rightarrow> string \<Rightarrow> 'b round_robin \<times> (bal_err + 'b)" where
  "RoundRobin_Next s key =
     (let size = length (rr_backends s)
      in if size = 0 then (s, Inl NoBackends)
         else let cur = rr_current s mod size
              in (s\<lparr>rr_current := (cur + 1) mod size\<rparr>, Inr (rr_backends s ! cur)))"

definition RoundRobin_Register ::
  "'a backend_scheme round_robin \<Rightarrow> 'a backend_scheme \<Rightarrow> 'a backend_scheme round_robin" where
  "RoundRobin_Register s b = s\<lparr>rr_backends := register_id (rr_backends s) b\<rparr>"

definition RoundRobin_Unregister ::
  "'a backend_scheme round_robin \<Rightarrow> 'a backend_scheme \<Rightarrow> 'a backend_scheme round_robin" where
  "RoundRobin_Unregister s b = s\<lparr>rr_backends := remove_id (Id b) (rr_backends s)\<rparr>"

definition RoundRobin_Size :: "'b round_robin \<Rightarrow> int" where
  "RoundRobin_Size s = int (length (rr_backends s))"

definition RoundRobin_Iterate :: "'b round_robin \<Rightarrow> ('b \<Rightarrow> bool) \<Rightarrow> 'b list" where
  "RoundRobin_Iterate s f = iterate_visits f (rr_backends s)"

section \<open>RandomBalancer\<close>

text \<open>The state is the backend list; \<open>r\<close> is the outcome of \<open>rand.Intn(len(backends))\<close>.\<close>

definition Random_Next :: "nat \<Rightarrow> 'b list \<Rightarrow> string \<Rightarrow> bal_err + 'b" where
  "Random_Next r bs key =
     (if length bs = 0 then Inl NoBackends
      else if length bs = 1 then Inr (bs ! 0)
      else Inr (bs ! r))"

definition Random_Register :: "'a backend_scheme list \<Rightarrow> 'a backend_scheme \<Rightarrow> 'a backend_scheme list" where
  "Random_Register bs b = register_id bs b"

definition Random_Unregister :: "'a backend_scheme list \<Rightarrow> 'a backend_scheme \<Rightarrow> 'a backend_scheme list" where
  "Random_Unregister bs b = remove_id (Id b) bs"

definition Random_Size :: "'b list \<Rightarrow> int" where
  "Random_Size bs = int (length bs)"

definition Random_Iterate :: "'b list \<Rightarrow> ('b \<Rightarrow> bool) \<Rightarrow> 'b list" where
  "Random_Iterate bs f = iterate_visits f bs"

section \<open>LeastConnectionsBalancer\<close>

record least_connections =
  lc_backends :: "count_backend list"
  lc_updateCount :: bool

definition NewLeastConnectionsBalancer :: "bool \<Rightarrow> least_connections" where
  "NewLeastConnectionsBalancer updateCount = \<lparr>lc_backends = [], lc_updateCount = updateCount\<rparr>"

text \<open>The scan from index \<open>i\<close> with the least count so far and its index.\<close>

fun least_scan :: "count_backend list \<Rightarrow> nat \<Rightarrow> int \<Rightarrow> nat \<Rightarrow> nat" where
  "least_scan [] i leastConn idx = idx"
| "least_scan (b # bs) i leastConn idx =
     (if leastConn > Count b then least_scan bs (i + 1) (Count b) i
      else least_scan bs (i + 1) leastConn idx)"

text \<open>
  \<open>Next\<close>; the deferred function bumps the chosen backend's count, also when there is only one
  backend. The backend is an object shared with the caller, so the bump shows in the result.
\<close>

definition LeastConnections_Next ::
  "least_connections \<Rightarrow> string \<Rightarrow> least_connections \<times> (bal_err + count_backend)" where
  "LeastConnections_Next s key =
     (let bs = lc_backends s; size = length bs
      in if size = 0 then (s, Inl NoBackends)
         else let idx = (if size = 1 then 0 else least_scan (tl bs) 1 (Count (bs ! 0)) 0);
                  b = bs ! idx;
                  b' = (if lc_updateCount s then b\<lparr>Count := Count b + 1\<rparr> else b)
              in (s\<lparr>lc_backends := bs[idx := b']\<rparr>, Inr b'))"

fun set_count_id :: "string \<Rightarrow> int \<Rightarrow> count_backend list \<Rightarrow> count_backend list" where
  "set_count_id i c [] = []"
| "set_count_id i c (b # bs) =
     (if Id b = i then b\<lparr>Count := c\<rparr> # bs else b # set_count_id i c bs)"

definition LeastConnections_Register :: "least_connections \<Rightarrow> count_backend \<Rightarrow> least_connections" where
  "LeastConnections_Register s b =
     (if has_id (Id b) (lc_backends s)
      then (if lc_updateCount s
            then s\<lparr>lc_backends := set_count_id (Id b) (Count b) (lc_backends s)\<rparr> else s)
      else s\<lparr>lc_backends := lc_backends s @ [b]\<rparr>)"

definition LeastConnections_Unregister :: "least_connections \<Rightarrow> count_backend \<Rightarrow> least_connections" where
  "LeastConnections_Unregister s b = s\<lparr>lc_backends := remove_id (Id b) (lc_backends s)\<rparr>"

definition LeastConnections_Size :: "least_connections \<Rightarrow> int" where
  "LeastConnections_Size s = int (length (lc_backends s))"

definition LeastConnections_Iterate :: "least_connections \<Rightarrow> (count_backend \<Rightarrow> bool) \<Rightarrow> count_backend list" where
  "LeastConnections_Iterate s f = iterate_visits f (lc_backends s)"

section \<open>AdaptiveBalancer\<close>

text \<open>
  \<open>load i\<close> is what the one call of \<open>Load()\<close> on the backend at index \<open>i\<close> returned (live figures
  change under the scan, each is read once); \<open>rnd i n\<close> is the outcome of \<open>random.Intn(n)\<close> drawn
  at index \<open>i\<close>. Load figures are compared as a linear order; a NaN is not considered.
\<close>

fun adaptive_scan ::
  "(nat \<Rightarrow> nat \<Rightarrow> nat) \<Rightarrow> (nat \<Rightarrow> 'l::linorder) \<Rightarrow> nat \<Rightarrow> nat \<Rightarrow> 'l \<Rightarrow> nat \<Rightarrow> nat \<Rightarrow> nat" where
  "adaptive_scan rnd load i 0 best nxt ties = nxt"
| "adaptive_scan rnd load i (Suc n) best nxt ties =
     (if load i < best then adaptive_scan rnd load (i + 1) n (load i) i 1
      else if load i = best
        then adaptive_scan rnd load (i + 1) n best
               (if rnd i (ties + 1) = 0 then i else nxt) (ties + 1)
      else adaptive_scan rnd load (i + 1) n best nxt ties)"

definition Adaptive_Next ::
  "(nat \<Rightarrow> nat \<Rightarrow> nat) \<times> (nat \<Rightarrow> 'l::linorder) \<Rightarrow> 'b list \<Rightarrow> string \<Rightarrow> bal_err + 'b" where
  "Adaptive_Next obs bs key =
     (case obs of (rnd, load) \<Rightarrow>
        (if length bs = 0 then Inl NoBackends
         else if length bs = 1 then Inr (bs ! 0)
         else Inr (bs ! adaptive_scan rnd load 1 (length bs - 1) (load 0) 0 1)))"

definition Adaptive_Register :: "'a backend_scheme list \<Rightarrow> 'a backend_scheme \<Rightarrow> 'a backend_scheme list" where
  "Adaptive_Register bs b = register_id bs b"

definition Adaptive_Unregister :: "'a backend_scheme list \<Rightarrow> 'a backend_scheme \<Rightarrow> 'a backend_scheme list" where
  "Adaptive_Unregister bs b = remove_id (Id b) bs"

definition Adaptive_Size :: "'b list \<Rightarrow> int" where
  "Adaptive_Size bs = int (length bs)"

definition Adaptive_Iterate :: "'b list \<Rightarrow> ('b \<Rightarrow> bool) \<Rightarrow> 'b list" where
  "Adaptive_Iterate bs f = iterate_visits f bs"

section \<open>The contract holds\<close>

text \<open>A \<open>Next\<close> that returns a backend or an error, seen through the interface.\<close>

definition as_pick :: "'s \<times> (bal_err + 'b) \<Rightarrow> 's \<times> (bal_err + 'b option)" where
  "as_pick x = (fst x, map_sum id Some (snd x))"

lemma as_pick_simps [simp]:
  "fst (as_pick x) = fst x" "snd (as_pick x) = map_sum id Some (snd x)"
  by (simp_all add: as_pick_def)

interpretation rr: balancer
  "NewRoundRobinBalancer :: 'a backend_scheme round_robin"
  "\<lambda>(_ :: unit) s k. as_pick (RoundRobin_Next s k)"
  "\<lambda>s b. (RoundRobin_Register s b, None)" RoundRobin_Unregister RoundRobin_Size
  rr_backends Id "\<lambda>s. distinct (ids (rr_backends s))" "\<lambda>_ _. True" "\<lambda>_ _. True"
  by unfold_locales
    (auto simp: NewRoundRobinBalancer_def RoundRobin_Next_def RoundRobin_Register_def
      RoundRobin_Unregister_def RoundRobin_Size_def Let_def simp flip: set_map)

interpretation rnd: balancer
  "[] :: 'a backend_scheme list" "\<lambda>r s k. as_pick (s, Random_Next r s k)"
  "\<lambda>s b. (Random_Register s b, None)" Random_Unregister Random_Size
  "\<lambda>s. s" Id "\<lambda>s. distinct (ids s)" "\<lambda>_ _. True" "\<lambda>r s. r < length s"
  by unfold_locales
    (auto simp: Random_Next_def Random_Register_def Random_Unregister_def Random_Size_def
      simp flip: set_map)

lemma least_scan_spec:
  assumes "drop i bs = rest" "idx < i" "i \<le> length bs"
    and "\<forall>j < i. Count (bs ! idx) \<le> Count (bs ! j)"
    and "\<forall>j < idx. Count (bs ! idx) < Count (bs ! j)"
  defines "res \<equiv> least_scan rest i (Count (bs ! idx)) idx"
  shows "res < length bs \<and> (\<forall>j < length bs. Count (bs ! res) \<le> Count (bs ! j)) \<and>
    (\<forall>j < res. Count (bs ! res) < Count (bs ! j))"
  using assms(1-5) unfolding res_def
proof (induction rest arbitrary: i idx)
  case Nil
  then show ?case by auto
next
  case (Cons b rest)
  then have b: "b = bs ! i" "drop (i + 1) bs = rest" "i < length bs"
    by (metis nth_via_drop, metis drop_Suc list.sel(3) tl_drop Suc_eq_plus1, metis drop_eq_Nil leI list.distinct(1))
  show ?case
  proof (cases "Count (bs ! idx) > Count b")
    case True
    have "\<forall>j < i + 1. Count (bs ! i) \<le> Count (bs ! j)" "\<forall>j < i. Count (bs ! i) < Count (bs ! j)"
      using True b Cons.prems(4) by (auto simp: less_Suc_eq)
    with Cons.IH [of "i + 1" i] b True show ?thesis by simp
  next
    case False
    have "\<forall>j < i + 1. Count (bs ! idx) \<le> Count (bs ! j)"
      using False b Cons.prems(4) by (auto simp: less_Suc_eq)
    with Cons.IH [of "i + 1" idx] b False Cons.prems show ?thesis by simp
  qed
qed

lemma adaptive_scan_spec:
  assumes "nxt < i" "best = load nxt" "\<forall>j < i. best \<le> load j"
  shows "adaptive_scan rnd load i n best nxt ties < i + n \<and>
    (\<forall>j < i + n. load (adaptive_scan rnd load i n best nxt ties) \<le> load j)"
  using assms
proof (induction n arbitrary: i best nxt ties)
  case (Suc n)
  consider "load i < best" | "load i = best" | "best < load i" by (rule linorder_cases)
  then show ?case
  proof cases
    case 1
    then have "\<forall>j < i + 1. load i \<le> load j"
      using Suc.prems by (auto simp: less_Suc_eq intro: order.trans [of _ best])
    with Suc.IH [of i "i + 1" "load i" 1] 1 show ?thesis by simp
  next
    case 2
    define nx where "nx = (if rnd i (ties + 1) = 0 then i else nxt)"
    have "nx < i + 1" "best = load nx" "\<forall>j < i + 1. best \<le> load j"
      using 2 Suc.prems by (auto simp: nx_def less_Suc_eq)
    from Suc.IH [OF this] 2 show ?thesis by (simp add: nx_def)
  next
    case 3
    with Suc.IH [of nxt "i + 1" best ties] Suc.prems show ?thesis
      by (auto simp: less_Suc_eq)
  qed
qed auto

abbreviation least_idx :: "count_backend list \<Rightarrow> nat" where
  "least_idx bs \<equiv> (if length bs = 1 then 0 else least_scan (tl bs) 1 (Count (bs ! 0)) 0)"

lemma least_idx_spec:
  assumes "bs \<noteq> []"
  shows "least_idx bs < length bs" "\<forall>j < length bs. Count (bs ! least_idx bs) \<le> Count (bs ! j)"
    "\<forall>j < least_idx bs. Count (bs ! least_idx bs) < Count (bs ! j)"
  using least_scan_spec [of 1 bs "tl bs" 0] assms by (cases bs; auto simp: drop_Suc)+

lemma adaptive_in_range:
  assumes "bs \<noteq> []"
  shows "adaptive_scan rnd load 1 (length bs - 1) (load 0) 0 1 < length bs"
    and "\<forall>j < length bs. load (adaptive_scan rnd load 1 (length bs - 1) (load 0) 0 1) \<le> load j"
  using adaptive_scan_spec [of 0 1 "load 0" load rnd "length bs - 1" 1] assms
  by (cases bs; simp)+

lemma ids_set_count_id [simp]: "ids (set_count_id i c bs) = ids bs"
  by (induction bs) auto

lemma ids_update_same [simp]: "Id b' = Id (bs ! i) \<Longrightarrow> ids (bs[i := b']) = ids bs"
  by (cases "i < length bs") (auto simp: map_update list_update_same_conv list_update_beyond)

lemma LeastConnections_Next_ids [simp]:
  "ids (lc_backends (fst (LeastConnections_Next s k))) = ids (lc_backends s)"
  by (auto simp: LeastConnections_Next_def Let_def)

interpretation lc: balancer
  "NewLeastConnectionsBalancer upd" "\<lambda>(_ :: unit) s k. as_pick (LeastConnections_Next s k)"
  "\<lambda>s b. (LeastConnections_Register s b, None)" LeastConnections_Unregister LeastConnections_Size
  lc_backends Id "\<lambda>s. distinct (ids (lc_backends s))" "\<lambda>_ _. True" "\<lambda>_ _. True"
proof unfold_locales
  fix s :: least_connections and k
  assume "distinct (ids (lc_backends s))" and ne: "lc_backends s \<noteq> []"
  from least_idx_spec(1) [OF ne] ne show "\<exists>b \<in> set (lc_backends (fst (as_pick (LeastConnections_Next s k)))).
      snd (as_pick (LeastConnections_Next s k)) = Inr (Some b)"
    by (auto simp: LeastConnections_Next_def Let_def set_update_memI)
next
  fix s :: least_connections and b
  assume "distinct (ids (lc_backends s))"
  then show "Id ` set (lc_backends (fst (LeastConnections_Register s b, None))) =
      insert (Id b) (Id ` set (lc_backends s))"
    by (auto simp: LeastConnections_Register_def simp flip: set_map)
qed (auto simp: NewLeastConnectionsBalancer_def LeastConnections_Register_def
  LeastConnections_Unregister_def LeastConnections_Size_def LeastConnections_Next_def Let_def
  simp flip: set_map)

interpretation ad: balancer
  "[] :: 'a backend_scheme list"
  "\<lambda>(obs :: (nat \<Rightarrow> nat \<Rightarrow> nat) \<times> (nat \<Rightarrow> 'l::linorder)) s k. as_pick (s, Adaptive_Next obs s k)"
  "\<lambda>s b. (Adaptive_Register s b, None)" Adaptive_Unregister Adaptive_Size
  "\<lambda>s. s" Id "\<lambda>s. distinct (ids s)" "\<lambda>_ _. True" "\<lambda>_ _. True"
  by unfold_locales
    (auto simp: Adaptive_Next_def Adaptive_Register_def Adaptive_Unregister_def Adaptive_Size_def
      intro!: nth_mem adaptive_in_range(1) [simplified] split: prod.splits simp flip: set_map)

lemma RoundRobin_calls:
  assumes "rr_backends s \<noteq> []"
  shows "calls n (\<lambda>s. RoundRobin_Next s k) s =
    (s\<lparr>rr_current := (if n = 0 then rr_current s else (rr_current s + n) mod length (rr_backends s))\<rparr>,
     map (\<lambda>i. Inr (rr_backends s ! ((rr_current s + i) mod length (rr_backends s)))) [0..<n])"
proof (induction n)
  case (Suc n)
  then show ?case
    using assms by (auto simp: RoundRobin_Next_def Let_def mod_Suc_eq mod_add_left_eq)
qed simp

section \<open>Properties of the list balancers\<close>

text \<open>
  Fairness of round robin: over any \<open>size\<close> successive calls of \<open>Next\<close> the balancer hands
  out every registered backend exactly once, in list order starting at the stored position
  (also when \<open>Unregister\<close> left that position past the end), and then is back where it was.
\<close>

lemma RoundRobin_cycle:
  assumes "rr_backends s \<noteq> []"
  shows "snd (calls (length (rr_backends s)) (\<lambda>s. RoundRobin_Next s k) s) =
      map Inr (rotate (rr_current s) (rr_backends s)) \<and>
    rr_current (fst (calls (length (rr_backends s)) (\<lambda>s. RoundRobin_Next s k) s)) =
      rr_current s mod length (rr_backends s)"
proof -
  have "rotate (rr_current s) (rr_backends s) =
      map (\<lambda>i. rr_backends s ! ((rr_current s + i) mod length (rr_backends s)))
        [0..<length (rr_backends s)]"
    using assms by (intro nth_equalityI) (simp_all add: nth_rotate)
  with assms show ?thesis by (simp add: RoundRobin_calls)
qed

text \<open>
  Least connections: with at least one backend \<open>Next\<close> returns the first backend whose count
  is minimal; with \<open>updateCount\<close> that backend's count, and no other, grows by one, otherwise
  nothing changes.
\<close>

lemma LeastConnections_Next_least:
  assumes "lc_backends s \<noteq> []"
  shows "\<exists>i < length (lc_backends s).
    (\<forall>j < length (lc_backends s). Count (lc_backends s ! i) \<le> Count (lc_backends s ! j)) \<and>
    (\<forall>j < i. Count (lc_backends s ! i) < Count (lc_backends s ! j)) \<and>
    (let b = (lc_backends s ! i)
               \<lparr>Count := Count (lc_backends s ! i) + (if lc_updateCount s then 1 else 0)\<rparr>
     in LeastConnections_Next s k = (s\<lparr>lc_backends := (lc_backends s)[i := b]\<rparr>, Inr b))"
proof -
  note i = least_idx_spec [OF assms]
  have "LeastConnections_Next s k =
      (let b = (lc_backends s ! least_idx (lc_backends s))
               \<lparr>Count := Count (lc_backends s ! least_idx (lc_backends s)) + (if lc_updateCount s then 1 else 0)\<rparr>
       in (s\<lparr>lc_backends := (lc_backends s)[least_idx (lc_backends s) := b]\<rparr>, Inr b))"
    using assms by (auto simp: LeastConnections_Next_def Let_def)
  with i show ?thesis by (intro exI [of _ "least_idx (lc_backends s)"]) (simp add: Let_def)
qed

text \<open>
  The adaptive balancer is total and picks a least loaded backend: whatever the single
  reads of \<open>Load()\<close> returned and whatever was drawn, with at least one backend \<open>Next\<close> returns a
  registered backend, and its own reading is minimal among all readings.
\<close>

lemma Adaptive_Next_least:
  assumes "bs \<noteq> []"
  shows "\<exists>i < length bs. Adaptive_Next (rnd, load) bs k = Inr (bs ! i) \<and>
    (\<forall>j < length bs. load i \<le> load j)"
proof (cases "length bs = 1")
  case True
  then show ?thesis by (intro exI [of _ 0]) (auto simp: Adaptive_Next_def)
next
  case False
  with assms adaptive_in_range [OF assms, where rnd = rnd and load = load] show ?thesis
    by (intro exI [of _ "adaptive_scan rnd load 1 (length bs - 1) (load 0) 0 1"])
      (auto simp: Adaptive_Next_def)
qed


end
