(* ===== verification/Balancer_Weighted.thy ===== *)
theory Balancer_Weighted
  imports Balancer_List
begin

text \<open>
  The weighted balancers: \<open>weighted_round_robin.go\<close> and \<open>weighted_random.go\<close> of
  \<open>internal/balancer\<close>. Both are shown to implement the same abstract schedule, the list in which
  every backend is repeated as often as its weight says.
\<close>

text \<open>Go's remainder: the sign of the dividend.\<close>

definition go_rem :: "int \<Rightarrow> int \<Rightarrow> int" where
  "go_rem a b = sgn a * (\<bar>a\<bar> mod \<bar>b\<bar>)"

section \<open>WeightedRoundRobinBalancer\<close>

record weighted_round_robin =
  wrr_backends :: "weight_backend list"
  wrr_currentWeight :: int
  wrr_totalWeight :: int

definition NewWeightedRoundRobinBalancer :: weighted_round_robin where
  "NewWeightedRoundRobinBalancer =
     \<lparr>wrr_backends = [], wrr_currentWeight = 0, wrr_totalWeight = 0\<rparr>"

text \<open>The loop of \<open>Next\<close>: the first backend whose weight exceeds what is left of \<open>current\<close>.\<close>

fun wrr_scan :: "int \<Rightarrow> weight_backend list \<Rightarrow> weight_backend option" where
  "wrr_scan current [] = None"
| "wrr_scan current (b # bs) =
     (if current < Weight b then Some b else wrr_scan (current - Weight b) bs)"

definition WeightedRoundRobin_Next ::
  "weighted_round_robin \<Rightarrow> string \<Rightarrow> weighted_round_robin \<times> (bal_err + weight_backend)" where
  "WeightedRoundRobin_Next s key =
     (let size = length (wrr_backends s)
      in if size = 0 then (s, Inl NoBackends)
         else if size = 1 then (s, Inr (wrr_backends s ! 0))
         else if wrr_totalWeight s = 0 then (s, Inl DivideByZero)
         else let cur = go_rem (wrr_currentWeight s + 1) (wrr_totalWeight s)
              in (s\<lparr>wrr_currentWeight := cur\<rparr>,
                  case wrr_scan cur (wrr_backends s) of
                    Some b \<Rightarrow> Inr b
                  | None \<Rightarrow> Inr (wrr_backends s ! 0)))"

text \<open>The weight stored under an identifier, and \<open>SetWeight\<close> on that backend.\<close>

fun find_id :: "string \<Rightarrow> 'a backend_scheme list \<Rightarrow> 'a backend_scheme option" where
  "find_id i [] = None"
| "find_id i (b # bs) = (if Id b = i then Some b else find_id i bs)"

fun set_weight_id :: "string \<Rightarrow> int \<Rightarrow> weight_backend list \<Rightarrow> weight_backend list" where
  "set_weight_id i w [] = []"
| "set_weight_id i w (b # bs) =
     (if Id b = i then b\<lparr>Weight := w\<rparr> # bs else b # set_weight_id i w bs)"

definition WeightedRoundRobin_Register ::
  "weighted_round_robin \<Rightarrow> weight_backend \<Rightarrow> weighted_round_robin \<times> bal_err option" where
  "WeightedRoundRobin_Register s b =
     (if Weight b \<le> 0 then (s, Some (InvalidWeight (Id b) (Weight b)))
      else case find_id (Id b) (wrr_backends s) of
             Some back \<Rightarrow>
               (if Weight back \<noteq> Weight b
                then s\<lparr>wrr_totalWeight := wrr_totalWeight s - (Weight back - Weight b),
                       wrr_backends := set_weight_id (Id b) (Weight b) (wrr_backends s)\<rparr>
                else s, None)
           | None \<Rightarrow>
               (s\<lparr>wrr_backends := wrr_backends s @ [b],
                  wrr_totalWeight := wrr_totalWeight s + Weight b\<rparr>, None))"

definition WeightedRoundRobin_Unregister ::
  "weighted_round_robin \<Rightarrow> weight_backend \<Rightarrow> weighted_round_robin" where
  "WeightedRoundRobin_Unregister s b =
     (case find_id (Id b) (wrr_backends s) of
        None \<Rightarrow> s
      | Some back \<Rightarrow> s\<lparr>wrr_backends := remove_id (Id b) (wrr_backends s),
                       wrr_totalWeight := wrr_totalWeight s - Weight back\<rparr>)"

definition WeightedRoundRobin_Size :: "weighted_round_robin \<Rightarrow> int" where
  "WeightedRoundRobin_Size s = int (length (wrr_backends s))"

definition WeightedRoundRobin_Iterate :: "weighted_round_robin \<Rightarrow> (weight_backend \<Rightarrow> bool) \<Rightarrow> weight_backend list" where
  "WeightedRoundRobin_Iterate s f = iterate_visits f (wrr_backends s)"

section \<open>WeightedRandomBalancer\<close>

record weighted_random =
  wr_backends :: "weight_backend list"
  wr_preSum :: "int list"

definition NewWeightedRandomBalancer :: weighted_random where
  "NewWeightedRandomBalancer = \<lparr>wr_backends = [], wr_preSum = []\<rparr>"

fun preSum_from :: "int \<Rightarrow> weight_backend list \<Rightarrow> int list" where
  "preSum_from acc [] = [acc]"
| "preSum_from acc (b # bs) = acc # preSum_from (acc + Weight b) bs"

definition buildPreSum :: "weighted_random \<Rightarrow> weighted_random" where
  "buildPreSum s = s\<lparr>wr_preSum := preSum_from 0 (wr_backends s)\<rparr>"

text \<open>\<open>Next\<close>; \<open>r\<close> is the outcome of \<open>rand.Intn(preSum[size])\<close>.\<close>

definition WeightedRandom_Next :: "int \<Rightarrow> weighted_random \<Rightarrow> string \<Rightarrow> bal_err + weight_backend" where
  "WeightedRandom_Next r s key =
     (let size = length (wr_backends s); pre = wr_preSum s
      in if size = 0 then Inl NoBackends
         else if pre ! size \<le> 0 then Inl (TotalWeightNotPositive (pre ! size))
         else case find (\<lambda>i. pre ! i \<le> pre ! (i - 1)) [1..<size + 1] of
                Some i \<Rightarrow> Inl (MutatedWeight (Id (wr_backends s ! (i - 1)))
                                (Weight (wr_backends s ! (i - 1))) (pre ! (i - 1)) (pre ! i))
              | None \<Rightarrow> (let index = sort_Search (length pre) (\<lambda>i. pre ! i > r)
                        in Inr (wr_backends s ! (index - 1))))"

definition WeightedRandom_Register ::
  "weighted_random \<Rightarrow> weight_backend \<Rightarrow> weighted_random \<times> bal_err option" where
  "WeightedRandom_Register s b =
     (if Weight b \<le> 0 then (s, Some (InvalidWeight (Id b) (Weight b)))
      else if has_id (Id b) (wr_backends s) then (s, None)
      else (buildPreSum (s\<lparr>wr_backends := wr_backends s @ [b]\<rparr>), None))"

definition WeightedRandom_Unregister :: "weighted_random \<Rightarrow> weight_backend \<Rightarrow> weighted_random" where
  "WeightedRandom_Unregister s b =
     buildPreSum (s\<lparr>wr_backends := remove_id (Id b) (wr_backends s)\<rparr>)"

definition WeightedRandom_Size :: "weighted_random \<Rightarrow> int" where
  "WeightedRandom_Size s = int (length (wr_backends s))"

definition WeightedRandom_Iterate :: "weighted_random \<Rightarrow> (weight_backend \<Rightarrow> bool) \<Rightarrow> weight_backend list" where
  "WeightedRandom_Iterate s f = iterate_visits f (wr_backends s)"

section \<open>The abstract schedule\<close>

definition schedule :: "weight_backend list \<Rightarrow> weight_backend list" where
  "schedule bs = concat (map (\<lambda>b. replicate (nat (Weight b)) b) bs)"

abbreviation total :: "weight_backend list \<Rightarrow> int" where
  "total bs \<equiv> sum_list (map Weight bs)"

lemma schedule_simps [simp]:
  "schedule [] = []" "schedule (b # bs) = replicate (nat (Weight b)) b @ schedule bs"
  by (simp_all add: schedule_def)

lemma length_schedule:
  "\<forall>b \<in> set bs. 0 < Weight b \<Longrightarrow> int (length (schedule bs)) = total bs"
  by (induction bs) auto

lemma total_nonneg: "\<forall>b \<in> set bs. 0 < Weight b \<Longrightarrow> 0 \<le> total bs"
  by (induction bs) auto

lemma total_pos: "\<forall>b \<in> set bs. 0 < Weight b \<Longrightarrow> bs \<noteq> [] \<Longrightarrow> 0 < total bs"
  by (cases bs) (auto intro: add_pos_nonneg total_nonneg)

lemma set_schedule: "\<forall>b \<in> set bs. 0 < Weight b \<Longrightarrow> set (schedule bs) = set bs"
  by (induction bs) auto

lemma count_schedule:
  "distinct bs \<Longrightarrow> b \<in> set bs \<Longrightarrow> count_list (schedule bs) b = nat (Weight b)"
proof (induction bs)
  case (Cons a bs)
  have other: "count_list (schedule bs) a = 0"
    using Cons.prems(1) by (intro count_list_0_iff [THEN iffD2]) (auto simp: schedule_def)
  have "count_list (replicate n x) y = (if x = y then n else 0)" for n and x y :: weight_backend
    by (induction n) auto
  with Cons other show ?case by auto
qed simp

lemma wrr_scan_schedule:
  assumes "\<forall>b \<in> set bs. 0 < Weight b" and "0 \<le> r" and "r < total bs"
  shows "wrr_scan r bs = Some (schedule bs ! nat r)"
  using assms
proof (induction bs arbitrary: r)
  case (Cons b bs)
  show ?case
  proof (cases "r < Weight b")
    case True
    with Cons.prems show ?thesis by (simp add: nth_append)
  next
    case False
    with Cons.IH [of "r - Weight b"] Cons.prems
    have "wrr_scan (r - Weight b) bs = Some (schedule bs ! nat (r - Weight b))" by auto
    moreover have "nat (r - Weight b) = nat r - nat (Weight b)"
      using Cons.prems False by (simp add: nat_diff_distrib')
    ultimately show ?thesis using False Cons.prems by (simp add: nth_append)
  qed
qed simp

section \<open>Weighted round robin keeps its bookkeeping\<close>

definition wrr_inv :: "weighted_round_robin \<Rightarrow> bool" where
  "wrr_inv s \<longleftrightarrow> distinct (ids (wrr_backends s)) \<and> (\<forall>b \<in> set (wrr_backends s). 0 < Weight b) \<and>
     wrr_totalWeight s = total (wrr_backends s) \<and> 0 \<le> wrr_currentWeight s"

lemma wrr_new [simp]:
  "wrr_inv NewWeightedRoundRobinBalancer" "wrr_backends NewWeightedRoundRobinBalancer = []"
  by (simp_all add: wrr_inv_def NewWeightedRoundRobinBalancer_def)

lemma wrr_inv_distinct: "wrr_inv s \<Longrightarrow> distinct (ids (wrr_backends s))"
  by (simp add: wrr_inv_def)

lemma find_id_None: "find_id i bs = None \<longleftrightarrow> i \<notin> set (ids bs)"
  by (induction bs) auto

lemma find_id_Some: "find_id i bs = Some b \<Longrightarrow> b \<in> set bs \<and> Id b = i"
  by (induction bs) (auto split: if_splits)

lemma find_id_Some_ids: "find_id i bs = Some b \<Longrightarrow> i \<in> set (ids bs)"
  by (induction bs) (auto split: if_splits)

lemma ids_set_weight_id [simp]: "ids (set_weight_id i w bs) = ids bs"
  by (induction bs) auto

lemma total_set_weight_id:
  "find_id i bs = Some b \<Longrightarrow> total (set_weight_id i w bs) = total bs - Weight b + w"
  by (induction bs) (auto split: if_splits)

lemma total_remove_id: "find_id i bs = Some b \<Longrightarrow> total (remove_id i bs) = total bs - Weight b"
  by (induction bs) (auto split: if_splits)

lemma set_set_weight_id:
  "b \<in> set (set_weight_id i w bs) \<Longrightarrow> b \<in> set bs \<or> Weight b = w"
  by (induction bs) (auto split: if_splits)

lemma go_rem_pos: "0 \<le> a \<Longrightarrow> 0 < b \<Longrightarrow> go_rem a b = a mod b"
  by (cases "a = 0") (auto simp: go_rem_def)

lemma wrr_inv_Register [inv_intros]:
  assumes "wrr_inv s" shows "wrr_inv (fst (WeightedRoundRobin_Register s b))"
  using assms
  by (auto simp: wrr_inv_def WeightedRoundRobin_Register_def total_set_weight_id find_id_None
      dest: set_set_weight_id split: option.splits simp flip: set_map)

lemma wrr_inv_Unregister [inv_intros]:
  assumes "wrr_inv s" shows "wrr_inv (WeightedRoundRobin_Unregister s b)"
  using assms set_remove_id_subset [of "Id b" "wrr_backends s"]
  by (auto simp: wrr_inv_def WeightedRoundRobin_Unregister_def total_remove_id split: option.splits)

lemma WeightedRoundRobin_Next_many:
  assumes "wrr_inv s" and "2 \<le> length (wrr_backends s)"
  defines "c \<equiv> (wrr_currentWeight s + 1) mod total (wrr_backends s)"
  shows "WeightedRoundRobin_Next s k =
    (s\<lparr>wrr_currentWeight := c\<rparr>, Inr (schedule (wrr_backends s) ! nat c))"
proof -
  have w: "\<forall>b \<in> set (wrr_backends s). 0 < Weight b" "0 \<le> wrr_currentWeight s"
    "wrr_totalWeight s = total (wrr_backends s)"
    using assms(1) by (auto simp: wrr_inv_def)
  have "wrr_backends s \<noteq> []" using assms(2) by force
  then have t: "0 < total (wrr_backends s)" by (rule total_pos [OF w(1)])
  then have "wrr_scan c (wrr_backends s) = Some (schedule (wrr_backends s) ! nat c)"
    unfolding c_def by (intro wrr_scan_schedule w) auto
  with assms(2) w t show ?thesis
    by (auto simp: WeightedRoundRobin_Next_def Let_def go_rem_pos c_def)
qed

lemma WeightedRoundRobin_Next_one:
  "length (wrr_backends s) = 1 \<Longrightarrow> WeightedRoundRobin_Next s k = (s, Inr (wrr_backends s ! 0))"
  by (simp add: WeightedRoundRobin_Next_def)

lemma wrr_inv_Next [inv_intros]:
  assumes "wrr_inv s" shows "wrr_inv (fst (WeightedRoundRobin_Next s k))"
proof -
  consider "length (wrr_backends s) = 0" | "length (wrr_backends s) = 1"
    | "2 \<le> length (wrr_backends s)" by linarith
  then show ?thesis
  proof cases
    case 3
    then have "0 < total (wrr_backends s)"
      using assms by (intro total_pos) (auto simp: wrr_inv_def)
    with WeightedRoundRobin_Next_many [OF assms 3] assms show ?thesis by (simp add: wrr_inv_def)
  qed (use assms in \<open>simp_all add: WeightedRoundRobin_Next_def\<close>)
qed

lemma WeightedRoundRobin_Next_backends [simp]:
  "wrr_backends (fst (WeightedRoundRobin_Next s k)) = wrr_backends s"
  by (simp add: WeightedRoundRobin_Next_def Let_def)

lemma WeightedRoundRobin_Next_some:
  assumes "wrr_inv s" "wrr_backends s \<noteq> []"
  shows "\<exists>b \<in> set (wrr_backends s). snd (WeightedRoundRobin_Next s k) = Inr b"
proof (cases "length (wrr_backends s) = 1")
  case True
  then show ?thesis by (simp add: WeightedRoundRobin_Next_one)
next
  case False
  with assms(2) have two: "2 \<le> length (wrr_backends s)" by (cases "wrr_backends s") (auto simp: Suc_le_eq)
  let ?c = "(wrr_currentWeight s + 1) mod total (wrr_backends s)"
  have w: "\<forall>b \<in> set (wrr_backends s). 0 < Weight b" using assms(1) by (simp add: wrr_inv_def)
  have "0 \<le> ?c" "?c < total (wrr_backends s)" using total_pos [OF w assms(2)] by auto
  then have "nat ?c < length (schedule (wrr_backends s))"
    using length_schedule [OF w] by linarith
  then have "schedule (wrr_backends s) ! nat ?c \<in> set (wrr_backends s)"
    using set_schedule [OF w] nth_mem by blast
  with WeightedRoundRobin_Next_many [OF assms(1) two] show ?thesis by simp
qed

interpretation wrr: balancer
  NewWeightedRoundRobinBalancer "\<lambda>(_ :: unit) s k. as_pick (WeightedRoundRobin_Next s k)"
  WeightedRoundRobin_Register WeightedRoundRobin_Unregister WeightedRoundRobin_Size
  wrr_backends Id wrr_inv "\<lambda>_ _. True" "\<lambda>_ _. True"
proof unfold_locales
  fix s b
  assume "wrr_inv s" "snd (WeightedRoundRobin_Register s b) = None"
  then show "Id ` set (wrr_backends (fst (WeightedRoundRobin_Register s b))) =
      insert (Id b) (Id ` set (wrr_backends s))"
    by (auto simp: WeightedRoundRobin_Register_def simp flip: set_map
        dest: find_id_Some_ids split: option.splits if_splits)
next
  fix s :: weighted_round_robin and b
  assume "wrr_inv s"
  then show "Id ` set (wrr_backends (WeightedRoundRobin_Unregister s b)) =
      Id ` set (wrr_backends s) - {Id b}"
    by (auto simp: WeightedRoundRobin_Unregister_def wrr_inv_def find_id_None simp flip: set_map
        split: option.splits)
next
  fix s k
  assume "wrr_inv s" "wrr_backends s \<noteq> []"
  from WeightedRoundRobin_Next_some [OF this, of k]
  show "\<exists>b \<in> set (wrr_backends (fst (as_pick (WeightedRoundRobin_Next s k)))).
      snd (as_pick (WeightedRoundRobin_Next s k)) = Inr (Some b)"
    by auto
next
  fix s b e
  assume "snd (WeightedRoundRobin_Register s b) = Some e"
  then show "fst (WeightedRoundRobin_Register s b) = s"
    by (auto simp: WeightedRoundRobin_Register_def split: option.splits if_splits)
next
  fix s :: weighted_round_robin and k
  assume "wrr_backends s = []"
  then show "\<exists>e. snd (as_pick (WeightedRoundRobin_Next s k)) = Inl e"
    by (simp add: WeightedRoundRobin_Next_def)
qed (auto simp: WeightedRoundRobin_Size_def intro: inv_intros dest: wrr_inv_distinct)

lemma WeightedRoundRobin_calls:
  assumes "wrr_inv s" and "2 \<le> length (wrr_backends s)"
  shows "calls n (\<lambda>s. WeightedRoundRobin_Next s k) s =
    (s\<lparr>wrr_currentWeight :=
        (if n = 0 then wrr_currentWeight s
         else (wrr_currentWeight s + int n) mod total (wrr_backends s))\<rparr>,
     map (\<lambda>i. Inr (schedule (wrr_backends s) !
        nat ((wrr_currentWeight s + 1 + int i) mod total (wrr_backends s)))) [0..<n])"
proof (induction n)
  case (Suc n)
  let ?s = "fst (calls n (\<lambda>s. WeightedRoundRobin_Next s k) s)"
  have "wrr_inv ?s" using assms(1) by (rule calls_invariant) (rule wrr_inv_Next)
  moreover have "2 \<le> length (wrr_backends ?s)" using Suc assms(2) by simp
  ultimately have "WeightedRoundRobin_Next ?s k =
    (?s\<lparr>wrr_currentWeight := (wrr_currentWeight ?s + 1) mod total (wrr_backends ?s)\<rparr>,
     Inr (schedule (wrr_backends ?s) ! nat ((wrr_currentWeight ?s + 1) mod total (wrr_backends ?s))))"
    by (rule WeightedRoundRobin_Next_many)
  with Suc show ?case
    by (cases "n = 0") (simp_all add: mod_add_left_eq mod_add_right_eq ac_simps)
qed simp

lemma WeightedRoundRobin_calls_one:
  assumes "length (wrr_backends s) = 1"
  shows "calls n (\<lambda>s. WeightedRoundRobin_Next s k) s = (s, replicate n (Inr (wrr_backends s ! 0)))"
  by (induction n) (simp_all add: WeightedRoundRobin_Next_one [OF assms] replicate_append_same)

lemma rotate_replicate: "rotate n (replicate m x) = replicate m x"
  by (intro nth_equalityI) (simp_all add: nth_rotate)

lemma WeightedRoundRobin_cycle_inv:
  assumes "wrr_inv s" and "wrr_backends s \<noteq> []"
  shows "snd (calls (nat (wrr_totalWeight s)) (\<lambda>s. WeightedRoundRobin_Next s k) s) =
    map Inr (rotate (nat (wrr_currentWeight s + 1)) (schedule (wrr_backends s)))"
proof (cases "length (wrr_backends s) = 1")
  case True
  then obtain b where "wrr_backends s = [b]" by (cases "wrr_backends s") auto
  with True assms(1) WeightedRoundRobin_calls_one [OF True] show ?thesis
    by (simp add: wrr_inv_def rotate_replicate)
next
  case False
  with assms(2) have two: "2 \<le> length (wrr_backends s)"
    by (cases "wrr_backends s") (auto simp: Suc_le_eq)
  have w: "\<forall>b \<in> set (wrr_backends s). 0 < Weight b" "0 \<le> wrr_currentWeight s"
    "wrr_totalWeight s = total (wrr_backends s)"
    using assms(1) by (auto simp: wrr_inv_def)
  have len: "total (wrr_backends s) = int (length (schedule (wrr_backends s)))"
    using length_schedule [OF w(1)] by simp
  have idx: "nat ((wrr_currentWeight s + 1 + int i) mod int n) =
      (nat (wrr_currentWeight s + 1) + i) mod n" for i n
    using w(2) by (simp add: nat_mod_distrib nat_add_distrib)
  have "snd (calls (nat (wrr_totalWeight s)) (\<lambda>s. WeightedRoundRobin_Next s k) s) =
      map (\<lambda>i. Inr (schedule (wrr_backends s) ! ((nat (wrr_currentWeight s + 1) + i) mod
        length (schedule (wrr_backends s))))) [0..<length (schedule (wrr_backends s))]"
    by (simp only: WeightedRoundRobin_calls [OF assms(1) two] w(3) len idx nat_int snd_conv)
  also have "\<dots> = map Inr (rotate (nat (wrr_currentWeight s + 1)) (schedule (wrr_backends s)))"
    by (intro nth_equalityI) (simp_all add: nth_rotate)
  finally show ?thesis .
qed

lemma count_list_rotate: "count_list (rotate n xs) x = count_list xs x"
  by (metis add.commute append_take_drop_id count_list_append rotate_drop_take)

lemma count_list_map_Inr: "count_list (map Inr xs) (Inr x) = count_list xs x"
  by (induction xs) auto

section \<open>Weighted random keeps its prefix sums\<close>

definition wr_inv :: "weighted_random \<Rightarrow> bool" where
  "wr_inv s \<longleftrightarrow> distinct (ids (wr_backends s)) \<and> (\<forall>b \<in> set (wr_backends s). 0 < Weight b) \<and>
     (wr_backends s \<noteq> [] \<longrightarrow> wr_preSum s = preSum_from 0 (wr_backends s))"

lemma wr_new [simp]:
  "wr_inv NewWeightedRandomBalancer" "wr_backends NewWeightedRandomBalancer = []"
  by (simp_all add: wr_inv_def NewWeightedRandomBalancer_def)

lemma wr_backends_buildPreSum [simp]: "wr_backends (buildPreSum s) = wr_backends s"
  by (simp add: buildPreSum_def)

lemma wr_inv_Register [inv_intros]:
  assumes "wr_inv s" shows "wr_inv (fst (WeightedRandom_Register s b))"
  using assms by (auto simp: wr_inv_def WeightedRandom_Register_def buildPreSum_def)

lemma wr_inv_Unregister [inv_intros]:
  assumes "wr_inv s" shows "wr_inv (WeightedRandom_Unregister s b)"
  using assms set_remove_id_subset [of "Id b" "wr_backends s"]
  by (auto simp: wr_inv_def WeightedRandom_Unregister_def buildPreSum_def)

lemma length_preSum_from [simp]: "length (preSum_from acc bs) = Suc (length bs)"
  by (induction bs arbitrary: acc) auto

lemma preSum_from_nth: "i \<le> length bs \<Longrightarrow> preSum_from acc bs ! i = acc + total (take i bs)"
  by (induction bs arbitrary: acc i) (auto simp: nth_Cons split: nat.split)

lemma total_take_mono:
  assumes "\<forall>b \<in> set bs. 0 < Weight b" and "i \<le> j"
  shows "total (take i bs) \<le> total (take j bs)"
proof -
  have "take j bs = take i bs @ take (j - i) (drop i bs)"
    using assms(2) by (metis le_add_diff_inverse take_add)
  moreover have "0 \<le> total (take (j - i) (drop i bs))"
    using assms(1) by (intro total_nonneg) (auto dest: in_set_takeD in_set_dropD)
  ultimately show ?thesis by simp
qed

lemma total_take_Suc: "i < length bs \<Longrightarrow> total (take (Suc i) bs) = total (take i bs) + Weight (bs ! i)"
  by (simp add: take_Suc_conv_app_nth)

lemma schedule_append: "schedule (xs @ ys) = schedule xs @ schedule ys"
  by (simp add: schedule_def)

text \<open>The slot of the schedule that \<open>r\<close> falls into is the backend whose prefix sums enclose it.\<close>

lemma schedule_slot:
  assumes "\<forall>b \<in> set bs. 0 < Weight b" and "0 \<le> r" and "r < total bs"
  obtains i where "i < length bs" "total (take i bs) \<le> r" "r < total (take (Suc i) bs)"
    "schedule bs ! nat r = bs ! i"
  using assms
proof (induction bs arbitrary: r thesis)
  case (Cons b bs)
  show ?case
  proof (cases "r < Weight b")
    case True
    with Cons.prems show ?thesis by (intro Cons.prems(1) [of 0]) (simp_all add: nth_append)
  next
    case False
    have "0 \<le> r - Weight b" "r - Weight b < total bs" "\<forall>b \<in> set bs. 0 < Weight b"
      using False Cons.prems by auto
    then obtain i where i: "i < length bs" "total (take i bs) \<le> r - Weight b"
      "r - Weight b < total (take (Suc i) bs)" "schedule bs ! nat (r - Weight b) = bs ! i"
      using Cons.IH [of "r - Weight b"] by blast
    have "nat (r - Weight b) = nat r - nat (Weight b)"
      using Cons.prems False by (simp add: nat_diff_distrib')
    with i False Cons.prems show ?thesis
      by (intro Cons.prems(1) [of "Suc i"]) (simp_all add: nth_append)
  qed
qed simp

lemma WeightedRandom_Next_schedule:
  assumes "wr_inv s" and "0 \<le> r" and "r < total (wr_backends s)"
  shows "WeightedRandom_Next r s k = Inr (schedule (wr_backends s) ! nat r)"
proof -
  let ?bs = "wr_backends s"
  let ?pre = "preSum_from 0 ?bs"
  have w: "\<forall>b \<in> set ?bs. 0 < Weight b" and ne: "?bs \<noteq> []"
    using assms by (auto simp: wr_inv_def)
  then have pre: "wr_preSum s = ?pre" using assms(1) by (simp add: wr_inv_def)
  have nth: "?pre ! i = total (take i ?bs)" if "i \<le> length ?bs" for i
    using that by (simp add: preSum_from_nth)
  obtain i where i: "i < length ?bs" "total (take i ?bs) \<le> r" "r < total (take (Suc i) ?bs)"
    "schedule ?bs ! nat r = ?bs ! i"
    using schedule_slot [OF w assms(2,3)] by blast
  have "sort_Search (length ?pre) (\<lambda>j. ?pre ! j > r) = Suc i"
  proof (rule sort_Search_eqI)
    show "Suc i < length ?pre" "?pre ! Suc i > r" using i by (simp_all add: nth)
    show "\<not> ?pre ! j > r" if "j < Suc i" for j
      using that i total_take_mono [OF w, of j i] by (simp add: nth)
    show "?pre ! b > r" if "a \<le> b" "b < length ?pre" "?pre ! a > r" for a b
      using that total_take_mono [OF w, of a b] by (simp add: nth)
  qed
  moreover have "find (\<lambda>j. ?pre ! j \<le> ?pre ! (j - 1)) [1..<length ?bs + 1] = None"
  proof -
    have "?pre ! (j - 1) < ?pre ! j" if "1 \<le> j" "j \<le> length ?bs" for j
      using that w total_take_Suc [of "j - 1" ?bs] nth_mem [of "j - 1" ?bs] by (simp add: nth)
    then have "\<forall>j \<in> set [1..<length ?bs + 1]. \<not> ?pre ! j \<le> ?pre ! (j - 1)"
      by (simp add: not_le del: upt_Suc)
    then show ?thesis by (simp only: find_None_iff) blast
  qed
  moreover have "0 < ?pre ! length ?bs" using total_pos [OF w ne] by (simp add: nth)
  ultimately show ?thesis
    using ne i(4) by (simp add: WeightedRandom_Next_def Let_def pre not_le del: upt_Suc)
qed

lemma wr_inv_distinct: "wr_inv s \<Longrightarrow> distinct (ids (wr_backends s))"
  by (simp add: wr_inv_def)

lemma wr_ids_Register:
  "snd (WeightedRandom_Register s b) = None \<Longrightarrow>
   Id ` set (wr_backends (fst (WeightedRandom_Register s b))) = insert (Id b) (Id ` set (wr_backends s))"
  by (auto simp: WeightedRandom_Register_def split: if_splits)

lemma wr_Register_err:
  "snd (WeightedRandom_Register s b) = Some e \<Longrightarrow> fst (WeightedRandom_Register s b) = s"
  by (auto simp: WeightedRandom_Register_def split: if_splits)

lemma wr_ids_Unregister:
  "wr_inv s \<Longrightarrow> Id ` set (wr_backends (WeightedRandom_Unregister s b)) = Id ` set (wr_backends s) - {Id b}"
  by (simp add: WeightedRandom_Unregister_def wr_inv_distinct flip: set_map)

definition wr_draw_ok :: "int \<Rightarrow> weighted_random \<Rightarrow> bool" where
  "wr_draw_ok r s \<longleftrightarrow> 0 \<le> r \<and> r < total (wr_backends s)"

interpretation wr: balancer
  NewWeightedRandomBalancer "\<lambda>r s k. as_pick (s, WeightedRandom_Next r s k)"
  WeightedRandom_Register WeightedRandom_Unregister WeightedRandom_Size
  wr_backends Id wr_inv "\<lambda>_ _. True" wr_draw_ok
proof unfold_locales
  fix s r k
  assume s: "wr_inv s" "wr_backends s \<noteq> []" "wr_draw_ok r s"
  then have w: "\<forall>b \<in> set (wr_backends s). 0 < Weight b" by (simp add: wr_inv_def)
  have "nat r < length (schedule (wr_backends s))"
    using s(3) length_schedule [OF w] by (auto simp: wr_draw_ok_def nat_less_iff)
  then have "schedule (wr_backends s) ! nat r \<in> set (wr_backends s)"
    using set_schedule [OF w] nth_mem by blast
  with s show "\<exists>b \<in> set (wr_backends (fst (as_pick (s, WeightedRandom_Next r s k)))).
      snd (as_pick (s, WeightedRandom_Next r s k)) = Inr (Some b)"
    by (simp add: WeightedRandom_Next_schedule wr_draw_ok_def)
next
  fix s :: weighted_random and r k
  assume "wr_backends s = []"
  then show "\<exists>e. snd (as_pick (s, WeightedRandom_Next r s k)) = Inl e"
    by (simp add: WeightedRandom_Next_def)
qed (auto simp: WeightedRandom_Size_def wr_inv_distinct wr_ids_Register wr_ids_Unregister
    wr_Register_err wr_new intro: inv_intros)

section \<open>Properties of the weighted balancers\<close>





end
