(* ===== verification/Balancer_Ring.thy ===== *)
theory Balancer_Ring
  imports Balancer_List
begin

text \<open>
  \<open>ip_hashing.go\<close> of \<open>internal/balancer\<close>: consistent hashing on a ring of virtual nodes, each the
  32-bit FNV-1a hash of a backend identifier followed by a replica number. The ring is refined
  to the list of the virtual nodes of the members, which shows that adding or removing a backend
  moves only the keys that must move, as long as no two virtual nodes collide; the last theorem
  shows what happens when they do.
\<close>

unbundle bit_operations_syntax

section \<open>The code\<close>

text \<open>\<open>fnv.New32a\<close>, \<open>Write\<close> and \<open>Sum32\<close> of the standard library.\<close>

definition fnv_offset32 :: uint32 where "fnv_offset32 = 2166136261"
definition fnv_prime32 :: uint32 where "fnv_prime32 = 16777619"

definition hashKey :: "string \<Rightarrow> uint32" where
  "hashKey key = fold (\<lambda>c h. (h XOR ucast c) * fnv_prime32) (bytes_of key) fnv_offset32"

record 'b ip_hashing =
  ih_circle :: "(uint32, 'b) gomap"
  ih_replicas :: int
  ih_size :: int
  ih_sortedHashList :: "uint32 list"
  ih_members :: "(string, 'b) gomap"

definition NewIPHashingBalancer :: "int \<Rightarrow> 'b ip_hashing" where
  "NewIPHashingBalancer replicas =
     \<lparr>ih_circle = [], ih_replicas = (if replicas < 3 then 3 else replicas), ih_size = 0,
      ih_sortedHashList = [], ih_members = []\<rparr>"

definition ring_search :: "uint32 list \<Rightarrow> uint32 \<Rightarrow> nat" where
  "ring_search hs hash = sort_Search (length hs) (\<lambda>i. hs ! i \<ge> hash)"

text \<open>Reading the circle at a key that it does not hold gives the nil backend, \<open>None\<close>.\<close>

definition IPHashing_Next :: "'b ip_hashing \<Rightarrow> string \<Rightarrow> bal_err + 'b option" where
  "IPHashing_Next s key =
     (if ih_circle s = [] then Inl NoReplicas
      else let hs = ih_sortedHashList s;
               index = ring_search hs (hashKey key);
               index = (if index = length hs then 0 else index)
           in Inr (map_of (ih_circle s) (hs ! index)))"

definition replica_hash :: "string \<Rightarrow> nat \<Rightarrow> uint32" where
  "replica_hash i j = hashKey (i @ itoa j)"

definition replica_hashes :: "int \<Rightarrow> string \<Rightarrow> uint32 list" where
  "replica_hashes n i = map (replica_hash i) [0..<nat n]"

definition IPHashing_Register :: "'a backend_scheme ip_hashing \<Rightarrow> 'a backend_scheme \<Rightarrow> 'a backend_scheme ip_hashing" where
  "IPHashing_Register s b =
     (if map_of (ih_members s) (Id b) \<noteq> None then s
      else let hashes = replica_hashes (ih_replicas s) (Id b)
           in s\<lparr>ih_circle := fold (\<lambda>h c. gput h b c) hashes (ih_circle s),
                ih_sortedHashList := sort (ih_sortedHashList s @ hashes),
                ih_members := gput (Id b) b (ih_members s),
                ih_size := ih_size s + 1\<rparr>)"

definition ring_remove :: "uint32 list \<Rightarrow> uint32 \<Rightarrow> uint32 list" where
  "ring_remove hs hash =
     (let index = ring_search hs hash
      in if index < length hs \<and> hs ! index = hash
         then take index hs @ drop (index + 1) hs else hs)"

definition IPHashing_Unregister :: "'a backend_scheme ip_hashing \<Rightarrow> 'a backend_scheme \<Rightarrow> 'a backend_scheme ip_hashing" where
  "IPHashing_Unregister s b =
     (if map_of (ih_members s) (Id b) = None then s
      else let hashes = replica_hashes (ih_replicas s) (Id b)
           in s\<lparr>ih_circle := fold gdel hashes (ih_circle s),
                ih_sortedHashList := fold (\<lambda>h hs. ring_remove hs h) hashes (ih_sortedHashList s),
                ih_members := gdel (Id b) (ih_members s),
                ih_size := ih_size s - 1\<rparr>)"

definition IPHashing_Size :: "'b ip_hashing \<Rightarrow> int" where
  "IPHashing_Size s = ih_size s"

text \<open>\<open>Iterate\<close> ranges over the map \<open>members\<close> in an order \<open>it\<close> the runtime chooses.\<close>

definition IPHashing_Iterate ::
  "(string list \<Rightarrow> string list) \<Rightarrow> ('b \<Rightarrow> bool) \<Rightarrow> 'b ip_hashing \<Rightarrow> 'b list" where
  "IPHashing_Iterate it f s =
     iterate_visits f (map (\<lambda>i. the (map_of (ih_members s) i)) (it (keys_of (ih_members s))))"

section \<open>The ring as a list of virtual nodes\<close>

definition vnodes :: "int \<Rightarrow> (string \<times> 'b) list \<Rightarrow> (uint32 \<times> 'b) list" where
  "vnodes n ms = concat (map (\<lambda>(i, b). map (\<lambda>h. (h, b)) (replica_hashes n i)) ms)"

definition collision_free :: "int \<Rightarrow> string list \<Rightarrow> bool" where
  "collision_free n I \<longleftrightarrow> distinct (concat (map (replica_hashes n) I))"

lemma keys_vnodes: "map fst (vnodes n ms) = concat (map (replica_hashes n) (map fst ms))"
  by (induction ms) (auto simp: vnodes_def comp_def)

lemma vnodes_simps [simp]:
  "vnodes n [] = []"
  "vnodes n ((i, b) # ms) = map (\<lambda>h. (h, b)) (replica_hashes n i) @ vnodes n ms"
  "vnodes n (ms @ ms') = vnodes n ms @ vnodes n ms'"
  by (simp_all add: vnodes_def)

definition ring_inv :: "'a backend_scheme ip_hashing \<Rightarrow> bool" where
  "ring_inv s \<longleftrightarrow> 3 \<le> ih_replicas s \<and> gomap_ok (ih_members s) \<and>
     (\<forall>(i, b) \<in> set (ih_members s). Id b = i) \<and> ih_size s = int (length (ih_members s)) \<and>
     collision_free (ih_replicas s) (keys_of (ih_members s)) \<and>
     ih_circle s = vnodes (ih_replicas s) (ih_members s) \<and>
     ih_sortedHashList s = sort (map fst (ih_circle s))"

section \<open>Searching the sorted list\<close>

lemma ring_search_spec:
  assumes "sorted hs"
  shows "ring_search hs h \<le> length hs" and "\<And>k. k < ring_search hs h \<Longrightarrow> hs ! k < h"
    and "\<And>k. ring_search hs h \<le> k \<Longrightarrow> k < length hs \<Longrightarrow> h \<le> hs ! k"
proof -
  have mono: "h \<le> hs ! b" if "a \<le> b" "b < length hs" "h \<le> hs ! a" for a b
    using that sorted_nth_mono [OF assms, of a b] by simp
  show "ring_search hs h \<le> length hs"
    unfolding ring_search_def using mono by (rule sort_Search_spec(1))
  show "hs ! k < h" if "k < ring_search hs h" for k
    using sort_Search_spec(2) [of "length hs" "\<lambda>i. h \<le> hs ! i", OF mono] that
    by (simp add: ring_search_def not_le)
  show "h \<le> hs ! k" if "ring_search hs h \<le> k" "k < length hs" for k
    using sort_Search_spec(3) [of "length hs" "\<lambda>i. h \<le> hs ! i", OF mono] that
    by (simp add: ring_search_def)
qed

lemma ring_remove_remove1:
  assumes "sorted hs"
  shows "ring_remove hs h = remove1 h hs"
proof -
  let ?i = "ring_search hs h"
  note spec = ring_search_spec [OF assms, where h = h]
  have before: "h \<notin> set (take ?i hs)"
    using spec(2) by (auto simp: in_set_conv_nth)
  moreover have absent: "h \<notin> set (drop ?i hs)" if "\<not> (?i < length hs \<and> hs ! ?i = h)"
  proof
    assume "h \<in> set (drop ?i hs)"
    then obtain k where k: "?i + k < length hs" "hs ! (?i + k) = h"
      by (auto simp: in_set_conv_nth less_diff_conv add.commute)
    with that spec(3) [of ?i] have "h < hs ! ?i" by (auto simp: order_less_le)
    with k sorted_nth_mono [OF assms, of ?i "?i + k"] show False by simp
  qed
  moreover have split: "hs = take ?i hs @ hs ! ?i # drop (?i + 1) hs" if "?i < length hs"
    using that by (simp add: id_take_nth_drop)
  moreover have "remove1 h (xs @ h # ys) = xs @ ys" if "h \<notin> set xs" for xs ys
    using that by (simp add: remove1_append)
  ultimately have "remove1 h hs = take ?i hs @ drop (?i + 1) hs" if "?i < length hs" "hs ! ?i = h"
    using that by metis
  moreover have "remove1 h hs = hs" if "\<not> (?i < length hs \<and> hs ! ?i = h)"
    using absent [OF that] before by (metis Un_iff append_take_drop_id remove1_idem set_append)
  ultimately show ?thesis by (simp add: ring_remove_def Let_def)
qed

lemma fold_ring_remove:
  "sorted hs \<Longrightarrow> fold (\<lambda>h hs. ring_remove hs h) rs hs = fold remove1 rs hs"
  by (induction rs arbitrary: hs) (simp_all add: ring_remove_remove1 sorted_remove1)

lemma mset_fold_remove1: "mset (fold remove1 rs hs) = mset hs - mset rs"
  by (induction rs arbitrary: hs) auto

lemma sorted_fold_remove1: "sorted hs \<Longrightarrow> sorted (fold remove1 rs hs)"
  by (induction rs arbitrary: hs) (simp_all add: sorted_remove1)

lemma fold_gput_append:
  assumes "distinct hs" "set hs \<inter> set (keys_of m) = {}"
  shows "fold (\<lambda>h c. gput h b c) hs m = m @ map (\<lambda>h. (h, b)) hs"
  using assms by (induction hs arbitrary: m) (auto simp: gput_append)

lemma fold_gdel: "fold gdel hs m = filter (\<lambda>(k, v). k \<notin> set hs) m"
  by (induction hs arbitrary: m) (auto simp: gdel_filter intro: filter_cong)

section \<open>The invariant\<close>

lemma replica_hashes_disjoint:
  "collision_free n I \<Longrightarrow> i \<in> set I \<Longrightarrow> j \<in> set I \<Longrightarrow> i \<noteq> j \<Longrightarrow>
   set (replica_hashes n i) \<inter> set (replica_hashes n j) = {}"
  by (induction I) (auto simp: collision_free_def)

lemma collision_free_distinct: "collision_free n I \<Longrightarrow> i \<in> set I \<Longrightarrow> distinct (replica_hashes n i)"
  by (induction I) (auto simp: collision_free_def)

lemma collision_freeI:
  assumes "distinct I" "\<And>i. i \<in> set I \<Longrightarrow> distinct (replica_hashes n i)"
    "\<And>i j. i \<in> set I \<Longrightarrow> j \<in> set I \<Longrightarrow> i \<noteq> j \<Longrightarrow>
      set (replica_hashes n i) \<inter> set (replica_hashes n j) = {}"
  shows "collision_free n I"
  using assms by (induction I) (auto simp: collision_free_def)

lemma collision_free_mono:
  assumes "collision_free n I" "distinct J" "set J \<subseteq> set I"
  shows "collision_free n J"
  using assms(2,3)
  by (intro collision_freeI replica_hashes_disjoint [OF assms(1)] collision_free_distinct [OF assms(1)])
    auto

lemma vnodes_remove:
  assumes "gomap_ok ms" "collision_free n (keys_of ms)" "i \<in> set (keys_of ms)"
  shows "vnodes n (gdel i ms) = filter (\<lambda>(k, v). k \<notin> set (replica_hashes n i)) (vnodes n ms)"
proof -
  have flt: "filter (\<lambda>h. h \<notin> set (replica_hashes n i)) (replica_hashes n j) =
      (if j = i then [] else replica_hashes n j)" if "j \<in> set (keys_of ms)" for j
    using replica_hashes_disjoint [OF assms(2) that assms(3)] by (auto simp: filter_id_conv)
  have "vnodes n (gdel i ms') = filter (\<lambda>(k, v). k \<notin> set (replica_hashes n i)) (vnodes n ms')"
    if "set (keys_of ms') \<subseteq> set (keys_of ms)" for ms' :: "(string \<times> 'a) list"
    using that
  proof (induction ms')
    case (Cons p ms')
    then show ?case using flt [of "fst p"] by (cases p) (simp add: filter_map comp_def)
  qed simp
  then show ?thesis by simp
qed

lemma mset_vnodes_gdel:
  assumes "i \<in> set (keys_of ms)" "gomap_ok ms"
  shows "mset (replica_hashes n i) + mset (keys_of (vnodes n (gdel i ms))) =
    mset (keys_of (vnodes n ms))"
  using assms
proof (induction ms)
  case (Cons p ms)
  obtain j b where p: "p = (j, b)" by (cases p)
  show ?case
  proof (cases "j = i")
    case True
    with Cons.prems p have "i \<notin> fst ` set ms" by (auto simp: gomap_ok_def)
    with True p show ?thesis by (simp add: comp_def)
  next
    case False
    with Cons p show ?thesis by (auto simp: gomap_ok_def comp_def ac_simps)
  qed
qed simp

lemma sorted_mset_unique: "mset xs = mset ys \<Longrightarrow> sorted xs \<Longrightarrow> xs = sort ys"
  by (metis properties_for_sort)

lemma ring_inv_New [simp]: "ring_inv (NewIPHashingBalancer r)"
  by (simp add: ring_inv_def NewIPHashingBalancer_def collision_free_def)

lemma ring_inv_Register:
  assumes inv: "ring_inv s"
    and cf: "Id b \<notin> set (keys_of (ih_members s)) \<Longrightarrow>
      collision_free (ih_replicas s) (keys_of (ih_members s) @ [Id b])"
  shows "ring_inv (IPHashing_Register s b)"
proof (cases "Id b \<in> set (keys_of (ih_members s))")
  case True
  then have "map_of (ih_members s) (Id b) \<noteq> None" by (metis map_of_eq_None_iff set_map)
  then show ?thesis using inv by (simp add: IPHashing_Register_def)
next
  case False
  let ?hs = "replica_hashes (ih_replicas s) (Id b)"
  have none: "map_of (ih_members s) (Id b) = None" using False by (metis map_of_eq_None_iff set_map)
  have new: "distinct ?hs" "set ?hs \<inter> set (keys_of (vnodes (ih_replicas s) (ih_members s))) = {}"
    using cf [OF False] unfolding keys_vnodes by (auto simp: collision_free_def)
  have srt: "sort (sort xs @ ys) = sort (xs @ ys)" for xs ys :: "uint32 list"
    by (intro properties_for_sort) simp_all
  from inv none new cf [OF False] False show ?thesis
    by (simp add: ring_inv_def IPHashing_Register_def Let_def gput_append fold_gput_append srt
        comp_def gomap_ok_def)
qed

lemma ring_inv_Unregister [inv_intros]:
  assumes inv: "ring_inv s"
  shows "ring_inv (IPHashing_Unregister s b)"
proof (cases "map_of (ih_members s) (Id b) = None")
  case True
  then show ?thesis using inv by (simp add: IPHashing_Unregister_def)
next
  case False
  let ?n = "ih_replicas s" and ?ms = "ih_members s"
  let ?hs = "replica_hashes ?n (Id b)"
  have mem: "Id b \<in> set (keys_of ?ms)" using False by (metis map_of_eq_None_iff set_map)
  have ok: "gomap_ok ?ms" "collision_free ?n (keys_of ?ms)" using inv by (simp_all add: ring_inv_def)
  have cf: "collision_free ?n (keys_of (gdel (Id b) ?ms))"
    using gomap_ok_gdel [OF ok(1), of "Id b"]
    by (intro collision_free_mono [OF ok(2)]) (auto simp: gomap_ok_def simp del: set_map)
  have circle: "fold gdel ?hs (ih_circle s) = vnodes ?n (gdel (Id b) ?ms)"
    using inv vnodes_remove [OF ok mem] by (simp add: ring_inv_def fold_gdel)
  have "mset (replica_hashes ?n (Id b)) + mset (keys_of (vnodes ?n (gdel (Id b) ?ms))) =
      mset (keys_of (vnodes ?n ?ms))"
    using mem ok(1) by (rule mset_vnodes_gdel)
  then have "mset (keys_of (vnodes ?n ?ms)) - mset (replica_hashes ?n (Id b)) =
      mset (keys_of (vnodes ?n (gdel (Id b) ?ms)))"
    by (metis add_diff_cancel_left')
  then have "fold (\<lambda>h hs. ring_remove hs h) ?hs (ih_sortedHashList s) =
      sort (keys_of (vnodes ?n (gdel (Id b) ?ms)))"
    using inv
    by (intro sorted_mset_unique) (simp_all add: ring_inv_def fold_ring_remove mset_fold_remove1 sorted_fold_remove1)
  moreover have "0 < length ?ms" using mem by (cases ?ms) auto
  ultimately show ?thesis using inv cf circle mem False
    by (auto simp: ring_inv_def IPHashing_Unregister_def Let_def length_gdel set_gdel of_nat_diff
        Suc_le_eq simp del: set_map)
qed

section \<open>Which virtual node serves a key\<close>

text \<open>The reference: the least hash at or after the key's, or the least of all when none follows.\<close>

definition ring_owner :: "uint32 set \<Rightarrow> uint32 \<Rightarrow> uint32" where
  "ring_owner H h = (if \<exists>x \<in> H. h \<le> x then Min {x \<in> H. h \<le> x} else Min H)"

lemma ring_owner_mem: "finite H \<Longrightarrow> H \<noteq> {} \<Longrightarrow> ring_owner H h \<in> H"
  using Min_in [of "{x \<in> H. h \<le> x}"] by (auto simp: ring_owner_def)

lemma ring_owner_subset:
  assumes "finite H'" "H \<subseteq> H'" "ring_owner H' h \<in> H"
  shows "ring_owner H h = ring_owner H' h"
proof (cases "\<exists>x \<in> H'. h \<le> x")
  case True
  let ?m = "Min {x \<in> H'. h \<le> x}"
  have "?m \<in> {x \<in> H'. h \<le> x}" by (rule Min_in) (use True assms(1) in auto)
  with True have m: "ring_owner H' h = ?m" "?m \<in> {x \<in> H'. h \<le> x}"
    by (auto simp: ring_owner_def)
  have "Min {x \<in> H. h \<le> x} = ?m"
    using assms m by (intro Min_eqI) (auto intro: finite_subset)
  with m assms(3) show ?thesis by (auto simp: ring_owner_def)
next
  case False
  then have m: "ring_owner H' h = Min H'" by (auto simp: ring_owner_def)
  have "Min H = Min H'"
    using assms m by (intro Min_eqI) (auto intro: finite_subset)
  with m False assms(2) show ?thesis by (auto simp: ring_owner_def)
qed

lemma sorted_nth_Min:
  assumes "sorted hs" "hs \<noteq> []"
  shows "hs ! (if ring_search hs h = length hs then 0 else ring_search hs h) = ring_owner (set hs) h"
proof -
  let ?i = "ring_search hs h"
  note spec = ring_search_spec [OF assms(1), where h = h]
  show ?thesis
  proof (cases "?i = length hs")
    case True
    then have none: "\<not> (\<exists>x \<in> set hs. h \<le> x)"
      using spec(2) by (auto simp: in_set_conv_nth not_le)
    have "Min (set hs) = hs ! 0"
      using assms by (intro Min_eqI) (auto simp: in_set_conv_nth sorted_nth_mono)
    with True none show ?thesis by (auto simp: ring_owner_def)
  next
    case False
    with spec(1) have i: "?i < length hs" by simp
    then have ex: "\<exists>x \<in> set hs. h \<le> x" using spec(3) by (meson nth_mem order_refl)
    have "Min {x \<in> set hs. h \<le> x} = hs ! ?i"
    proof (rule Min_eqI)
      show "hs ! ?i \<in> {x \<in> set hs. h \<le> x}" using i spec(3) by simp
      fix y assume "y \<in> {x \<in> set hs. h \<le> x}"
      then obtain k where k: "k < length hs" "hs ! k = y" "h \<le> y" by (auto simp: in_set_conv_nth)
      with spec(2) have "?i \<le> k" by (meson not_le)
      with k sorted_nth_mono [OF assms(1), of ?i k] show "hs ! ?i \<le> y" by simp
    qed simp
    with False ex show ?thesis by (auto simp: ring_owner_def)
  qed
qed

abbreviation ring_hashes :: "'b ip_hashing \<Rightarrow> uint32 set" where
  "ring_hashes s \<equiv> set (keys_of (ih_circle s))"

lemma IPHashing_Next_owner:
  assumes "ring_inv s" "ih_circle s \<noteq> []"
  shows "IPHashing_Next s k = Inr (map_of (ih_circle s) (ring_owner (ring_hashes s) (hashKey k)))"
proof -
  have "ih_sortedHashList s = sort (keys_of (ih_circle s))" using assms(1) by (simp add: ring_inv_def)
  moreover have "sort (keys_of (ih_circle s)) \<noteq> []" using assms(2)
    by (metis length_0_conv length_map length_sort)
  ultimately show ?thesis
    using assms(2) sorted_nth_Min [of "sort (keys_of (ih_circle s))" "hashKey k"]
    by (simp add: IPHashing_Next_def Let_def)
qed

lemma ring_circle_distinct: "ring_inv s \<Longrightarrow> distinct (keys_of (ih_circle s))"
  by (simp add: ring_inv_def collision_free_def keys_vnodes)

lemma ring_circle_Nil: "ring_inv s \<Longrightarrow> ih_circle s = [] \<longleftrightarrow> ih_members s = []"
  by (cases "ih_members s") (auto simp: ring_inv_def replica_hashes_def)

lemma ring_circle_backend:
  "ring_inv s \<Longrightarrow> (h, b) \<in> set (ih_circle s) \<Longrightarrow> b \<in> snd ` set (ih_members s)"
  by (force simp: ring_inv_def vnodes_def)

text \<open>Between two rings of which one contains the other, a key keeps its owner if the owner stays.\<close>

lemma IPHashing_Next_keeps:
  assumes "ring_inv s" "ring_inv s'" "set (ih_circle s) \<subseteq> set (ih_circle s')"
    and "IPHashing_Next s' k = Inr (Some c)"
    and "\<And>h. (h, c) \<in> set (ih_circle s') \<Longrightarrow> (h, c) \<in> set (ih_circle s)"
  shows "IPHashing_Next s k = Inr (Some c)"
proof -
  let ?o = "ring_owner (ring_hashes s') (hashKey k)"
  have ne': "ih_circle s' \<noteq> []" using assms(4) by (auto simp: IPHashing_Next_def)
  then have "map_of (ih_circle s') ?o = Some c"
    using assms(4) IPHashing_Next_owner [OF assms(2)] by simp
  then have o: "(?o, c) \<in> set (ih_circle s)" using assms(5) by (auto dest: map_of_SomeD)
  then have "?o \<in> ring_hashes s" by force
  then have "ring_owner (ring_hashes s) (hashKey k) = ?o"
    using assms(3) by (intro ring_owner_subset) auto
  moreover have "map_of (ih_circle s) ?o = Some c"
    using o ring_circle_distinct [OF assms(1)] by simp
  moreover have "ih_circle s \<noteq> []" using o by auto
  ultimately show ?thesis using IPHashing_Next_owner [OF assms(1)] by simp
qed

section \<open>The interface\<close>

text \<open>A registration is admitted when its virtual nodes collide with none on the ring.\<close>

definition ring_admits :: "'a backend_scheme ip_hashing \<Rightarrow> 'a backend_scheme \<Rightarrow> bool" where
  "ring_admits s b \<longleftrightarrow> Id b \<in> set (keys_of (ih_members s)) \<or>
     collision_free (ih_replicas s) (keys_of (ih_members s) @ [Id b])"

lemma ring_members_ids: "ring_inv s \<Longrightarrow> Id ` set (map snd (ih_members s)) = set (keys_of (ih_members s))"
  by (force simp: ring_inv_def)

lemma members_Register:
  "ih_members (IPHashing_Register s b) =
     ih_members s @ (if Id b \<in> set (keys_of (ih_members s)) then [] else [(Id b, b)])"
  by (auto simp: IPHashing_Register_def Let_def map_of_None_keys gput_append simp del: set_map)

lemma keys_Unregister:
  "set (keys_of (ih_members (IPHashing_Unregister s b))) = set (keys_of (ih_members s)) - {Id b}"
  by (auto simp: IPHashing_Unregister_def Let_def map_of_None_keys simp del: set_map)

lemma map_Id_members: "ring_inv s \<Longrightarrow> map Id (map snd (ih_members s)) = keys_of (ih_members s)"
  by (auto simp: ring_inv_def)

interpretation ih: balancer
  "NewIPHashingBalancer n" "\<lambda>(_ :: unit) s k. (s, IPHashing_Next s k)"
  "\<lambda>s b. (IPHashing_Register s b, None)" IPHashing_Unregister IPHashing_Size
  "\<lambda>s. map snd (ih_members s)" Id ring_inv ring_admits "\<lambda>_ _. True"
proof unfold_locales
  fix s :: "'a backend_scheme ip_hashing" and b
  assume "ring_inv s" "ring_admits s b"
  then show "ring_inv (fst (IPHashing_Register s b, None))"
    by (auto simp: ring_admits_def intro!: ring_inv_Register simp del: set_map)
next
  fix s :: "'a backend_scheme ip_hashing" and b
  assume "ring_inv s"
  then show "Id ` set (map snd (ih_members (IPHashing_Unregister s b))) =
      Id ` set (map snd (ih_members s)) - {Id b}"
    by (simp only: ring_members_ids ring_inv_Unregister keys_Unregister)
next
  fix s :: "'a backend_scheme ip_hashing" and k
  assume s: "ring_inv s" "map snd (ih_members s) \<noteq> []"
  let ?o = "ring_owner (ring_hashes s) (hashKey k)"
  have ne: "ih_circle s \<noteq> []" using s by (auto simp: ring_circle_Nil)
  then have "?o \<in> ring_hashes s" by (intro ring_owner_mem) auto
  then obtain c where "(?o, c) \<in> set (ih_circle s)" by auto
  with s ne show "\<exists>b \<in> set (map snd (ih_members (fst (s, IPHashing_Next s k)))).
      snd (s, IPHashing_Next s k) = Inr (Some b)"
    by (auto simp: IPHashing_Next_owner ring_circle_distinct dest: ring_circle_backend)
next
  fix s :: "'a backend_scheme ip_hashing" and k
  assume "ring_inv s" "map snd (ih_members s) = []"
  then show "\<exists>e. snd (s, IPHashing_Next s k) = Inl e"
    by (auto simp: IPHashing_Next_def ring_circle_Nil)
next
  fix s :: "'a backend_scheme ip_hashing" and b
  assume inv: "ring_inv s"
  then have "Id ` set (map snd (ih_members s)) = set (keys_of (ih_members s))"
    by (rule ring_members_ids)
  then show "Id ` set (map snd (ih_members (fst (IPHashing_Register s b, None)))) =
      insert (Id b) (Id ` set (map snd (ih_members s)))"
    by (auto simp: members_Register)
next
  fix s :: "'a backend_scheme ip_hashing"
  assume inv: "ring_inv s"
  then show "distinct (map Id (map snd (ih_members s)))"
    by (simp only: map_Id_members) (simp add: ring_inv_def gomap_ok_def)
  show "IPHashing_Size s = int (length (map snd (ih_members s)))"
    using inv by (simp add: ring_inv_def IPHashing_Size_def)
qed (auto intro: inv_intros, simp add: NewIPHashingBalancer_def)

section \<open>Properties of the hashing balancer\<close>

text \<open>The identifiers a history registers.\<close>

definition registered :: "('r, 'a backend_scheme) bal_op list \<Rightarrow> string set" where
  "registered ops = {Id b | b. Register b \<in> set ops}"

abbreviation ring_run where
  "ring_run ops n \<equiv> bal_run (\<lambda>(_ :: unit) s k. (s, IPHashing_Next s k))
     (\<lambda>s b. (IPHashing_Register s b, None :: bal_err option)) IPHashing_Unregister ops
     (NewIPHashingBalancer n)"

definition ring_ok :: "int \<Rightarrow> string list \<Rightarrow> 'a backend_scheme ip_hashing \<Rightarrow> bool" where
  "ring_ok n I s \<longleftrightarrow> ring_inv s \<and> ih_replicas s = n \<and> set (keys_of (ih_members s)) \<subseteq> set I"

lemma ih_replicas_step [simp]:
  "ih_replicas (IPHashing_Register s b) = ih_replicas s"
  "ih_replicas (IPHashing_Unregister s b) = ih_replicas s"
  by (simp_all add: IPHashing_Register_def IPHashing_Unregister_def Let_def)

lemma ring_ok_Register:
  assumes "collision_free n I" "ring_ok n I s" "Id b \<in> set I"
  shows "ring_ok n I (IPHashing_Register s b)"
proof -
  have ok: "ring_inv s" "ih_replicas s = n" "set (keys_of (ih_members s)) \<subseteq> set I"
    using assms(2) by (simp_all add: ring_ok_def del: set_map)
  then have "distinct (keys_of (ih_members s))" by (simp add: ring_inv_def gomap_ok_def)
  with ok(3) assms(3) have "Id b \<notin> set (keys_of (ih_members s)) \<Longrightarrow>
      collision_free n (keys_of (ih_members s) @ [Id b])"
    by (intro collision_free_mono [OF assms(1)]) auto
  with ok(1,2) have "ring_inv (IPHashing_Register s b)"
    by (intro ring_inv_Register) simp_all
  then show ?thesis using assms by (auto simp: ring_ok_def members_Register)
qed

lemma ring_ok_Unregister: "ring_ok n I s \<Longrightarrow> ring_ok n I (IPHashing_Unregister s b)"
  using ring_inv_Unregister [of s b] keys_Unregister [of s b]
  by (auto simp: ring_ok_def simp del: set_map)

lemma ring_ok_run:
  assumes "collision_free n I" "registered ops \<subseteq> set I" "ring_ok n I s"
  shows "ring_ok n I (bal_run (\<lambda>(_ :: unit) s k. (s, IPHashing_Next s k))
     (\<lambda>s b. (IPHashing_Register s b, None :: bal_err option)) IPHashing_Unregister ops s)"
  using assms(2,3)
proof (induction ops arbitrary: s)
  case (Cons x ops)
  have "ring_ok n I (bal_step (\<lambda>(_ :: unit) s k. (s, IPHashing_Next s k))
      (\<lambda>s b. (IPHashing_Register s b, None :: bal_err option)) IPHashing_Unregister x s)"
    using Cons.prems
    by (cases x) (auto simp: registered_def intro: ring_ok_Register [OF assms(1)] ring_ok_Unregister)
  with Cons show ?case by (auto simp: registered_def)
qed simp

lemma ring_ok_New: "ring_ok (max 3 n) I (NewIPHashingBalancer n)"
  by (simp only: ring_ok_def ring_inv_New) (simp add: NewIPHashingBalancer_def)

lemma ring_circle_iff:
  assumes "ring_inv s"
  shows "(h, c) \<in> set (ih_circle s) \<longleftrightarrow>
    (Id c, c) \<in> set (ih_members s) \<and> h \<in> set (replica_hashes (ih_replicas s) (Id c))"
  using assms by (fastforce simp: ring_inv_def vnodes_def)

lemma members_Unregister:
  "set (ih_members (IPHashing_Unregister s b)) = {(i, c) \<in> set (ih_members s). i \<noteq> Id b}"
  by (auto simp: IPHashing_Unregister_def Let_def set_gdel map_of_eq_None_iff image_iff)

text \<open>
  C36. Consistent hashing moves only what must move: when the virtual nodes of the identifiers in
  use are distinct, then after any history of registrations and removals of them, removing a backend
  leaves every key of the other backends where it was, and registering one changes the backend
  of a key only if it moves to the new one.
\<close>

theorem IPHashing_consistent:
  fixes ops :: "(unit, 'a backend_scheme) bal_op list"
  assumes "collision_free (max 3 n) I" and "registered ops \<subseteq> set I" and "Id b \<in> set I"
  shows "(IPHashing_Next (ring_run ops n) k = Inr (Some c) \<and> Id c \<noteq> Id b \<longrightarrow>
      IPHashing_Next (IPHashing_Unregister (ring_run ops n) b) k = Inr (Some c)) \<and>
    (IPHashing_Next (IPHashing_Register (ring_run ops n) b) k = Inr (Some c) \<and> c \<noteq> b \<longrightarrow>
      IPHashing_Next (ring_run ops n) k = Inr (Some c))"
proof -
  let ?s = "ring_run ops n"
  have s: "ring_ok (max 3 n) I ?s" using assms(1,2) ring_ok_New by (rule ring_ok_run)
  then have s0: "ring_inv ?s" by (simp add: ring_ok_def)
  have u: "ring_inv (IPHashing_Unregister ?s b)" using s0 by (rule ring_inv_Unregister)
  have r: "ring_inv (IPHashing_Register ?s b)"
    using ring_ok_Register [OF assms(1) s assms(3)] by (simp add: ring_ok_def)
  have "IPHashing_Next (IPHashing_Unregister ?s b) k = Inr (Some c)"
    if "IPHashing_Next ?s k = Inr (Some c)" "Id c \<noteq> Id b"
    using that by (intro IPHashing_Next_keeps [OF u s0])
      (auto simp: ring_circle_iff s0 u members_Unregister)
  moreover have "IPHashing_Next ?s k = Inr (Some c)"
    if "IPHashing_Next (IPHashing_Register ?s b) k = Inr (Some c)" "c \<noteq> b"
    using that by (intro IPHashing_Next_keeps [OF s0 r])
      (auto simp: ring_circle_iff s0 r members_Register split: if_splits)
  ultimately show ?thesis by blast
qed

theorem IPHashing_consistent_witness:
  "IPHashing_Next (ring_run [Register \<lparr>Id = ''a''\<rparr>, Register \<lparr>Id = ''b''\<rparr>] 3) ''k'' =
      Inr (Some \<lparr>Id = ''a''\<rparr>) \<and>
   IPHashing_Next (IPHashing_Unregister
      (ring_run [Register \<lparr>Id = ''a''\<rparr>, Register \<lparr>Id = ''b''\<rparr>] 3) \<lparr>Id = ''b''\<rparr>) ''k'' =
      Inr (Some \<lparr>Id = ''a''\<rparr>)"
proof -
  let ?ops = "[Register \<lparr>Id = ''a''\<rparr>, Register \<lparr>Id = ''b''\<rparr>] :: (unit, backend) bal_op list"
  have "collision_free (max 3 3) [''a'', ''b'']" by code_simp
  moreover have "registered ?ops \<subseteq> set [''a'', ''b'']" by (auto simp: registered_def)
  moreover have "Id \<lparr>Id = ''b''\<rparr> \<in> set [''a'', ''b'']" by simp
  ultimately have "IPHashing_Next (ring_run ?ops 3) ''k'' = Inr (Some \<lparr>Id = ''a''\<rparr>) \<and>
        Id \<lparr>Id = ''a''\<rparr> \<noteq> Id \<lparr>Id = ''b''\<rparr> \<longrightarrow>
      IPHashing_Next (IPHashing_Unregister (ring_run ?ops 3) \<lparr>Id = ''b''\<rparr>) ''k'' =
        Inr (Some \<lparr>Id = ''a''\<rparr>)"
    by (rule conjunct1 [OF IPHashing_consistent])
  moreover have "IPHashing_Next (ring_run [Register \<lparr>Id = ''a''\<rparr>, Register \<lparr>Id = ''b''\<rparr>] 3) ''k'' =
      Inr (Some \<lparr>Id = ''a''\<rparr>)"
    by code_simp
  ultimately show ?thesis by simp
qed


end
