(* ===== verification/Protocol_State.thy ===== *)
theory Protocol_State
  imports Envelope
begin

text \<open>
  The state of \<open>ProtocolHandler\<close> in \<open>pkg/proto/protocol.go\<close> and the sections it executes under its
  mutex: the subscription table, the resumable sessions with their reverse index, the per-topic
  sequence counters and the replay cache with its byte budget. Each definition is one locked
  section (or one atomic operation), so that any interleaving of handlers and publishers is a
  sequence of them; \<open>Protocol_Server\<close> composes them into the handlers.

  A connection is a number, the identity of the transport. A Go set is the list of its elements
  without repetition. The sequence counters are heap objects that outlive their entry in the map,
  so \<open>topicSeqs\<close> holds addresses into \<open>counters\<close>. Where the order of a map iteration is
  observable it is an argument: any function from the keys to a list.
\<close>

type_synonym conn = nat

text \<open>Insertion into and deletion from a set.\<close>

definition set_add :: "'a \<Rightarrow> 'a list \<Rightarrow> 'a list" where
  "set_add x xs = (if x \<in> set xs then xs else xs @ [x])"

lemma set_set_add [simp]: "set (set_add x xs) = insert x (set xs)"
  by (auto simp: set_add_def)

lemma set_add_not_Nil [simp]: "set_add x xs \<noteq> []"
  by (auto simp: set_add_def)

section \<open>State\<close>

record cachedPublish =
  cp_seq :: uint32
  cp_buf :: bytes

record session =
  s_conn :: conn
  s_topics :: "string list"
  s_lastSeen :: int

record server =
  subs :: "(string, conn list) gomap"
  pings :: uint64
  pongs :: uint64
  topicSeqs :: "(string, nat) gomap"
  counters :: "uint32 list"
  sessions :: "(string, session) gomap"
  connTokens :: "(conn, string) gomap"
  topicCache :: "(string, cachedPublish list) gomap"
  cacheBytes :: int
  cacheBudget :: int
  requireHello :: bool
  srv_closed :: bool
  sessionTTL :: int

definition topicCacheSize :: nat where "topicCacheSize = 64"
definition defaultCacheBudget :: int where "defaultCacheBudget = 64 * 2 ^ 20"
definition defaultSessionTTL :: int where "defaultSessionTTL = 10 * 60 * 1000000000"

definition NewProtocolHandler :: server where
  "NewProtocolHandler =
     \<lparr>subs = [], pings = 0, pongs = 0, topicSeqs = [], counters = [], sessions = [],
      connTokens = [], topicCache = [], cacheBytes = 0, cacheBudget = defaultCacheBudget,
      requireHello = False, srv_closed = False, sessionTTL = defaultSessionTTL\<rparr>"

definition RequireHello :: "bool \<Rightarrow> server \<Rightarrow> server" where
  "RequireHello v p = p\<lparr>requireHello := v\<rparr>"

definition Close :: "server \<Rightarrow> server" where
  "Close p = p\<lparr>srv_closed := True\<rparr>"

text \<open>Reading a map at a missing key gives the zero value.\<close>

definition members_of :: "string \<Rightarrow> server \<Rightarrow> conn list" where
  "members_of topic p = (case map_of (subs p) topic of None \<Rightarrow> [] | Some ms \<Rightarrow> ms)"

definition cache_of :: "string \<Rightarrow> server \<Rightarrow> cachedPublish list" where
  "cache_of topic p = (case map_of (topicCache p) topic of None \<Rightarrow> [] | Some c \<Rightarrow> c)"

section \<open>The replay cache\<close>

definition frameBytes :: "cachedPublish list \<Rightarrow> int" where
  "frameBytes cache = sum_list (map (\<lambda>c. int (length (cp_buf c))) cache)"

definition sessionRecordsTopicLocked :: "string \<Rightarrow> server \<Rightarrow> bool" where
  "sessionRecordsTopicLocked topic p = list_ex (\<lambda>(_, s). topic \<in> set (s_topics s)) (sessions p)"

definition dropTopicCacheLocked :: "string \<Rightarrow> server \<Rightarrow> server" where
  "dropTopicCacheLocked topic p =
     (if (case map_of (subs p) topic of Some ms \<Rightarrow> length ms > 0 | None \<Rightarrow> False) then p
      else if sessionRecordsTopicLocked topic p then p
      else p\<lparr>cacheBytes := cacheBytes p - frameBytes (cache_of topic p),
             topicCache := gdel topic (topicCache p),
             topicSeqs := gdel topic (topicSeqs p)\<rparr>)"

text \<open>
  The search for the largest topic; \<open>([], 0)\<close> when there is none. A topic that is not cached has
  no bytes and is never chosen.
\<close>

definition find_victim :: "string list \<Rightarrow> server \<Rightarrow> string \<times> int" where
  "find_victim order p =
     fold (\<lambda>topic (victim, size).
        let s = frameBytes (cache_of topic p) in if s > size then (topic, s) else (victim, size))
      order ([], 0)"

lemma find_victim_fold:
  "fold (\<lambda>topic (victim, size).
      let s = frameBytes (cache_of topic p) in if s > size then (topic, s) else (victim, size))
    order (v0, n0) = (v, n) \<Longrightarrow>
   (v = v0 \<and> n = n0 \<and> (\<forall>t \<in> set order. frameBytes (cache_of t p) \<le> n0)) \<or>
   (n0 < n \<and> v \<in> set order \<and> n = frameBytes (cache_of v p) \<and>
     (\<forall>t \<in> set order. frameBytes (cache_of t p) \<le> n))"
proof (induction order arbitrary: v0 n0)
  case (Cons t order)
  then show ?case by (auto simp: Let_def split: if_splits) force+
qed simp

lemma find_victim_cached:
  assumes "find_victim order p = (v, n)" "v \<noteq> []"
  shows "v \<in> set (keys_of (topicCache p))" "n = frameBytes (cache_of v p)" "0 < n" "v \<in> set order"
proof -
  from find_victim_fold [of p order "[]" 0 v n] assms
  show n: "n = frameBytes (cache_of v p)" "0 < n" "v \<in> set order" by (auto simp: find_victim_def)
  then show "v \<in> set (keys_of (topicCache p))"
    by (auto simp: cache_of_def frameBytes_def split: option.splits)
      (metis fst_conv image_eqI map_of_SomeD)
qed

function enforceCacheBudgetLocked :: "(string list \<Rightarrow> string list) \<Rightarrow> server \<Rightarrow> server" where
  "enforceCacheBudgetLocked it p =
     (if cacheBytes p > cacheBudget p then
        (let (victim, size) = find_victim (it (keys_of (topicCache p))) p
         in if victim = [] then p\<lparr>cacheBytes := 0\<rparr>
            else enforceCacheBudgetLocked it
                   (p\<lparr>cacheBytes := cacheBytes p - size, topicCache := gdel victim (topicCache p)\<rparr>))
      else p)"
  by pat_completeness auto
termination
proof (relation "measure (\<lambda>(it, p). length (topicCache p))", goal_cases)
  case (2 it p x victim size)
  then have "find_victim (it (keys_of (topicCache p))) p = (victim, size)" by simp
  from find_victim_cached(1) [OF this 2(4)] have "victim \<in> set (keys_of (topicCache p))" .
  then show ?case by (auto simp: gdel_filter intro!: length_filter_less)
qed simp

declare enforceCacheBudgetLocked.simps [simp del]

definition rememberPublish ::
  "(string list \<Rightarrow> string list) \<Rightarrow> string \<Rightarrow> uint32 \<Rightarrow> bytes \<Rightarrow> server \<Rightarrow> server" where
  "rememberPublish it topic seq buf p =
     (let cache = cache_of topic p @ [\<lparr>cp_seq = seq, cp_buf = buf\<rparr>];
          (cb, cache') = (if length cache > topicCacheSize
             then (cacheBytes p - int (length (cp_buf (cache ! 0))),
                   drop (length cache - topicCacheSize) cache)
             else (cacheBytes p, cache))
      in enforceCacheBudgetLocked it
           (p\<lparr>topicCache := gput topic cache' (topicCache p), cacheBytes := cb + int (length buf)\<rparr>))"

section \<open>Sessions\<close>

text \<open>\<open>hex.EncodeToString\<close>, and \<open>%x\<close> of a non-negative number.\<close>

definition hex_EncodeToString :: "bytes \<Rightarrow> string" where
  "hex_EncodeToString bs = concat (map (\<lambda>b. [hex_digit (unat b div 16), hex_digit (unat b mod 16)]) bs)"

fun fmt_hex :: "nat \<Rightarrow> string" where
  "fmt_hex n = (if n < 16 then [hex_digit n] else fmt_hex (n div 16) @ [hex_digit (n mod 16)])"

declare fmt_hex.simps [simp del]

text \<open>\<open>newSessionToken\<close>: the sixteen random bytes, or the clock when the entropy source fails.\<close>

definition newSessionToken :: "bytes option \<Rightarrow> int \<Rightarrow> string" where
  "newSessionToken rnd now =
     (case rnd of None \<Rightarrow> ''s-'' @ fmt_hex (nat now) | Some b \<Rightarrow> hex_EncodeToString b)"

definition collectReplay ::
  "(string list \<Rightarrow> string list) \<Rightarrow> session \<Rightarrow> (string, uint64) gomap \<Rightarrow> server \<Rightarrow> bytes list" where
  "collectReplay it s cursors p =
     concat (map (\<lambda>topic.
       let cursor = (case map_of cursors topic of None \<Rightarrow> 0 | Some c \<Rightarrow> c)
       in map cp_buf (filter (\<lambda>c. ucast (cp_seq c) > cursor) (cache_of topic p)))
      (it (s_topics s)))"

text \<open>A recorded topic moves from the old transport to the new one.\<close>

definition move_topic :: "conn \<Rightarrow> conn \<Rightarrow> string \<Rightarrow> server \<Rightarrow> server" where
  "move_topic old new topic p =
     p\<lparr>subs := gput topic (set_add new (removeAll old (members_of topic p))) (subs p)\<rparr>"

text \<open>
  \<open>attachSession\<close>: \<open>tok\<close> is the token \<open>newSessionToken\<close> would mint. The result is the new state, the
  token, whether a session was resumed, and the frames to replay.
\<close>

definition attachSession ::
  "(string list \<Rightarrow> string list) \<Rightarrow> int \<Rightarrow> string \<Rightarrow> conn \<Rightarrow> string \<Rightarrow> (string, uint64) gomap \<Rightarrow> server \<Rightarrow>
   server \<times> string \<times> bool \<times> bytes list" where
  "attachSession it now tok conn token cursors p =
     (let fresh = (p\<lparr>sessions := gput tok \<lparr>s_conn = conn, s_topics = [], s_lastSeen = now\<rparr> (sessions p),
                     connTokens := gput conn tok (connTokens p)\<rparr>, tok, False, [])
      in if token \<noteq> [] then
           (case map_of (sessions p) token of
              None \<Rightarrow> fresh
            | Some s \<Rightarrow>
                (if now - s_lastSeen s \<le> sessionTTL p then
                   (let p1 = fold (move_topic (s_conn s) conn) (s_topics s) p;
                        s' = s\<lparr>s_conn := conn, s_lastSeen := now\<rparr>;
                        p2 = p1\<lparr>sessions := gput token s' (sessions p1),
                                connTokens := gput conn token (gdel (s_conn s) (connTokens p1))\<rparr>
                    in (p2, token, True, collectReplay it s' cursors p2))
                 else fresh))
         else fresh)"

definition touchSession :: "int \<Rightarrow> conn \<Rightarrow> server \<Rightarrow> server" where
  "touchSession now conn p =
     (case map_of (connTokens p) conn of
        None \<Rightarrow> p
      | Some token \<Rightarrow>
          (case map_of (sessions p) token of
             None \<Rightarrow> p
           | Some s \<Rightarrow> p\<lparr>sessions := gput token (s\<lparr>s_lastSeen := now\<rparr>) (sessions p)\<rparr>))"

text \<open>A connection leaves a topic; an empty member set leaves the table.\<close>

definition leave_topic :: "string \<Rightarrow> conn \<Rightarrow> server \<Rightarrow> server" where
  "leave_topic topic conn p =
     (case map_of (subs p) topic of
        None \<Rightarrow> p
      | Some ms \<Rightarrow>
          (let ms' = removeAll conn ms
           in if length ms' = 0 then p\<lparr>subs := gdel topic (subs p)\<rparr>
              else p\<lparr>subs := gput topic ms' (subs p)\<rparr>))"

text \<open>
  One round of the janitor's sweep, and the sweep. The code's test that the session has a connection
  always holds: both places that write the field store the connection of a handler context.
\<close>

definition reap_session :: "int \<Rightarrow> string \<Rightarrow> server \<Rightarrow> server" where
  "reap_session now token p =
     (case map_of (sessions p) token of
        None \<Rightarrow> p
      | Some s \<Rightarrow>
          (if now - s_lastSeen s > sessionTTL p then
             fold (\<lambda>topic q. dropTopicCacheLocked topic (leave_topic topic (s_conn s) q)) (s_topics s)
               (p\<lparr>sessions := gdel token (sessions p), connTokens := gdel (s_conn s) (connTokens p)\<rparr>)
           else p))"

definition reapExpiredSessions :: "(string list \<Rightarrow> string list) \<Rightarrow> int \<Rightarrow> server \<Rightarrow> server" where
  "reapExpiredSessions it now p = fold (reap_session now) (it (keys_of (sessions p))) p"

section \<open>Subscriptions\<close>

definition topicSequenceLocked :: "string \<Rightarrow> server \<Rightarrow> uint64" where
  "topicSequenceLocked topic p =
     (case map_of (topicSeqs p) topic of None \<Rightarrow> 0 | Some a \<Rightarrow> ucast (counters p ! a))"

text \<open>The session of a connection records a topic or forgets it.\<close>

definition record_topic :: "int \<Rightarrow> conn \<Rightarrow> string \<Rightarrow> bool \<Rightarrow> server \<Rightarrow> server" where
  "record_topic now conn topic subscribe p =
     (case map_of (connTokens p) conn of
        None \<Rightarrow> p
      | Some token \<Rightarrow>
          (case map_of (sessions p) token of
             None \<Rightarrow> p
           | Some s \<Rightarrow>
               p\<lparr>sessions := gput token
                   (s\<lparr>s_topics := (if subscribe then set_add topic (s_topics s) else removeAll topic (s_topics s)),
                      s_lastSeen := now\<rparr>) (sessions p)\<rparr>))"

text \<open>The locked section of \<open>handleSubscribe\<close>, which also reads the topic's sequence.\<close>

definition subscribe_locked :: "int \<Rightarrow> conn \<Rightarrow> string \<Rightarrow> bool \<Rightarrow> server \<Rightarrow> server \<times> uint64" where
  "subscribe_locked now conn topic subscribe p =
     (let p1 = (if subscribe then p\<lparr>subs := gput topic (set_add conn (members_of topic p)) (subs p)\<rparr>
                else case map_of (subs p) topic of
                       None \<Rightarrow> p
                     | Some ms \<Rightarrow>
                         (let q = leave_topic topic conn p
                          in if length (removeAll conn ms) = 0 then dropTopicCacheLocked topic q else q));
          p2 = record_topic now conn topic subscribe p1;
          p3 = (if subscribe then p2 else dropTopicCacheLocked topic p2)
      in (p3, topicSequenceLocked topic p3))"

definition removeSubscriber :: "string \<Rightarrow> conn \<Rightarrow> server \<Rightarrow> server" where
  "removeSubscriber topic conn p = dropTopicCacheLocked topic (leave_topic topic conn p)"

definition Subscribers :: "string \<Rightarrow> server \<Rightarrow> nat" where
  "Subscribers topic p = length (members_of topic p)"

definition Stats :: "server \<Rightarrow> uint64 \<times> uint64" where
  "Stats p = (pings p, pongs p)"

section \<open>The sections of Publish\<close>

text \<open>The members (in map order) and whether some session records the topic.\<close>

definition publish_snapshot :: "(conn list \<Rightarrow> conn list) \<Rightarrow> string \<Rightarrow> server \<Rightarrow> conn list \<times> bool" where
  "publish_snapshot itc topic p = (itc (members_of topic p), sessionRecordsTopicLocked topic p)"

text \<open>Finding or creating the counter, and the atomic increment.\<close>

definition publish_counter :: "string \<Rightarrow> server \<Rightarrow> server \<times> nat" where
  "publish_counter topic p =
     (case map_of (topicSeqs p) topic of
        Some a \<Rightarrow> (p, a)
      | None \<Rightarrow> (p\<lparr>topicSeqs := gput topic (length (counters p)) (topicSeqs p),
                    counters := counters p @ [0]\<rparr>, length (counters p)))"

definition counter_add :: "nat \<Rightarrow> server \<Rightarrow> server \<times> uint32" where
  "counter_add a p = (let v = counters p ! a + 1 in (p\<lparr>counters := (counters p)[a := v]\<rparr>, v))"

end
