(* ===== verification/Protocol_Server.thy ===== *)
theory Protocol_Server
  imports Protocol_State Stream_Codec
begin

text \<open>
  The handlers of \<open>pkg/proto/protocol.go\<close>: version negotiation, \<open>HandleRead\<close> with its dispatch on
  the frame type, \<open>handleHello\<close>, \<open>handleSubscribe\<close>, \<open>handleRequestFrame\<close>, \<open>Publish\<close>, and the
  \<open>FrameCodec\<close> that sits below them in the pipeline. A handler maps the state to the new state and
  the list of what it did to the connection; the clock, the entropy source, the order of map
  iterations and the outcome of writes are inputs.
\<close>

section \<open>Effects and errors\<close>

datatype close_err =
    UnexpectedMessage
  | StrictHandshake FrameType
  | DuplicateHello
  | MalformedHello json_err
  | MalformedRequest json_err
  | MarshalResponse
  | MalformedTopic FrameType json_err
  | NoTopic FrameType
  | UnexpectedFrame FrameType
  | DecodeFrame proto_err
  | EncodeFrame proto_err

text \<open>
  \<open>CtxWrite\<close> and \<open>CtxClose\<close> go through the pipeline context, the others straight to a connection; a
  write carries whether it succeeded, a deadline its time (\<open>None\<close>: cleared).
\<close>

datatype effect =
    CtxWrite "Frame option"
  | CtxClose close_err
  | CtxRead Frame
  | CtxWriteBytes bytes
  | ConnClose conn
  | ConnWrite conn bytes bool
  | SetWriteDeadline conn "int option"

record env =
  env_now :: int
  env_rnd :: "bytes option"
  env_topics :: "string list \<Rightarrow> string list"
  env_conns :: "conn list \<Rightarrow> conn list"
  env_write_ok :: "conn \<Rightarrow> nat \<Rightarrow> bool"

definition publishWriteTimeout :: int where "publishWriteTimeout = 3 * 1000000000"

section \<open>Negotiation\<close>

definition ProtocolVersion :: int where "ProtocolVersion = 1"
definition supportedVersions :: "int list" where "supportedVersions = [ProtocolVersion]"
definition protocolFeatures :: "string list" where
  "protocolFeatures = [''pubsub'', ''keepalive'', ''graceful-close'']"

definition negotiate :: "int list \<Rightarrow> int" where
  "negotiate clientVersions =
     fold (\<lambda>v best. fold (\<lambda>supported best. if v = supported \<and> v > best then v else best)
       supportedVersions best) clientVersions 0"

section \<open>Payloads\<close>

record HelloRequest =
  Versions :: "int list"
  Resume :: string
  Cursors :: "(string, uint64) gomap"

text \<open>\<open>strconv.ParseInt\<close> and \<open>strconv.ParseUint\<close> on a number literal of the scanner.\<close>

definition digits_value :: "string \<Rightarrow> int option" where
  "digits_value s = (if s \<noteq> [] \<and> list_all is_digit s
     then Some (foldl (\<lambda>n c. 10 * n + (int (code c) - 48)) 0 s) else None)"

definition ParseInt :: "string \<Rightarrow> int option" where
  "ParseInt s =
     (case (if take 1 s = ''-'' then map_option uminus (digits_value (drop 1 s)) else digits_value s) of
        None \<Rightarrow> None
      | Some n \<Rightarrow> if - (2 ^ 63) \<le> n \<and> n < 2 ^ 63 then Some n else None)"

definition ParseUint :: "string \<Rightarrow> uint64 option" where
  "ParseUint s =
     (case digits_value s of None \<Rightarrow> None | Some n \<Rightarrow> if n < 2 ^ 64 then Some (word_of_int n) else None)"

fun decode_int :: "int \<Rightarrow> json \<Rightarrow> int option" where
  "decode_int old JNull = Some old"
| "decode_int old (JNumber s) = ParseInt s"
| "decode_int old _ = None"

fun decode_ints :: "int list \<Rightarrow> json list \<Rightarrow> int list option" where
  "decode_ints old [] = Some []"
| "decode_ints old (v # vs) =
     (case decode_int (if old = [] then 0 else hd old) v of
        None \<Rightarrow> None
      | Some n \<Rightarrow> map_option ((#) n) (decode_ints (tl old) vs))"

text \<open>
  A slice under decoding is its backing array and its length: an element \<open>null\<close> keeps what the
  array held there, which a repeated key can make visible.
\<close>

fun decode_int_slice :: "nat \<times> int list \<Rightarrow> json \<Rightarrow> (nat \<times> int list) option" where
  "decode_int_slice old JNull = Some (0, [])"
| "decode_int_slice (n, arr) (JArray vs) =
     (if vs = [] then Some (0, [])
      else map_option (\<lambda>ns. (length ns, ns @ drop (length ns) arr)) (decode_ints arr vs))"
| "decode_int_slice old _ = None"

fun decode_cursor :: "string \<times> string \<times> json \<Rightarrow> (string, uint64) gomap option \<Rightarrow> (string, uint64) gomap option" where
  "decode_cursor (key, raw, JNull) (Some m) = Some (gput key 0 m)"
| "decode_cursor (key, raw, JNumber s) (Some m) = map_option (\<lambda>n. gput key n m) (ParseUint s)"
| "decode_cursor _ _ = None"

fun decode_cursors :: "(string, uint64) gomap \<Rightarrow> json \<Rightarrow> (string, uint64) gomap option" where
  "decode_cursors old JNull = Some []"
| "decode_cursors old (JObject ms) = fold decode_cursor ms (Some old)"
| "decode_cursors old _ = None"

type_synonym hello_acc = "(nat \<times> int list) \<times> string \<times> (string, uint64) gomap"

fun hello_step :: "string \<times> string \<times> json \<Rightarrow> hello_acc option \<Rightarrow> hello_acc option" where
  "hello_step (key, raw, v) None = None"
| "hello_step (key, raw, v) (Some (vs, res, cur)) =
     (case match_field [''versions'', ''resume'', ''cursors''] key of
        None \<Rightarrow> Some (vs, res, cur)
      | Some f \<Rightarrow>
          (if f = ''versions'' then map_option (\<lambda>vs'. (vs', res, cur)) (decode_int_slice vs v)
           else if f = ''resume'' then map_option (\<lambda>r. (vs, r, cur)) (decode_string res v)
           else map_option (\<lambda>c. (vs, res, c)) (decode_cursors cur v)))"

definition hello_of :: "hello_acc \<Rightarrow> HelloRequest" where
  "hello_of = (\<lambda>((n, arr), res, cur). \<lparr>Versions = take n arr, Resume = res, Cursors = cur\<rparr>)"

definition decode_HelloRequest :: "json \<Rightarrow> HelloRequest option" where
  "decode_HelloRequest v =
     (case v of
        JNull \<Rightarrow> Some \<lparr>Versions = [], Resume = [], Cursors = []\<rparr>
      | JObject ms \<Rightarrow> map_option hello_of (fold hello_step ms (Some ((0, []), [], [])))
      | _ \<Rightarrow> None)"

text \<open>The marshalled bodies of the replies.\<close>

definition itoa_int :: "int \<Rightarrow> string" where
  "itoa_int n = (if n < 0 then CHR ''-'' # itoa (nat (- n)) else itoa (nat n))"

fun join_with :: "string \<Rightarrow> string list \<Rightarrow> string" where
  "join_with sep [] = []"
| "join_with sep [x] = x"
| "join_with sep (x # y # xs) = x @ sep @ join_with sep (y # xs)"

definition fmt_ints :: "int list \<Rightarrow> string" where
  "fmt_ints ns = CHR ''['' # join_with '' '' (map itoa_int ns) @ '']''"

definition marshal_ErrorMessage :: "string \<Rightarrow> string" where
  "marshal_ErrorMessage err = CHR ''{'' # json_key ''error'' @ marshal_string err @ ''}''"

definition marshal_HelloResponse :: "int \<Rightarrow> string \<Rightarrow> bool \<Rightarrow> string" where
  "marshal_HelloResponse version token resumed =
     CHR ''{'' # json_key ''version'' @ itoa_int version @ '','' @
     json_key ''features'' @ ''['' @ join_with '','' (map marshal_string protocolFeatures) @ '']'' @
     (if token = [] then [] else '','' @ json_key ''token'' @ marshal_string token) @
     (if resumed then '','' @ json_key ''resumed'' @ ''true'' else []) @ ''}''"

definition marshal_SubscribeResponse :: "string \<Rightarrow> uint64 \<Rightarrow> string" where
  "marshal_SubscribeResponse topic lastSeq =
     CHR ''{'' # json_key ''topic'' @ marshal_string topic @
     (if lastSeq = 0 then [] else '','' @ json_key ''lastSeq'' @ itoa (unat lastSeq)) @ ''}''"

definition marshal_topic_map :: "string \<Rightarrow> string" where
  "marshal_topic_map topic = CHR ''{'' # json_key ''topic'' @ marshal_string topic @ ''}''"

definition mustJSON :: "string \<Rightarrow> string \<Rightarrow> bytes" where
  "mustJSON topic body = bytes_of (envelope_bytes
     \<lparr>e_action = topic, e_raw = body, e_stringData = [], e_directString = False\<rparr>)"

section \<open>Handlers\<close>

definition reply :: "FrameType \<Rightarrow> uint32 \<Rightarrow> string \<Rightarrow> go_any \<Rightarrow> effect" where
  "reply t streamId action data = CtxWrite (EncodeJSON t streamId action data)"

text \<open>
  \<open>replayTo\<close>: the writes in order, abandoned at the first failure; the number counts the writes of
  this handler call.
\<close>

fun replayTo :: "env \<Rightarrow> conn \<Rightarrow> nat \<Rightarrow> bytes list \<Rightarrow> effect list" where
  "replayTo e c k [] = []"
| "replayTo e c k (buf # bufs) =
     SetWriteDeadline c (Some (env_now e + publishWriteTimeout)) # ConnWrite c buf (env_write_ok e c k) #
     SetWriteDeadline c None # (if env_write_ok e c k then replayTo e c (Suc k) bufs else [])"

definition handleHello :: "env \<Rightarrow> conn \<Rightarrow> Frame \<Rightarrow> server \<Rightarrow> server \<times> effect list" where
  "handleHello e c frame p =
     (if map_of (connTokens p) c \<noteq> None then (p, [CtxClose DuplicateHello])
      else case DecodeJSONMessage (Some frame) of
        Inl err \<Rightarrow> (p, [CtxClose (MalformedHello err)])
      | Inr msg \<Rightarrow>
          (case (if length (Data msg) > 0 then unmarshal decode_HelloRequest (Data msg)
                 else Inr \<lparr>Versions = [], Resume = [], Cursors = []\<rparr>) of
             Inl err \<Rightarrow> (p, [CtxClose (MalformedHello err)])
           | Inr req \<Rightarrow>
               (let chosen = negotiate (Versions req)
                in if chosen = 0
                   then (p, [reply RESPONSE (StreamId (Header frame)) ''hello''
                     (AnyOther (Some (marshal_ErrorMessage
                       (''no common protocol version (client offers '' @ fmt_ints (Versions req) @
                        '', server speaks '' @ fmt_ints supportedVersions @ '')''))))])
                   else (let (p', token, resumed, replay) =
                           attachSession (env_topics e) (env_now e) (newSessionToken (env_rnd e) (env_now e))
                             c (Resume req) (Cursors req) p
                         in (p', replayTo e c 0 replay @
                               [reply RESPONSE (StreamId (Header frame)) ''hello''
                                  (AnyOther (Some (marshal_HelloResponse chosen token resumed)))])))))"

text \<open>\<open>handleRequest\<close> is the handler the application registered; it fails with a message.\<close>

definition handleRequestFrame ::
  "(string \<Rightarrow> string \<Rightarrow> string + go_any) \<Rightarrow> Frame \<Rightarrow> effect list" where
  "handleRequestFrame handleRequest frame =
     (case DecodeJSONMessage (Some frame) of
        Inl err \<Rightarrow> [CtxClose (MalformedRequest err)]
      | Inr msg \<Rightarrow>
          (let streamId = StreamId (Header frame)
           in case handleRequest (Action msg) (Data msg) of
                Inl err \<Rightarrow> [CtxWrite (Some (newFrame RESPONSE streamId
                              (mustJSON (Action msg) (marshal_ErrorMessage err))))]
              | Inr resp \<Rightarrow>
                  (case json_Marshal resp of
                     None \<Rightarrow> [CtxClose MarshalResponse]
                   | Some body \<Rightarrow> [CtxWrite (Some (newFrame RESPONSE streamId (mustJSON (Action msg) body)))])))"

definition topicOf :: "Frame \<Rightarrow> close_err + string" where
  "topicOf frame =
     (case DecodeJSONMessage (Some frame) of
        Inl err \<Rightarrow> Inl (MalformedTopic (FrameHeader.FrameType (Header frame)) err)
      | Inr msg \<Rightarrow> if Action msg = [] then Inl (NoTopic (FrameHeader.FrameType (Header frame)))
                   else Inr (Action msg))"

definition handleSubscribe :: "env \<Rightarrow> conn \<Rightarrow> Frame \<Rightarrow> bool \<Rightarrow> server \<Rightarrow> server \<times> effect list" where
  "handleSubscribe e c frame subscribe p =
     (case topicOf frame of
        Inl err \<Rightarrow> (p, [CtxClose err])
      | Inr topic \<Rightarrow>
          (let (p', lastSeq) = subscribe_locked (env_now e) c topic subscribe p
           in (p', [if subscribe
                    then reply RESPONSE (StreamId (Header frame)) ''subscribed''
                           (AnyOther (Some (marshal_SubscribeResponse topic lastSeq)))
                    else reply RESPONSE (StreamId (Header frame)) ''unsubscribed''
                           (AnyOther (Some (marshal_topic_map topic)))])))"

datatype message = MsgFrame Frame | MsgOther

text \<open>What follows the strict-handshake check in \<open>HandleRead\<close>: the dispatch on the frame type.\<close>

definition dispatch ::
  "(string \<Rightarrow> string \<Rightarrow> string + go_any) \<Rightarrow> env \<Rightarrow> conn \<Rightarrow> Frame \<Rightarrow> server \<Rightarrow> server \<times> effect list" where
  "dispatch handleRequest e c frame p =
     (let t = FrameHeader.FrameType (Header frame); streamId = StreamId (Header frame)
      in if t = HELLO then handleHello e c frame p
         else if t = REQUEST then (p, handleRequestFrame handleRequest frame)
         else if t = SUBSCRIBE then handleSubscribe e c frame True p
         else if t = UNSUBSCRIBE then handleSubscribe e c frame False p
         else if t = PING then (p\<lparr>pings := pings p + 1\<rparr>, [reply PONG streamId ''pong'' AnyNil])
         else if t = PONG then (p\<lparr>pongs := pongs p + 1\<rparr>, [])
         else if t = CLOSE then (p, [reply RESPONSE streamId ''bye'' AnyNil, ConnClose c])
         else (p, [CtxClose (UnexpectedFrame t)]))"

definition HandleRead ::
  "(string \<Rightarrow> string \<Rightarrow> string + go_any) \<Rightarrow> env \<Rightarrow> conn \<Rightarrow> message \<Rightarrow> server \<Rightarrow> server \<times> effect list" where
  "HandleRead handleRequest e c message p =
     (case message of
        MsgOther \<Rightarrow> (p, [CtxClose UnexpectedMessage])
      | MsgFrame frame \<Rightarrow>
          (let p' = touchSession (env_now e) c p;
               t = FrameHeader.FrameType (Header frame)
           in if requireHello p' \<and> t \<noteq> HELLO \<and> map_of (connTokens p') c = None
              then (p', [CtxClose (StrictHandshake t)])
              else dispatch handleRequest e c frame p'))"

section \<open>Publish\<close>

text \<open>The delivery loop: who got it, who is dropped, and what was done.\<close>

fun deliver :: "env \<Rightarrow> string \<Rightarrow> bytes \<Rightarrow> conn list \<Rightarrow> server \<Rightarrow> server \<times> nat \<times> effect list" where
  "deliver e topic buf [] p = (p, 0, [])"
| "deliver e topic buf (c # cs) p =
     (let ok = env_write_ok e c 0;
          p' = (if ok then p else removeSubscriber topic c p);
          (p'', n, effs) = deliver e topic buf cs p'
      in (p'', (if ok then Suc n else n),
          SetWriteDeadline c (Some (env_now e + publishWriteTimeout)) # ConnWrite c buf ok #
          SetWriteDeadline c None # effs))"

datatype publish_err = PublishMarshal | PublishEncode proto_err

definition Publish ::
  "env \<Rightarrow> string \<Rightarrow> go_any \<Rightarrow> server \<Rightarrow> server \<times> (publish_err + nat) \<times> effect list" where
  "Publish e topic payload p =
     (case json_Marshal payload of
        None \<Rightarrow> (p, Inl PublishMarshal, [])
      | Some body \<Rightarrow>
          (let (members, offline) = publish_snapshot (env_conns e) topic p
           in if length members = 0 \<and> \<not> offline then (p, Inr 0, [])
              else (let (p1, a) = publish_counter topic p;
                        (p2, seq) = counter_add a p1;
                        frame = newFrame PUBLISH seq (mustJSON topic body)
                    in case Encode (Some frame) of
                         Inl err \<Rightarrow> (p2, Inl (PublishEncode err), [])
                       | Inr buf \<Rightarrow>
                           (let p3 = rememberPublish (env_topics e) topic (StreamId (Header frame)) buf p2;
                                (p4, n, effs) = deliver e topic buf members p3
                            in (p4, Inr n, effs)))))"

section \<open>FrameCodec\<close>

text \<open>
  The codec of one connection, with its fragmentation threshold. Reading consumes one logical
  message; an end of stream or a deadline closes the connection quietly, any other error through
  the context. Writing encodes frames and joins the fragments; other messages pass.
\<close>

fun is_deadline :: "proto_err \<Rightarrow> bool" where
  "is_deadline (IOErr e) = (e = ErrDeadlineExceeded)"
| "is_deadline (Truncated n l e) = (e = ErrDeadlineExceeded)"
| "is_deadline _ = False"

definition FrameCodec_HandleRead :: "conn \<Rightarrow> reader \<Rightarrow> reader \<times> effect list" where
  "FrameCodec_HandleRead c r =
     (case decodeStreamed r of
        (Inl err, r') \<Rightarrow>
          (r', if is_deadline err then [ConnClose c]
               else if err \<noteq> IOErr EOF then [CtxClose (DecodeFrame err)]
               else [ConnClose c])
      | (Inr frame, r') \<Rightarrow> (r', [CtxRead frame]))"

definition FrameCodec_HandleWrite :: "int \<Rightarrow> Frame \<Rightarrow> effect list" where
  "FrameCodec_HandleWrite streamThreshold frame =
     (case encodeMessage (FrameHeader.FrameType (Header frame)) (StreamId (Header frame)) (Payload frame) streamThreshold of
        Inl err \<Rightarrow> [CtxClose (EncodeFrame err)]
      | Inr bufs \<Rightarrow> [CtxWriteBytes (concat bufs)])"

end
