(* ===== verification/Protocol_Cache.thy ===== *)
theory Protocol_Cache
  imports Protocol_Server
begin

text \<open>
  The replay cache under concurrency. Handlers, publishers and the janitor run as goroutines that
  take the server's mutex for one section at a time; the step relation below interleaves those
  sections freely, with any number of publishers in flight between theirs. Its invariant shows that
  the byte counter never drifts from the cached frames, that the budget holds, and that the
  reset branch of \<open>enforceCacheBudgetLocked\<close> is dead code.
\<close>

section \<open>Accounting\<close>

abbreviation cached_total :: "(string, cachedPublish list) gomap \<Rightarrow> int" where
  "cached_total m \<equiv> sum_list (map (frameBytes \<circ> snd) m)"

definition entry_ok :: "string \<times> cachedPublish list \<Rightarrow> bool" where
  "entry_ok tc \<longleftrightarrow> fst tc \<noteq> [] \<and> snd tc \<noteq> [] \<and> length (snd tc) \<le> topicCacheSize \<and>
     (\<forall>c \<in> set (snd tc). cp_buf c \<noteq> [])"

definition acct :: "server \<Rightarrow> bool" where
  "acct p \<longleftrightarrow> gomap_ok (topicCache p) \<and> cacheBytes p = cached_total (topicCache p) \<and>
     (\<forall>tc \<in> set (topicCache p). entry_ok tc)"

definition order_ok :: "('k list \<Rightarrow> 'k list) \<Rightarrow> bool" where
  "order_ok it \<longleftrightarrow> (\<forall>ks. mset (it ks) = mset ks)"

lemma order_ok_set: "order_ok it \<Longrightarrow> set (it ks) = set ks"
  by (metis order_ok_def set_mset_mset)

lemma order_ok_id [simp]: "order_ok (\<lambda>ks. ks)"
  by (simp add: order_ok_def)

lemma frameBytes_simps [simp]:
  "frameBytes [] = 0" "frameBytes (c # cs) = int (length (cp_buf c)) + frameBytes cs"
  "frameBytes (cs @ ds) = frameBytes cs + frameBytes ds"
  by (simp_all add: frameBytes_def)

lemma frameBytes_nonneg [simp]: "0 \<le> frameBytes cs"
  by (induction cs) auto

lemma cached_total_nonneg: "0 \<le> cached_total m"
  by (induction m) auto

lemma entry_ok_pos: "entry_ok tc \<Longrightarrow> 0 < frameBytes (snd tc)"
  by (cases "snd tc") (auto simp: entry_ok_def intro: add_pos_nonneg)

lemma cached_total_gdel:
  "gomap_ok m \<Longrightarrow> cached_total (gdel t m) =
     cached_total m - (case map_of m t of None \<Rightarrow> 0 | Some c \<Rightarrow> frameBytes c)"
proof (induction m)
  case (Cons tc m)
  show ?case
  proof (cases "fst tc = t")
    case True
    with Cons.prems have "t \<notin> fst ` set m" by (auto simp: gomap_ok_def)
    with True show ?thesis by simp
  next
    case False
    with Cons show ?thesis by (auto simp: gomap_ok_def)
  qed
qed simp

lemma cached_total_gput:
  "gomap_ok m \<Longrightarrow> cached_total (gput t c m) =
     cached_total m - (case map_of m t of None \<Rightarrow> 0 | Some c \<Rightarrow> frameBytes c) + frameBytes c"
proof (induction m)
  case (Cons tc m)
  then show ?case by (cases tc) (auto simp: gomap_ok_def)
qed simp

lemma cache_of_bytes: "frameBytes (cache_of t p) = (case map_of (topicCache p) t of None \<Rightarrow> 0 | Some c \<Rightarrow> frameBytes c)"
  by (simp add: cache_of_def split: option.split)

lemma acct_gdel:
  "acct p \<Longrightarrow> acct (p\<lparr>cacheBytes := cacheBytes p - frameBytes (cache_of t p), topicCache := gdel t (topicCache p)\<rparr>)"
  by (auto simp: acct_def cached_total_gdel cache_of_bytes set_gdel)

text \<open>Only four fields matter to the accounting.\<close>

lemma acct_cong:
  "topicCache p = topicCache q \<Longrightarrow> cacheBytes p = cacheBytes q \<Longrightarrow> acct p = acct q"
  by (simp add: acct_def)

lemma cached_total_zero:
  assumes "\<forall>tc \<in> set m. frameBytes (snd tc) \<le> 0" shows "cached_total m \<le> 0"
  using assms by (induction m) auto

text \<open>While the budget is exceeded there is a topic to evict.\<close>

lemma acct_victim:
  assumes "acct p" "order_ok it" "0 \<le> cacheBudget p" "cacheBudget p < cacheBytes p"
    and "find_victim (it (keys_of (topicCache p))) p = (v, n)"
  shows "v \<noteq> []"
proof
  assume "v = []"
  from assms(1) have e: "\<forall>tc \<in> set (topicCache p). entry_ok tc" and g: "gomap_ok (topicCache p)"
    by (auto simp: acct_def)
  have nokey: "[] \<notin> set (keys_of (topicCache p))" using e by (auto simp: entry_ok_def)
  with \<open>v = []\<close> find_victim_fold [of p "it (keys_of (topicCache p))" "[]" 0 v n] assms(2,5)
  have "\<forall>t \<in> set (keys_of (topicCache p)). frameBytes (cache_of t p) \<le> 0"
    by (auto simp: find_victim_def order_ok_set simp del: set_map)
  then have "\<forall>tc \<in> set (topicCache p). frameBytes (snd tc) \<le> 0"
    using g by (force simp: cache_of_def gomap_ok_def)
  with cached_total_zero [of "topicCache p"] assms show False by (simp add: acct_def)
qed

lemma enforce_spec:
  assumes "acct p" "order_ok it" "0 \<le> cacheBudget p"
  shows "acct (enforceCacheBudgetLocked it p)"
    and "cacheBytes (enforceCacheBudgetLocked it p) \<le> cacheBudget p"
    and "set (topicCache (enforceCacheBudgetLocked it p)) \<subseteq> set (topicCache p)"
    and "\<exists>m b. enforceCacheBudgetLocked it p = p\<lparr>topicCache := m, cacheBytes := b\<rparr>"
proof -
  have "acct (enforceCacheBudgetLocked it p) \<and>
    cacheBytes (enforceCacheBudgetLocked it p) \<le> cacheBudget p \<and>
    set (topicCache (enforceCacheBudgetLocked it p)) \<subseteq> set (topicCache p) \<and>
    (\<exists>m b. enforceCacheBudgetLocked it p = p\<lparr>topicCache := m, cacheBytes := b\<rparr>)"
    using assms
  proof (induction it p rule: enforceCacheBudgetLocked.induct)
    case (1 it p)
    show ?case
    proof (cases "cacheBytes p > cacheBudget p")
      case False
      then have "enforceCacheBudgetLocked it p = p\<lparr>topicCache := topicCache p, cacheBytes := cacheBytes p\<rparr>"
        by (simp add: enforceCacheBudgetLocked.simps [of it p])
      with False "1.prems" show ?thesis by fastforce
    next
      case True
      obtain v n where v: "find_victim (it (keys_of (topicCache p))) p = (v, n)" by fastforce
      have ne: "v \<noteq> []" using acct_victim [OF "1.prems"(1,2,3) True v] .
      have n: "n = frameBytes (cache_of v p)" using find_victim_cached(2) [OF v ne] .
      let ?q = "p\<lparr>cacheBytes := cacheBytes p - n, topicCache := gdel v (topicCache p)\<rparr>"
      have eq: "enforceCacheBudgetLocked it p = enforceCacheBudgetLocked it ?q"
        using True v ne by (simp add: enforceCacheBudgetLocked.simps [of it p])
      have "acct ?q" unfolding n using "1.prems"(1) by (rule acct_gdel)
      with "1.IH" [OF True v [symmetric] refl ne] "1.prems" have IH:
        "acct (enforceCacheBudgetLocked it ?q)" "cacheBytes (enforceCacheBudgetLocked it ?q) \<le> cacheBudget p"
        "set (topicCache (enforceCacheBudgetLocked it ?q)) \<subseteq> set (topicCache ?q)"
        "\<exists>m b. enforceCacheBudgetLocked it ?q = ?q\<lparr>topicCache := m, cacheBytes := b\<rparr>"
        by simp_all
      from IH(4) obtain m b where "enforceCacheBudgetLocked it ?q = ?q\<lparr>topicCache := m, cacheBytes := b\<rparr>" by blast
      then have "enforceCacheBudgetLocked it ?q = p\<lparr>topicCache := m, cacheBytes := b\<rparr>" by simp
      moreover have "set (topicCache ?q) \<subseteq> set (topicCache p)" by (auto simp: set_gdel)
      ultimately show ?thesis unfolding eq using IH(1-3) by blast
    qed
  qed
  then show "acct (enforceCacheBudgetLocked it p)"
    and "cacheBytes (enforceCacheBudgetLocked it p) \<le> cacheBudget p"
    and "set (topicCache (enforceCacheBudgetLocked it p)) \<subseteq> set (topicCache p)"
    and "\<exists>m b. enforceCacheBudgetLocked it p = p\<lparr>topicCache := m, cacheBytes := b\<rparr>" by blast+
qed

lemma cache_of_entry:
  assumes "acct p" "cache_of t p \<noteq> []" shows "entry_ok (t, cache_of t p)"
  using assms by (auto simp: acct_def cache_of_def dest!: map_of_SomeD split: option.splits)

text \<open>What \<open>rememberPublish\<close> hands to the budget: the new entry and the adjusted counter.\<close>

definition new_entry :: "string \<Rightarrow> uint32 \<Rightarrow> bytes \<Rightarrow> server \<Rightarrow> cachedPublish list" where
  "new_entry topic seq buf p = (let c = cache_of topic p @ [\<lparr>cp_seq = seq, cp_buf = buf\<rparr>]
     in drop (length c - topicCacheSize) c)"

lemma remember_eq:
  assumes "acct p" "topic \<noteq> []" "buf \<noteq> []"
  obtains b' where "rememberPublish it topic seq buf p = enforceCacheBudgetLocked it
      (p\<lparr>topicCache := gput topic (new_entry topic seq buf p) (topicCache p), cacheBytes := b'\<rparr>)"
    and "acct (p\<lparr>topicCache := gput topic (new_entry topic seq buf p) (topicCache p), cacheBytes := b'\<rparr>)"
    and "b' \<le> cacheBytes p + int (length buf)"
proof -
  let ?e = "\<lparr>cp_seq = seq, cp_buf = buf\<rparr>"
  let ?c = "cache_of topic p"
  let ?long = "length (?c @ [?e]) > topicCacheSize"
  let ?c' = "new_entry topic seq buf p"
  define b' where "b' = cacheBytes p - (if ?long then int (length (cp_buf (hd ?c))) else 0) + int (length buf)"
  have old: "?c = [] \<or> entry_ok (topic, ?c)" using cache_of_entry [OF assms(1)] by blast
  then have ne: "?c \<noteq> []" if ?long using that by (cases ?c) (auto simp: topicCacheSize_def)
  have len: "length ?c = topicCacheSize" if ?long using that old ne by (auto simp: entry_ok_def)
  have c': "?c' = (if ?long then tl (?c @ [?e]) else ?c @ [?e])"
    using len ne by (cases ?c) (auto simp: new_entry_def Let_def)
  have eq: "rememberPublish it topic seq buf p = enforceCacheBudgetLocked it
      (p\<lparr>topicCache := gput topic ?c' (topicCache p), cacheBytes := b'\<rparr>)"
  proof (cases ?long)
    case True
    then show ?thesis using ne [OF True] len [OF True]
      by (cases ?c) (auto simp: rememberPublish_def c' b'_def Let_def)
  next
    case False
    then show ?thesis by (simp add: rememberPublish_def c' b'_def Let_def)
  qed
  have "entry_ok (topic, ?c')"
    using old assms(2,3) len by (cases ?c) (auto simp: c' entry_ok_def topicCacheSize_def)
  moreover have "frameBytes ?c' = frameBytes ?c - (if ?long then int (length (cp_buf (hd ?c))) else 0) + int (length buf)"
    using ne by (cases ?c) (auto simp: c')
  moreover have "set (gput topic ?c' (topicCache p)) \<subseteq> insert (topic, ?c') (set (topicCache p))"
    by (rule set_gput_subset)
  ultimately have "acct (p\<lparr>topicCache := gput topic ?c' (topicCache p), cacheBytes := b'\<rparr>)"
    using assms(1) by (auto simp: acct_def cached_total_gput cache_of_bytes b'_def)
  with eq show thesis by (rule that) (simp add: b'_def)
qed

lemma remember_spec:
  assumes "acct p" "order_ok it" "0 \<le> cacheBudget p" "topic \<noteq> []" "buf \<noteq> []"
  shows "acct (rememberPublish it topic seq buf p)"
    and "cacheBytes (rememberPublish it topic seq buf p) \<le> cacheBudget p"
    and "\<exists>m b. rememberPublish it topic seq buf p = p\<lparr>topicCache := m, cacheBytes := b\<rparr>"
proof -
  obtain b' where "rememberPublish it topic seq buf p = enforceCacheBudgetLocked it
      (p\<lparr>topicCache := gput topic (new_entry topic seq buf p) (topicCache p), cacheBytes := b'\<rparr>)"
    "acct (p\<lparr>topicCache := gput topic (new_entry topic seq buf p) (topicCache p), cacheBytes := b'\<rparr>)"
    using remember_eq [OF assms(1,4,5)] by blast
  with enforce_spec [OF this(2) assms(2)] assms(3)
  show "acct (rememberPublish it topic seq buf p)"
    "cacheBytes (rememberPublish it topic seq buf p) \<le> cacheBudget p"
    "\<exists>m b. rememberPublish it topic seq buf p = p\<lparr>topicCache := m, cacheBytes := b\<rparr>" by auto
qed

lemma cache_of_submap:
  assumes "gomap_ok (topicCache q)" "gomap_ok (topicCache r)" "set (topicCache r) \<subseteq> set (topicCache q)"
  shows "cache_of t r \<in> {[], cache_of t q}"
  using assms by (auto simp: cache_of_def dest!: map_of_SomeD split: option.splits)
    (metis gomap_mem_iff option.inject option.distinct(1) subsetD)+

lemma remember_cache_of:
  assumes "acct p" "order_ok it" "0 \<le> cacheBudget p" "topic \<noteq> []" "buf \<noteq> []"
  shows "cache_of t (rememberPublish it topic seq buf p) \<in>
      {[], if t = topic then new_entry topic seq buf p else cache_of t p}"
    and "cacheBytes p + int (length buf) \<le> cacheBudget p \<Longrightarrow>
      cache_of t (rememberPublish it topic seq buf p) =
        (if t = topic then new_entry topic seq buf p else cache_of t p)"
proof -
  let ?q = "\<lambda>b'. p\<lparr>topicCache := gput topic (new_entry topic seq buf p) (topicCache p), cacheBytes := b'\<rparr>"
  obtain b' where eq: "rememberPublish it topic seq buf p = enforceCacheBudgetLocked it (?q b')"
    and q: "acct (?q b')" and b': "b' \<le> cacheBytes p + int (length buf)"
    using remember_eq [OF assms(1,4,5)] by blast
  have c: "cache_of t (?q b') = (if t = topic then new_entry topic seq buf p else cache_of t p)"
    by (simp add: cache_of_def)
  note e = enforce_spec [OF q assms(2)]
  have "cache_of t (enforceCacheBudgetLocked it (?q b')) \<in> {[], cache_of t (?q b')}"
    using q e assms(3) by (intro cache_of_submap) (simp_all add: acct_def)
  then show "cache_of t (rememberPublish it topic seq buf p) \<in>
      {[], if t = topic then new_entry topic seq buf p else cache_of t p}" by (simp only: eq c)
  assume "cacheBytes p + int (length buf) \<le> cacheBudget p"
  with b' have "enforceCacheBudgetLocked it (?q b') = (?q b')"
    by (simp add: enforceCacheBudgetLocked.simps [of it "?q b'"])
  then show "cache_of t (rememberPublish it topic seq buf p) =
      (if t = topic then new_entry topic seq buf p else cache_of t p)" by (simp only: eq c)
qed

section \<open>Sections that leave the cache alone, and sections that shrink it\<close>

abbreviation cache_view :: "server \<Rightarrow> (string, cachedPublish list) gomap \<times> int \<times> int" where
  "cache_view p \<equiv> (topicCache p, cacheBytes p, cacheBudget p)"

definition bounded :: "server \<Rightarrow> bool" where
  "bounded p \<longleftrightarrow> acct p \<and> 0 \<le> cacheBudget p \<and> cacheBytes p \<le> cacheBudget p"

lemma bounded_view: "cache_view q = cache_view p \<Longrightarrow> bounded p \<Longrightarrow> bounded q"
  by (simp add: bounded_def acct_def)

lemma view_move_topic: "cache_view (move_topic a b t p) = cache_view p"
  by (simp add: move_topic_def)

lemma view_fold_move: "cache_view (fold (move_topic a b) ts p) = cache_view p"
  by (induction ts arbitrary: p) (simp_all add: view_move_topic)

lemma view_attach: "cache_view (fst (attachSession it now tok c token cur p)) = cache_view p"
  using view_fold_move by (auto simp: attachSession_def Let_def split: option.split)

lemma view_touch: "cache_view (touchSession now c p) = cache_view p"
  by (simp add: touchSession_def split: option.split)

lemma view_leave: "cache_view (leave_topic t c p) = cache_view p"
  by (simp add: leave_topic_def Let_def split: option.split)

lemma view_record: "cache_view (record_topic now c t b p) = cache_view p"
  by (simp add: record_topic_def split: option.split)

lemma bounded_drop [inv_intros]: "bounded p \<Longrightarrow> bounded (dropTopicCacheLocked t p)"
proof -
  assume b: "bounded p"
  let ?q = "p\<lparr>cacheBytes := cacheBytes p - frameBytes (cache_of t p), topicCache := gdel t (topicCache p)\<rparr>"
  have "cacheBytes p - frameBytes (cache_of t p) \<le> cacheBytes p" by simp
  then have "cacheBytes p - frameBytes (cache_of t p) \<le> cacheBudget p"
    using b unfolding bounded_def by linarith
  with b acct_gdel [of p t] have "bounded ?q" by (simp add: bounded_def)
  moreover have "bounded (?q\<lparr>topicSeqs := gdel t (topicSeqs p)\<rparr>) = bounded ?q"
    by (simp add: bounded_def acct_def)
  ultimately show ?thesis using b by (simp add: dropTopicCacheLocked_def)
qed

lemma bounded_leave [inv_intros]: "bounded p \<Longrightarrow> bounded (leave_topic t c p)"
  by (rule bounded_view [OF view_leave])

lemma bounded_record [inv_intros]: "bounded p \<Longrightarrow> bounded (record_topic now c t b p)"
  by (rule bounded_view [OF view_record])

lemma bounded_remove [inv_intros]: "bounded p \<Longrightarrow> bounded (removeSubscriber t c p)"
  by (simp add: removeSubscriber_def inv_intros)

lemma bounded_subscribe [inv_intros]: "bounded p \<Longrightarrow> bounded (fst (subscribe_locked now c t b p))"
proof -
  assume b: "bounded p"
  have "bounded (p\<lparr>subs := x\<rparr>)" for x using b by (simp add: bounded_def acct_def)
  with b show ?thesis
    by (auto simp: subscribe_locked_def Let_def intro!: inv_intros split: option.split)
qed

lemma bounded_reap_session [inv_intros]: "bounded p \<Longrightarrow> bounded (reap_session now tok p)"
proof -
  have "bounded q \<Longrightarrow> bounded (fold (\<lambda>t q. dropTopicCacheLocked t (leave_topic t c q)) ts q)" for ts c q
    by (induction ts arbitrary: q) (simp_all add: inv_intros)
  moreover assume "bounded p"
  moreover from this have "bounded (p\<lparr>sessions := x, connTokens := y\<rparr>)" for x y by (simp add: bounded_def acct_def)
  ultimately show ?thesis by (simp add: reap_session_def split: option.split)
qed

lemma bounded_reap [inv_intros]: "bounded p \<Longrightarrow> bounded (reapExpiredSessions it now p)"
proof -
  have "bounded q \<Longrightarrow> bounded (fold (reap_session now) ts q)" for ts q
    by (induction ts arbitrary: q) (simp_all add: inv_intros)
  then show "bounded p \<Longrightarrow> ?thesis" by (simp add: reapExpiredSessions_def)
qed

section \<open>Topics have names\<close>

definition named :: "server \<Rightarrow> bool" where
  "named p \<longleftrightarrow> (\<forall>tm \<in> set (subs p). fst tm \<noteq> []) \<and> (\<forall>ts \<in> set (sessions p). [] \<notin> set (s_topics (snd ts)))"

lemma named_view: "subs q = subs p \<Longrightarrow> sessions q = sessions p \<Longrightarrow> named p \<Longrightarrow> named q"
  by (simp add: named_def)

lemma named_subs: "named p \<Longrightarrow> t \<noteq> [] \<Longrightarrow> named (p\<lparr>subs := gput t ms (subs p)\<rparr>)"
  using set_gput_subset [of t ms "subs p"] by (auto simp: named_def)

lemma named_sessions: "named p \<Longrightarrow> [] \<notin> set (s_topics s) \<Longrightarrow> named (p\<lparr>sessions := gput k s (sessions p)\<rparr>)"
  using set_gput_subset [of k s "sessions p"] by (auto simp: named_def)

lemma named_session: "named p \<Longrightarrow> map_of (sessions p) tok = Some s \<Longrightarrow> [] \<notin> set (s_topics s)"
  by (drule map_of_SomeD) (auto simp: named_def)

lemma named_leave [inv_intros]: "named p \<Longrightarrow> named (leave_topic t c p)"
proof -
  assume n: "named p"
  then have "map_of (subs p) t = Some ms \<Longrightarrow> t \<noteq> []" for ms
    using map_of_SomeD [of "subs p" t ms] by (auto simp: named_def)
  moreover have "named (p\<lparr>subs := gdel t (subs p)\<rparr>)" using n by (auto simp: named_def set_gdel)
  ultimately show ?thesis using n by (auto simp: leave_topic_def Let_def named_subs split: option.split)
qed

lemma named_drop [inv_intros]: "named p \<Longrightarrow> named (dropTopicCacheLocked t p)"
  by (simp add: dropTopicCacheLocked_def named_def)

lemma named_fold_move: "named p \<Longrightarrow> [] \<notin> set ts \<Longrightarrow> named (fold (move_topic a b) ts p)"
  by (induction ts arbitrary: p) (auto simp: move_topic_def named_subs)

lemma sessions_fold_move [simp]:
  "sessions (fold (move_topic a b) ts p) = sessions p" "connTokens (fold (move_topic a b) ts p) = connTokens p"
  by (induction ts arbitrary: p) (simp_all add: move_topic_def)

lemma named_attach [inv_intros]: "named p \<Longrightarrow> named (fst (attachSession it now tok c token cur p))"
proof -
  assume n: "named p"
  have fresh: "named (p\<lparr>sessions := gput tok \<lparr>s_conn = c, s_topics = [], s_lastSeen = now\<rparr> (sessions p), connTokens := x\<rparr>)" for x
    using named_sessions [OF n, of "\<lparr>s_conn = c, s_topics = [], s_lastSeen = now\<rparr>" tok]
    by (simp add: named_def)
  have resumed: "named (fold (move_topic (s_conn s) c) (s_topics s) p
      \<lparr>sessions := gput token (s\<lparr>s_conn := c, s_lastSeen := now\<rparr>) (sessions p), connTokens := x\<rparr>)"
    if "map_of (sessions p) token = Some s" for s x
  proof -
    note ts = named_session [OF n that]
    have "named (fold (move_topic (s_conn s) c) (s_topics s) p)" using n ts by (rule named_fold_move)
    from named_sessions [OF this, of "s\<lparr>s_conn := c, s_lastSeen := now\<rparr>" token] ts
    show ?thesis by (simp add: named_def)
  qed
  show ?thesis using fresh resumed by (auto simp: attachSession_def Let_def split: option.split)
qed

lemma named_touch [inv_intros]: "named p \<Longrightarrow> named (touchSession now c p)"
  by (auto simp: touchSession_def intro!: named_sessions dest: named_session split: option.split)

lemma named_record [inv_intros]: "named p \<Longrightarrow> t \<noteq> [] \<Longrightarrow> named (record_topic now c t b p)"
  by (auto simp: record_topic_def intro!: named_sessions dest: named_session split: option.split)

lemma named_subscribe [inv_intros]: "named p \<Longrightarrow> t \<noteq> [] \<Longrightarrow> named (fst (subscribe_locked now c t b p))"
  by (auto simp: subscribe_locked_def Let_def intro!: inv_intros named_subs split: option.split)

lemma named_remove [inv_intros]: "named p \<Longrightarrow> named (removeSubscriber t c p)"
  by (simp add: removeSubscriber_def inv_intros)

lemma named_reap [inv_intros]: "named p \<Longrightarrow> named (reapExpiredSessions it now p)"
proof -
  have 1: "named q \<Longrightarrow> named (fold (\<lambda>t q. dropTopicCacheLocked t (leave_topic t c q)) ts q)" for ts c q
    by (induction ts arbitrary: q) (simp_all add: inv_intros)
  have "named (q\<lparr>sessions := gdel tok (sessions q), connTokens := y\<rparr>)" if "named q" for q tok y
    using that by (auto simp: named_def set_gdel)
  with 1 have "named q \<Longrightarrow> named (reap_session now tok q)" for tok q
    by (simp add: reap_session_def split: option.split)
  then have "named q \<Longrightarrow> named (fold (reap_session now) ts q)" for ts q
    by (induction ts arbitrary: q) simp_all
  then show "named p \<Longrightarrow> ?thesis" by (simp add: reapExpiredSessions_def)
qed

text \<open>So a publish with somebody to reach is for a named topic.\<close>

lemma named_snapshot:
  assumes "named p" "order_ok itc" "publish_snapshot itc t p = (ms, off)" "ms \<noteq> [] \<or> off"
  shows "t \<noteq> []"
  using assms order_ok_set [of itc "members_of t p"]
  by (auto simp: publish_snapshot_def members_of_def named_def sessionRecordsTopicLocked_def list_ex_iff
      dest!: map_of_SomeD split: option.splits)

section \<open>Interleaving\<close>

text \<open>
  Where a publisher stands between its sections: about to look up the counter, to increment it, to
  cache the encoded frame, or to write to the remaining members.
\<close>

datatype publisher =
    AtCounter string string "conn list"
  | AtAdd string string "conn list" nat
  | AtRemember string uint32 bytes "conn list"
  | AtWrite string bytes "conn list"

record sys =
  srv :: server
  pubs :: "publisher list"

inductive srv_step :: "sys \<Rightarrow> sys \<Rightarrow> bool" where
  touch: "srv_step S (S\<lparr>srv := touchSession now c (srv S)\<rparr>)"
| attach: "srv_step S (S\<lparr>srv := fst (attachSession it now tok c token cursors (srv S))\<rparr>)"
| subscribe: "topicOf frame = Inr topic \<Longrightarrow>
    srv_step S (S\<lparr>srv := fst (subscribe_locked now c topic b (srv S))\<rparr>)"
| ping: "srv_step S (S\<lparr>srv := (srv S)\<lparr>pings := pings (srv S) + 1\<rparr>\<rparr>)"
| pong: "srv_step S (S\<lparr>srv := (srv S)\<lparr>pongs := pongs (srv S) + 1\<rparr>\<rparr>)"
| strict: "srv_step S (S\<lparr>srv := RequireHello v (srv S)\<rparr>)"
| reap: "srv_step S (S\<lparr>srv := reapExpiredSessions it now (srv S)\<rparr>)"
| shutdown: "srv_step S (S\<lparr>srv := Protocol_State.Close (srv S)\<rparr>)"
| snapshot: "order_ok itc \<Longrightarrow> json_Marshal payload = Some body \<Longrightarrow>
    publish_snapshot itc topic (srv S) = (ms, off) \<Longrightarrow> ms \<noteq> [] \<or> off \<Longrightarrow>
    srv_step S (S\<lparr>pubs := pubs S @ [AtCounter topic body ms]\<rparr>)"
| counter: "i < length (pubs S) \<Longrightarrow> pubs S ! i = AtCounter topic body ms \<Longrightarrow>
    publish_counter topic (srv S) = (p, a) \<Longrightarrow>
    srv_step S (S\<lparr>srv := p, pubs := (pubs S)[i := AtAdd topic body ms a]\<rparr>)"
| increment: "i < length (pubs S) \<Longrightarrow> pubs S ! i = AtAdd topic body ms a \<Longrightarrow>
    counter_add a (srv S) = (p, seq) \<Longrightarrow>
    Encode (Some (newFrame PUBLISH seq (mustJSON topic body))) = Inr buf \<Longrightarrow>
    srv_step S (S\<lparr>srv := p, pubs := (pubs S)[i := AtRemember topic seq buf ms]\<rparr>)"
| encode_fails: "i < length (pubs S) \<Longrightarrow> pubs S ! i = AtAdd topic body ms a \<Longrightarrow>
    counter_add a (srv S) = (p, seq) \<Longrightarrow>
    Encode (Some (newFrame PUBLISH seq (mustJSON topic body))) = Inl err \<Longrightarrow>
    srv_step S (S\<lparr>srv := p, pubs := take i (pubs S) @ drop (Suc i) (pubs S)\<rparr>)"
| remember: "i < length (pubs S) \<Longrightarrow> pubs S ! i = AtRemember topic seq buf ms \<Longrightarrow> order_ok it \<Longrightarrow>
    srv_step S (S\<lparr>srv := rememberPublish it topic seq buf (srv S), pubs := (pubs S)[i := AtWrite topic buf ms]\<rparr>)"
| write_ok: "i < length (pubs S) \<Longrightarrow> pubs S ! i = AtWrite topic buf (c # ms) \<Longrightarrow>
    srv_step S (S\<lparr>pubs := (pubs S)[i := AtWrite topic buf ms]\<rparr>)"
| write_fails: "i < length (pubs S) \<Longrightarrow> pubs S ! i = AtWrite topic buf (c # ms) \<Longrightarrow>
    srv_step S (S\<lparr>srv := removeSubscriber topic c (srv S), pubs := (pubs S)[i := AtWrite topic buf ms]\<rparr>)"
| published: "i < length (pubs S) \<Longrightarrow> pubs S ! i = AtWrite topic buf [] \<Longrightarrow>
    srv_step S (S\<lparr>pubs := take i (pubs S) @ drop (Suc i) (pubs S)\<rparr>)"

text \<open>What a publisher in flight carries.\<close>

fun pub_ok :: "publisher \<Rightarrow> bool" where
  "pub_ok (AtCounter topic body ms) = (topic \<noteq> [])"
| "pub_ok (AtAdd topic body ms a) = (topic \<noteq> [])"
| "pub_ok (AtRemember topic seq buf ms) = (topic \<noteq> [] \<and> buf \<noteq> [])"
| "pub_ok (AtWrite topic buf ms) = True"

definition sys_ok :: "sys \<Rightarrow> bool" where
  "sys_ok S \<longleftrightarrow> bounded (srv S) \<and> named (srv S) \<and> (\<forall>u \<in> set (pubs S). pub_ok u)"

lemma pubs_update: "\<forall>u \<in> set us. P u \<Longrightarrow> P v \<Longrightarrow> \<forall>u \<in> set (us[i := v]). P u"
  using set_update_subset_insert [of us i v] by blast

lemma pubs_remove: "\<forall>u \<in> set us. P u \<Longrightarrow> \<forall>u \<in> set (take i us @ drop (Suc i) us). P u"
  by (auto dest: in_set_takeD in_set_dropD)

lemma pub_nth: "sys_ok S \<Longrightarrow> i < length (pubs S) \<Longrightarrow> pub_ok (pubs S ! i)"
  by (simp add: sys_ok_def)

lemma topicOf_named: "topicOf frame = Inr topic \<Longrightarrow> topic \<noteq> []"
  by (auto simp: topicOf_def split: sum.splits if_splits)

lemma Encode_nonempty: "Encode f = Inr buf \<Longrightarrow> buf \<noteq> []"
  by (auto simp: Encode_def EncodeHeaderTo_def copy_after_header_def HeaderSize_def Let_def
      split: option.splits if_splits)

lemma publish_counter_view:
  "publish_counter t p = (q, a) \<Longrightarrow> cache_view q = cache_view p \<and> subs q = subs p \<and> sessions q = sessions p"
  by (auto simp: publish_counter_def split: option.splits)

lemma counter_add_view:
  "counter_add a p = (q, v) \<Longrightarrow> cache_view q = cache_view p \<and> subs q = subs p \<and> sessions q = sessions p"
  by (auto simp: counter_add_def Let_def)

lemma same_view:
  assumes "cache_view q = cache_view p \<and> subs q = subs p \<and> sessions q = sessions p" "bounded p" "named p"
  shows "bounded q" "named q"
  using assms bounded_view [of q p] named_view [of q p] by auto

lemma sys_okD: "sys_ok S \<Longrightarrow> bounded (srv S)" "sys_ok S \<Longrightarrow> named (srv S)" "sys_ok S \<Longrightarrow> \<forall>u \<in> set (pubs S). pub_ok u"
  by (simp_all add: sys_ok_def)

lemma sys_ok_srv: "sys_ok S \<Longrightarrow> bounded p \<Longrightarrow> named p \<Longrightarrow> sys_ok (S\<lparr>srv := p\<rparr>)"
  by (simp add: sys_ok_def)

lemma sys_ok_step: "srv_step S S' \<Longrightarrow> sys_ok S \<Longrightarrow> sys_ok S'"
proof (induction rule: srv_step.induct)
  case (touch S now c)
  then show ?case using sys_okD [OF touch]
    by (intro sys_ok_srv bounded_view [OF view_touch] inv_intros)
next
  case (attach S it now tok c token cursors)
  then show ?case using sys_okD [OF attach]
    by (intro sys_ok_srv bounded_view [OF view_attach] inv_intros)
next
  case (subscribe frame topic S now c b)
  then show ?case using sys_okD [OF subscribe(2)] topicOf_named
    by (intro sys_ok_srv inv_intros)
next
  case (snapshot itc payload body topic S ms off)
  have "topic \<noteq> []"
    using named_snapshot [OF sys_okD(2) [OF snapshot.prems] snapshot.hyps(1,3,4)] .
  with snapshot.prems show ?case by (simp add: sys_ok_def)
next
  case (counter i S topic body ms p a)
  note v = same_view [OF publish_counter_view [OF counter.hyps(3)] sys_okD(1,2) [OF counter.prems]]
  have "pub_ok (AtAdd topic body ms a)" using pub_nth [OF counter.prems counter.hyps(1)] counter.hyps(2) by simp
  with v pubs_update [OF sys_okD(3) [OF counter.prems], of "AtAdd topic body ms a" i] show ?case by (simp add: sys_ok_def)
next
  case (increment i S topic body ms a p seq buf)
  note v = same_view [OF counter_add_view [OF increment.hyps(3)] sys_okD(1,2) [OF increment.prems]]
  have "pub_ok (AtRemember topic seq buf ms)"
    using pub_nth [OF increment.prems increment.hyps(1)] increment.hyps(2) Encode_nonempty [OF increment.hyps(4)] by simp
  with v pubs_update [OF sys_okD(3) [OF increment.prems], of "AtRemember topic seq buf ms" i] show ?case
    by (simp add: sys_ok_def)
next
  case (encode_fails i S topic body ms a p seq err)
  note v = same_view [OF counter_add_view [OF encode_fails.hyps(3)] sys_okD(1,2) [OF encode_fails.prems]]
  with pubs_remove [OF sys_okD(3) [OF encode_fails.prems], of i] show ?case by (simp add: sys_ok_def)
next
  case (remember i S topic seq buf ms it)
  let ?p = "srv S"
  let ?q = "rememberPublish it topic seq buf ?p"
  have b: "acct ?p" "0 \<le> cacheBudget ?p" using sys_okD(1) [OF remember.prems] by (simp_all add: bounded_def)
  have u: "topic \<noteq> []" "buf \<noteq> []" using pub_nth [OF remember.prems remember.hyps(1)] remember.hyps(2) by simp_all
  note spec = remember_spec [OF b(1) remember.hyps(3) b(2) u, of seq]
  from spec(3) obtain m n where q: "?q = ?p\<lparr>topicCache := m, cacheBytes := n\<rparr>" by blast
  have "bounded ?q" using spec(1,2) b(2) q by (simp add: bounded_def)
  moreover have "named ?q" using sys_okD(2) [OF remember.prems] q by (simp add: named_def)
  ultimately show ?case
    using pubs_update [OF sys_okD(3) [OF remember.prems], of "AtWrite topic buf ms" i] by (simp add: sys_ok_def)
next
  case (write_ok i S topic buf c ms)
  then show ?case
    using pubs_update [OF sys_okD(3) [OF write_ok.prems], of "AtWrite topic buf ms" i] by (simp add: sys_ok_def)
next
  case (write_fails i S topic buf c ms)
  then show ?case
    using pubs_update [OF sys_okD(3) [OF write_fails.prems], of "AtWrite topic buf ms" i]
    by (simp add: sys_ok_def inv_intros)
next
  case (published i S topic buf)
  then show ?case using pubs_remove [OF sys_okD(3) [OF published.prems], of i] by (simp add: sys_ok_def)
next
  case (reap S it now)
  then show ?case by (simp add: sys_ok_def inv_intros)
qed (simp_all add: sys_ok_def RequireHello_def Protocol_State.Close_def bounded_def acct_def named_def)

lemma sys_ok_reachable:
  assumes "srv_step\<^sup>*\<^sup>* \<lparr>srv = NewProtocolHandler\<lparr>cacheBudget := b\<rparr>, pubs = []\<rparr> S" "0 \<le> b"
  shows "sys_ok S"
  using assms(1)
proof (induction rule: rtranclp_induct)
  case base
  show ?case using assms(2) by (simp add: sys_ok_def bounded_def acct_def named_def NewProtocolHandler_def)
next
  case (step T S)
  then show ?case by (blast intro: sys_ok_step)
qed

section \<open>Properties of the replay cache\<close>

text \<open>
  C8. The byte budget of the replay cache holds under every interleaving of handlers, publishers and
  the janitor: in every reachable state the counter \<open>cacheBytes\<close> is exactly the sum of the cached
  frames (so the emergency reset in \<open>enforceCacheBudgetLocked\<close> never fires), it stays within the
  budget, and no topic holds more than \<open>topicCacheSize\<close> publishes.
\<close>

theorem cache_budget_all_interleavings:
  assumes "srv_step\<^sup>*\<^sup>* \<lparr>srv = NewProtocolHandler\<lparr>cacheBudget := b\<rparr>, pubs = []\<rparr> S" and "0 \<le> b"
  shows "cacheBytes (srv S) = sum_list (map (frameBytes \<circ> snd) (topicCache (srv S))) \<and>
    cacheBytes (srv S) \<le> cacheBudget (srv S) \<and>
    (\<forall>topic. length (cache_of topic (srv S)) \<le> topicCacheSize)"
proof -
  have ok: "bounded (srv S)" using sys_ok_reachable [OF assms] by (simp add: sys_ok_def)
  moreover have "length (cache_of topic (srv S)) \<le> topicCacheSize" for topic
    using cache_of_entry [of "srv S" topic] ok by (cases "cache_of topic (srv S) = []") (auto simp: bounded_def entry_ok_def)
  ultimately show ?thesis by (auto simp: bounded_def acct_def)
qed

theorem cache_budget_all_interleavings_witness:
  "\<exists>S. srv_step\<^sup>*\<^sup>* \<lparr>srv = NewProtocolHandler\<lparr>cacheBudget := 100\<rparr>, pubs = []\<rparr> S \<and>
    topicCache (srv S) \<noteq> [] \<and>
    cacheBytes (srv S) = sum_list (map (frameBytes \<circ> snd) (topicCache (srv S))) \<and>
    cacheBytes (srv S) \<le> cacheBudget (srv S)"
proof -
  define p0 where "p0 = NewProtocolHandler\<lparr>cacheBudget := 100\<rparr>"
  define p1 where "p1 = fst (subscribe_locked 0 1 ''t'' True p0)"
  define p2 where "p2 = fst (publish_counter ''t'' p1)"
  define p3 where "p3 = fst (counter_add 0 p2)"
  define buf where "buf = header_bytes (Header (newFrame PUBLISH 1 (mustJSON ''t'' ''1''))) @ mustJSON ''t'' ''1''"
  define p4 where "p4 = rememberPublish (\<lambda>ks. ks) ''t'' 1 buf p3"
  have "topicOf (the (EncodeJSON SUBSCRIBE 7 ''t'' AnyNil)) = Inr ''t''" by code_simp
  from srv_step.subscribe [OF this, of "\<lparr>srv = p0, pubs = []\<rparr>" 0 1 True]
  have 1: "srv_step \<lparr>srv = p0, pubs = []\<rparr> \<lparr>srv = p1, pubs = []\<rparr>" by (simp add: p1_def)
  have "publish_snapshot (\<lambda>ks. ks) ''t'' p1 = ([1], False)" unfolding p1_def p0_def by code_simp
  then have 2: "srv_step \<lparr>srv = p1, pubs = []\<rparr> \<lparr>srv = p1, pubs = [AtCounter ''t'' ''1'' [1]]\<rparr>"
    using srv_step.snapshot [of "\<lambda>ks. ks" "AnyOther (Some ''1'')" "''1''" "''t''" "\<lparr>srv = p1, pubs = []\<rparr>" "[1]" False]
    by (simp add: json_Marshal_def)
  have "publish_counter ''t'' p1 = (p2, 0)" unfolding p2_def p1_def p0_def by code_simp
  then have 3: "srv_step \<lparr>srv = p1, pubs = [AtCounter ''t'' ''1'' [1]]\<rparr> \<lparr>srv = p2, pubs = [AtAdd ''t'' ''1'' [1] 0]\<rparr>"
    using srv_step.counter [of 0 "\<lparr>srv = p1, pubs = [AtCounter ''t'' ''1'' [1]]\<rparr>" "''t''" "''1''" "[1]" p2 0] by simp
  have "counter_add 0 p2 = (p3, 1)" unfolding p3_def p2_def p1_def p0_def by code_simp
  moreover have "Encode (Some (newFrame PUBLISH 1 (mustJSON ''t'' ''1''))) = Inr buf"
  proof -
    have "length (mustJSON ''t'' ''1'') = 23" by code_simp
    then show ?thesis by (simp add: Encode_Inr buf_def newFrame_def MaxFrameSize_def)
  qed
  ultimately have 4: "srv_step \<lparr>srv = p2, pubs = [AtAdd ''t'' ''1'' [1] 0]\<rparr> \<lparr>srv = p3, pubs = [AtRemember ''t'' 1 buf [1]]\<rparr>"
    using srv_step.increment [of 0 "\<lparr>srv = p2, pubs = [AtAdd ''t'' ''1'' [1] 0]\<rparr>" "''t''" "''1''" "[1]" 0 p3 1 buf] by simp
  have 5: "srv_step \<lparr>srv = p3, pubs = [AtRemember ''t'' 1 buf [1]]\<rparr> \<lparr>srv = p4, pubs = [AtWrite ''t'' buf [1]]\<rparr>"
    using srv_step.remember [of 0 "\<lparr>srv = p3, pubs = [AtRemember ''t'' 1 buf [1]]\<rparr>" "''t''" 1 buf "[1]" "\<lambda>ks. ks"]
    by (simp add: p4_def)
  have "srv_step\<^sup>*\<^sup>* \<lparr>srv = p0, pubs = []\<rparr> \<lparr>srv = p4, pubs = [AtWrite ''t'' buf [1]]\<rparr>"
    using 1 2 3 4 5 by (meson converse_rtranclp_into_rtranclp rtranclp.rtrancl_refl)
  moreover have "topicCache p4 \<noteq> []"
    unfolding p4_def p3_def p2_def p1_def p0_def buf_def by code_simp
  ultimately show ?thesis
    using cache_budget_all_interleavings [of 100 "\<lparr>srv = p4, pubs = [AtWrite ''t'' buf [1]]\<rparr>"]
    unfolding p0_def by fastforce
qed

text \<open>
  C9. What caching a publish does to the cache: the topic's entry becomes the last
  \<open>topicCacheSize\<close> publishes including the new one, every other entry stays, and the budget then
  removes topics only as a whole; when everything fits, nothing is removed.
\<close>

theorem rememberPublish_whole_topics:
  assumes "srv_step\<^sup>*\<^sup>* \<lparr>srv = NewProtocolHandler\<lparr>cacheBudget := b\<rparr>, pubs = []\<rparr> S" and "0 \<le> b"
    and "order_ok it" and "topic \<noteq> []" and "buf \<noteq> []"
  shows "(\<forall>t. cache_of t (rememberPublish it topic seq buf (srv S)) \<in>
      {[], if t = topic then new_entry topic seq buf (srv S) else cache_of t (srv S)}) \<and>
    (cacheBytes (srv S) + int (length buf) \<le> cacheBudget (srv S) \<longrightarrow>
      (\<forall>t. cache_of t (rememberPublish it topic seq buf (srv S)) =
        (if t = topic then new_entry topic seq buf (srv S) else cache_of t (srv S))))"
proof -
  have "bounded (srv S)" using sys_ok_reachable [OF assms(1,2)] by (rule sys_okD)
  then have p: "acct (srv S)" "0 \<le> cacheBudget (srv S)" by (simp_all add: bounded_def)
  show ?thesis using remember_cache_of [OF p(1) assms(3) p(2) assms(4,5)] by blast
qed

theorem rememberPublish_whole_topics_witness:
  "cache_of ''t'' (rememberPublish (\<lambda>ks. ks) ''t'' 1 [7] (NewProtocolHandler\<lparr>cacheBudget := 100\<rparr>)) =
    new_entry ''t'' 1 [7] (NewProtocolHandler\<lparr>cacheBudget := 100\<rparr>)"
proof -
  let ?S = "\<lparr>srv = NewProtocolHandler\<lparr>cacheBudget := 100\<rparr>, pubs = []\<rparr>"
  have "srv_step\<^sup>*\<^sup>* ?S ?S" "(0 :: int) \<le> 100" "order_ok (\<lambda>ks. ks)" "''t'' \<noteq> []" "[7 :: byte] \<noteq> []" by simp_all
  from conjunct2 [OF rememberPublish_whole_topics [OF this, of 1]] show ?thesis
    by (simp add: NewProtocolHandler_def)
qed

end
