(* ===== verification/Protocol_Session.thy ===== *)
theory Protocol_Session
  imports Protocol_Cache
begin

text \<open>
  Sessions and subscriptions, with every handler call, every publish and every sweep of the janitor
  taken as one step: the reverse index and the sessions agree, the replay state of a topic exists
  only while somebody can come back for it, in strict mode every subscriber has a session that
  records the subscription, and a resume moves exactly the recorded subscriptions.
\<close>

section \<open>Views of the state\<close>

abbreviation ses :: "server \<Rightarrow> string \<Rightarrow> session option" where
  "ses p t \<equiv> map_of (sessions p) t"

abbreviation tok :: "server \<Rightarrow> conn \<Rightarrow> string option" where
  "tok p c \<equiv> map_of (connTokens p) c"

definition records :: "server \<Rightarrow> string \<Rightarrow> bool" where
  "records p t \<longleftrightarrow> (\<exists>k s. ses p k = Some s \<and> t \<in> set (s_topics s))"

lemma sessionRecords_iff: "gomap_ok (sessions p) \<Longrightarrow> sessionRecordsTopicLocked t p \<longleftrightarrow> records p t"
  by (auto simp: sessionRecordsTopicLocked_def records_def list_ex_iff gomap_mem_iff [symmetric])

definition alive :: "server \<Rightarrow> string \<Rightarrow> bool" where
  "alive p t \<longleftrightarrow> map_of (topicCache p) t \<noteq> None \<or> map_of (topicSeqs p) t \<noteq> None"

definition holder :: "server \<Rightarrow> string \<Rightarrow> bool" where
  "holder p t \<longleftrightarrow> members_of t p \<noteq> [] \<or> records p t"

text \<open>The sections in terms of the views.\<close>

lemma drop_eq:
  assumes "gomap_ok (sessions p)"
  shows "dropTopicCacheLocked t p =
    (if holder p t then p
     else p\<lparr>cacheBytes := cacheBytes p - frameBytes (cache_of t p),
            topicCache := gdel t (topicCache p), topicSeqs := gdel t (topicSeqs p)\<rparr>)"
  using assms
  by (auto simp: dropTopicCacheLocked_def holder_def members_of_def sessionRecords_iff split: option.splits)

lemma drop_sessions [simp]:
  "sessions (dropTopicCacheLocked t p) = sessions p" "connTokens (dropTopicCacheLocked t p) = connTokens p"
  "subs (dropTopicCacheLocked t p) = subs p" "counters (dropTopicCacheLocked t p) = counters p"
  "requireHello (dropTopicCacheLocked t p) = requireHello p" "sessionTTL (dropTopicCacheLocked t p) = sessionTTL p"
  by (simp_all add: dropTopicCacheLocked_def)

lemma members_of_subs: "subs q = subs p \<Longrightarrow> members_of t q = members_of t p"
  by (simp add: members_of_def)

lemma leave_sessions [simp]:
  "sessions (leave_topic t c p) = sessions p" "connTokens (leave_topic t c p) = connTokens p"
  "topicCache (leave_topic t c p) = topicCache p" "topicSeqs (leave_topic t c p) = topicSeqs p"
  "counters (leave_topic t c p) = counters p" "requireHello (leave_topic t c p) = requireHello p"
  "sessionTTL (leave_topic t c p) = sessionTTL p"
  by (simp_all add: leave_topic_def Let_def split: option.split)

lemma members_drop [simp]: "members_of t (dropTopicCacheLocked x p) = members_of t p"
  by (simp add: members_of_def)

lemma members_leave: "members_of t' (leave_topic t c p) = (if t' = t then removeAll c (members_of t p) else members_of t' p)"
  by (auto simp: leave_topic_def members_of_def Let_def split: option.split)

lemma members_put [simp]: "members_of t' (p\<lparr>subs := gput t ms (subs p)\<rparr>) = (if t' = t then ms else members_of t' p)"
  by (simp add: members_of_def)

lemma record_fields [simp]:
  "subs (record_topic now c t b p) = subs p" "connTokens (record_topic now c t b p) = connTokens p"
  "topicCache (record_topic now c t b p) = topicCache p" "topicSeqs (record_topic now c t b p) = topicSeqs p"
  "counters (record_topic now c t b p) = counters p" "requireHello (record_topic now c t b p) = requireHello p"
  "sessionTTL (record_topic now c t b p) = sessionTTL p"
  by (simp_all add: record_topic_def split: option.split)

lemma members_record [simp]: "members_of t' (record_topic now c t b p) = members_of t' p"
  by (simp add: members_of_def)

lemma ses_record:
  "ses (record_topic now c t b p) k =
     (if tok p c = Some k then map_option (\<lambda>s. s\<lparr>s_topics := (if b then set_add t (s_topics s) else removeAll t (s_topics s)),
         s_lastSeen := now\<rparr>) (ses p k)
      else ses p k)"
  by (auto simp: record_topic_def split: option.split)

lemma touch_fields [simp]:
  "subs (touchSession now c p) = subs p" "connTokens (touchSession now c p) = connTokens p"
  "topicCache (touchSession now c p) = topicCache p" "topicSeqs (touchSession now c p) = topicSeqs p"
  "counters (touchSession now c p) = counters p" "requireHello (touchSession now c p) = requireHello p"
  "sessionTTL (touchSession now c p) = sessionTTL p"
  by (simp_all add: touchSession_def split: option.split)

lemma ses_touch:
  "ses (touchSession now c p) k =
     (if tok p c = Some k then map_option (\<lambda>s. s\<lparr>s_lastSeen := now\<rparr>) (ses p k) else ses p k)"
  by (auto simp: touchSession_def split: option.split)

lemma move_fields [simp]:
  "topicCache (fold (move_topic a b) ts p) = topicCache p" "topicSeqs (fold (move_topic a b) ts p) = topicSeqs p"
  "counters (fold (move_topic a b) ts p) = counters p" "requireHello (fold (move_topic a b) ts p) = requireHello p"
  "sessionTTL (fold (move_topic a b) ts p) = sessionTTL p"
  by (induction ts arbitrary: p) (simp_all add: move_topic_def)

lemma members_move:
  "set (members_of t (fold (move_topic a b) ts p)) =
     (if t \<in> set ts then insert b (set (members_of t p) - {a}) else set (members_of t p))"
proof (induction ts arbitrary: p)
  case (Cons x ts)
  have "set (members_of t (move_topic a b x p)) =
      (if t = x then insert b (set (members_of t p) - {a}) else set (members_of t p))"
    by (simp add: move_topic_def)
  with Cons show ?case by auto
qed simp

section \<open>The session table\<close>

text \<open>The reverse index and the sessions name each other.\<close>

definition table_ok :: "server \<Rightarrow> bool" where
  "table_ok p \<longleftrightarrow> gomap_ok (sessions p) \<and>
     (\<forall>c k. tok p c = Some k \<longleftrightarrow> (\<exists>s. ses p k = Some s \<and> s_conn s = c))"

lemma table_ok_iff: "table_ok p \<Longrightarrow> tok p c = Some k \<longleftrightarrow> (\<exists>s. ses p k = Some s \<and> s_conn s = c)"
  by (simp add: table_ok_def)

lemma table_ok_same:
  assumes "table_ok p" "gomap_ok (sessions q)" "connTokens q = connTokens p"
    and "\<And>k. map_option s_conn (ses q k) = map_option s_conn (ses p k)"
  shows "table_ok q"
proof -
  have "(\<exists>s. ses q k = Some s \<and> s_conn s = c) \<longleftrightarrow> (\<exists>s. ses p k = Some s \<and> s_conn s = c)" for k c
    using assms(4) [of k] by (cases "ses q k"; cases "ses p k") auto
  with assms(1-3) show ?thesis by (simp add: table_ok_def)
qed

lemma table_ok_touch [inv_intros]: "table_ok p \<Longrightarrow> table_ok (touchSession now c p)"
  by (rule table_ok_same)
    (auto simp: ses_touch option.map_comp comp_def table_ok_def touchSession_def split: option.split)

lemma table_ok_record [inv_intros]: "table_ok p \<Longrightarrow> table_ok (record_topic now c t b p)"
  by (rule table_ok_same)
    (auto simp: ses_record option.map_comp comp_def table_ok_def record_topic_def split: option.split)

lemma table_ok_drop [inv_intros]: "table_ok p \<Longrightarrow> table_ok (dropTopicCacheLocked t p)"
  by (simp add: table_ok_def)

lemma table_ok_leave [inv_intros]: "table_ok p \<Longrightarrow> table_ok (leave_topic t c p)"
  by (simp add: table_ok_def)

lemma table_tok: "table_ok p \<Longrightarrow> ses p k = Some s \<Longrightarrow> tok p (s_conn s) = Some k"
  by (auto simp: table_ok_def)

lemma table_ses: "table_ok p \<Longrightarrow> tok p c = Some k \<Longrightarrow> \<exists>s. ses p k = Some s \<and> s_conn s = c"
  by (simp add: table_ok_def)

lemma table_okI:
  assumes "gomap_ok (sessions p)" "\<And>k s. ses p k = Some s \<Longrightarrow> tok p (s_conn s) = Some k"
    "\<And>c k. tok p c = Some k \<Longrightarrow> \<exists>s. ses p k = Some s \<and> s_conn s = c"
  shows "table_ok p"
  using assms by (auto simp: table_ok_def)

lemma table_ok_fresh:
  assumes "table_ok p" "tok p c = None" "ses p k = None" "s_conn s = c"
  shows "table_ok (p\<lparr>sessions := gput k s (sessions p), connTokens := gput c k (connTokens p)\<rparr>)"
proof (rule table_okI)
  show "gomap_ok (sessions (p\<lparr>sessions := gput k s (sessions p), connTokens := gput c k (connTokens p)\<rparr>))"
    using assms(1) by (simp add: table_ok_def)
qed (use assms table_tok [OF assms(1)] table_ses [OF assms(1)] in \<open>auto split: if_splits\<close>, fastforce+)

lemma table_ok_resume:
  assumes "table_ok p" "tok p c = None" "ses p k = Some s"
  shows "table_ok (fold (move_topic (s_conn s) c) ts p
    \<lparr>sessions := gput k (s\<lparr>s_conn := c, s_lastSeen := now\<rparr>) (sessions p),
     connTokens := gput c k (gdel (s_conn s) (connTokens p))\<rparr>)" (is "table_ok ?q")
proof (rule table_okI)
  show "gomap_ok (sessions ?q)" using assms(1) by (simp add: table_ok_def)
  show "tok ?q (s_conn s') = Some k'" if "ses ?q k' = Some s'" for k' s'
    using that assms table_tok [OF assms(1), of k' s'] table_tok [OF assms(1,3)] by (auto split: if_splits)
  show "\<exists>s'. ses ?q k' = Some s' \<and> s_conn s' = c'" if "tok ?q c' = Some k'" for c' k'
    using that assms table_ses [OF assms(1), of c' k'] by (auto split: if_splits)
qed

lemma table_ok_attach:
  assumes "table_ok p" "tok p c = None" "ses p new = None"
  shows "table_ok (fst (attachSession it now new c token cur p))"
proof -
  have "table_ok (p\<lparr>sessions := gput new \<lparr>s_conn = c, s_topics = [], s_lastSeen = now\<rparr> (sessions p),
      connTokens := gput c new (connTokens p)\<rparr>)"
    using assms by (intro table_ok_fresh) simp_all
  with assms(1,2) show ?thesis
    by (simp add: attachSession_def Let_def table_ok_resume split: option.split)
qed

lemma table_ok_unlink:
  assumes "table_ok p" "ses p k = Some s"
  shows "table_ok (p\<lparr>sessions := gdel k (sessions p), connTokens := gdel (s_conn s) (connTokens p)\<rparr>)" (is "table_ok ?q")
proof (rule table_okI)
  show "gomap_ok (sessions ?q)" using assms(1) by (simp add: table_ok_def)
  show "tok ?q (s_conn s') = Some k'" if "ses ?q k' = Some s'" for k' s'
    using that table_tok [OF assms(1), of k' s'] table_tok [OF assms] by (auto split: if_splits)
  show "\<exists>s'. ses ?q k' = Some s' \<and> s_conn s' = c'" if "tok ?q c' = Some k'" for c' k'
    using that assms(2) table_ses [OF assms(1), of c' k'] by (auto split: if_splits)
qed

section \<open>Replay state needs a holder\<close>

definition holder_inv :: "server \<Rightarrow> bool" where
  "holder_inv p \<longleftrightarrow> (\<forall>t. alive p t \<longrightarrow> holder p t)"

lemma holder_drop [simp]: "holder (dropTopicCacheLocked t p) t' = holder p t'"
  by (simp add: holder_def records_def members_of_def)

lemma alive_drop: "gomap_ok (sessions p) \<Longrightarrow> alive (dropTopicCacheLocked t p) t' \<longleftrightarrow> alive p t' \<and> (t' = t \<longrightarrow> holder p t)"
  by (auto simp: drop_eq alive_def)

text \<open>Dropping a topic restores the invariant when only that topic may have lost its last holder.\<close>

lemma holder_inv_dropI:
  assumes "gomap_ok (sessions p)" "\<And>t'. t' \<noteq> t \<Longrightarrow> alive p t' \<Longrightarrow> holder p t'"
  shows "holder_inv (dropTopicCacheLocked t p)"
  unfolding holder_inv_def alive_drop [OF assms(1)] holder_drop
proof (intro allI impI)
  fix t' assume "alive p t' \<and> (t' = t \<longrightarrow> holder p t)"
  then show "holder p t'" using assms(2) [of t'] by (cases "t' = t") simp_all
qed

lemma holder_inv_mono:
  assumes "holder_inv p" "\<And>t. alive q t \<Longrightarrow> alive p t" "\<And>t. alive q t \<Longrightarrow> holder p t \<Longrightarrow> holder q t"
  shows "holder_inv q"
  using assms by (auto simp: holder_inv_def)

lemma alive_same: "topicCache q = topicCache p \<Longrightarrow> topicSeqs q = topicSeqs p \<Longrightarrow> alive q t = alive p t"
  by (simp add: alive_def)

lemma holder_leave: "t' \<noteq> t \<Longrightarrow> holder (leave_topic t c p) t' = holder p t'"
  by (simp add: holder_def records_def members_leave)

lemma holder_remove:
  "table_ok p \<Longrightarrow> holder_inv p \<Longrightarrow> holder_inv (removeSubscriber t c p)"
  unfolding removeSubscriber_def
  by (intro holder_inv_dropI) (auto simp: table_ok_def holder_leave alive_same holder_inv_def alive_def)

lemma records_same:
  assumes "\<And>k. map_option s_topics (ses q k) = map_option s_topics (ses p k)"
  shows "records q t = records p t"
proof -
  have "records r t \<longleftrightarrow> (\<exists>k ts. map_option s_topics (ses r k) = Some ts \<and> t \<in> set ts)" for r
    by (auto simp: records_def)
  then show ?thesis by (simp only: assms)
qed

lemma records_touch: "records (touchSession now c p) t = records p t"
  by (rule records_same) (simp add: ses_touch option.map_comp comp_def)

lemma records_record_other: "t' \<noteq> t \<Longrightarrow> records p t' \<Longrightarrow> records (record_topic now c t b p) t'"
  unfolding records_def
proof -
  assume ne: "t' \<noteq> t" and "\<exists>k s. ses p k = Some s \<and> t' \<in> set (s_topics s)"
  then obtain k s where "ses p k = Some s" "t' \<in> set (s_topics s)" by blast
  with ne have "\<exists>s'. ses (record_topic now c t b p) k = Some s' \<and> t' \<in> set (s_topics s')"
    by (auto simp: ses_record)
  then show "\<exists>k s. ses (record_topic now c t b p) k = Some s \<and> t' \<in> set (s_topics s)" by blast
qed

lemma records_record_True: "records p t' \<Longrightarrow> records (record_topic now c t True p) t'"
  unfolding records_def
proof -
  assume "\<exists>k s. ses p k = Some s \<and> t' \<in> set (s_topics s)"
  then obtain k s where "ses p k = Some s" "t' \<in> set (s_topics s)" by blast
  then have "\<exists>s'. ses (record_topic now c t True p) k = Some s' \<and> t' \<in> set (s_topics s')"
    by (auto simp: ses_record)
  then show "\<exists>k s. ses (record_topic now c t True p) k = Some s \<and> t' \<in> set (s_topics s)" by blast
qed

lemma holder_touch: "holder_inv p \<Longrightarrow> holder_inv (touchSession now c p)"
  by (erule holder_inv_mono) (auto simp: alive_def holder_def members_of_def records_touch)

lemma holder_subscribe:
  assumes "table_ok p" "holder_inv p"
  shows "holder_inv (fst (subscribe_locked now c t b p))"
proof (cases b)
  case True
  let ?q = "p\<lparr>subs := gput t (set_add c (members_of t p)) (subs p)\<rparr>"
  have "holder_inv (record_topic now c t True ?q)"
    using assms(2)
  proof (rule holder_inv_mono)
    fix t' assume h: "holder p t'"
    have "records ?q t' = records p t'" by (simp add: records_def)
    with h records_record_True [of ?q t'] show "holder (record_topic now c t True ?q) t'"
      by (auto simp: holder_def members_of_def)
  qed (simp add: alive_def)
  with True show ?thesis by (simp add: subscribe_locked_def Let_def)
next
  case False
  let ?l = "leave_topic t c p"
  let ?q = "if (case map_of (subs p) t of None \<Rightarrow> False | Some ms \<Rightarrow> length (removeAll c ms) = 0)
    then dropTopicCacheLocked t ?l else ?l"
  have "?l = p" if "map_of (subs p) t = None" using that by (simp add: leave_topic_def)
  then have eq: "fst (subscribe_locked now c t b p) = dropTopicCacheLocked t (record_topic now c t False ?q)"
    using False by (auto simp: subscribe_locked_def Let_def split: option.split)
  have gok: "gomap_ok (sessions ?l)" using assms(1) by (simp add: table_ok_def)
  have q: "sessions ?q = sessions p" "connTokens ?q = connTokens p" "subs ?q = subs ?l" by simp_all
  have "alive ?l t' = alive p t'" for t' by (simp add: alive_def)
  then have qa: "alive p t'" if "alive ?q t'" for t'
    using that by (auto simp: alive_drop [OF gok] split: if_splits)
  have qm: "members_of t' ?q = members_of t' p" if "t' \<noteq> t" for t'
    using that members_of_subs [OF q(3)] by (simp add: members_leave)
  have "holder_inv (dropTopicCacheLocked t (record_topic now c t False ?q))"
  proof (rule holder_inv_dropI)
    have "table_ok ?q" using assms(1) q(1,2) by (simp add: table_ok_def)
    then show "gomap_ok (sessions (record_topic now c t False ?q))"
      using table_ok_record by (auto simp: table_ok_def)
    fix t' assume ne: "t' \<noteq> t" and "alive (record_topic now c t False ?q) t'"
    then have "alive ?q t'" by (simp add: alive_def)
    then have "holder p t'" using qa assms(2) by (auto simp: holder_inv_def)
    moreover have "records ?q t' = records p t'" using q(1) by (simp add: records_def)
    ultimately show "holder (record_topic now c t False ?q) t'"
      using members_of_subs [OF record_fields(1)] qm [OF ne] records_record_other [OF ne, of ?q]
      by (auto simp: holder_def)
  qed
  with eq show ?thesis by simp
qed

lemma records_attach:
  assumes "ses p new = None"
  shows "records (fst (attachSession it now new c token cur p)) t = records p t"
proof -
  have fresh: "records (p\<lparr>sessions := gput new \<lparr>s_conn = c, s_topics = [], s_lastSeen = now\<rparr> (sessions p),
      connTokens := x\<rparr>) t = records p t" for x
  proof
    assume "records p t"
    then obtain k s where k: "ses p k = Some s" "t \<in> set (s_topics s)" by (auto simp: records_def)
    then have "k \<noteq> new" using assms by auto
    with k show "records (p\<lparr>sessions := gput new \<lparr>s_conn = c, s_topics = [], s_lastSeen = now\<rparr> (sessions p),
      connTokens := x\<rparr>) t" unfolding records_def by (intro exI [of _ k] exI [of _ s]) simp
  qed (auto simp: records_def split: if_splits)
  have resumed: "records (fold (move_topic (s_conn s) c) (s_topics s) p
      \<lparr>sessions := gput token (s\<lparr>s_conn := c, s_lastSeen := now\<rparr>) (sessions p), connTokens := x\<rparr>) t = records p t"
    if "ses p token = Some s" for s x
    by (rule records_same) (simp add: that)
  show ?thesis using fresh resumed by (auto simp: attachSession_def Let_def split: option.split)
qed

lemma members_attach:
  "set (members_of t (fst (attachSession it now new c token cur p))) =
     (case (if token = [] then None else ses p token) of
        Some s \<Rightarrow> (if now - s_lastSeen s \<le> sessionTTL p \<and> t \<in> set (s_topics s)
                  then insert c (set (members_of t p) - {s_conn s}) else set (members_of t p))
      | None \<Rightarrow> set (members_of t p))"
proof -
  have 1: "members_of t (q\<lparr>sessions := x, connTokens := y\<rparr>) = members_of t q" for q x y
    by (simp add: members_of_def)
  show ?thesis
    by (auto simp: attachSession_def Let_def 1 members_move split: option.split)
qed

lemma alive_attach: "alive (fst (attachSession it now new c token cur p)) t = alive p t"
  by (auto simp: attachSession_def Let_def alive_def split: option.split)

lemma holder_attach:
  assumes "ses p new = None" "holder_inv p"
  shows "holder_inv (fst (attachSession it now new c token cur p))"
  using assms(2)
proof (rule holder_inv_mono)
  fix t assume "holder p t"
  moreover have "members_of t p \<noteq> [] \<Longrightarrow> members_of t (fst (attachSession it now new c token cur p)) \<noteq> []"
    using members_attach [of t it now new c token cur p] by (auto split: option.splits if_splits)
  ultimately show "holder (fst (attachSession it now new c token cur p)) t"
    using records_attach [OF assms(1)] by (auto simp: holder_def)
qed (simp add: alive_attach)

text \<open>Reaping: a session goes, and with it what only it held.\<close>

abbreviation leave_drop :: "conn \<Rightarrow> string \<Rightarrow> server \<Rightarrow> server" where
  "leave_drop c \<equiv> \<lambda>t q. dropTopicCacheLocked t (leave_topic t c q)"

lemma leave_drop_fields [simp]:
  "sessions (fold (leave_drop c) ts p) = sessions p" "connTokens (fold (leave_drop c) ts p) = connTokens p"
  "counters (fold (leave_drop c) ts p) = counters p" "requireHello (fold (leave_drop c) ts p) = requireHello p"
  "sessionTTL (fold (leave_drop c) ts p) = sessionTTL p"
  by (induction ts arbitrary: p) simp_all

lemma members_leave_drop:
  "set (members_of t (fold (leave_drop c) ts p)) = (if t \<in> set ts then set (members_of t p) - {c} else set (members_of t p))"
proof (induction ts arbitrary: p)
  case (Cons x ts)
  have "set (members_of t (leave_drop c x p)) = (if t = x then set (members_of t p) - {c} else set (members_of t p))"
    using members_of_subs [OF drop_sessions(3), of t x "leave_topic x c p"] by (simp add: members_leave)
  with Cons show ?case by auto
qed simp

lemma holder_leave_drop:
  assumes "gomap_ok (sessions p)" "\<And>t. alive p t \<Longrightarrow> t \<notin> set ts \<Longrightarrow> holder p t"
  shows "holder_inv (fold (leave_drop c) ts p)"
  using assms
proof (induction ts arbitrary: p)
  case Nil
  then show ?case by (simp add: holder_inv_def)
next
  case (Cons x ts)
  have gok: "gomap_ok (sessions (leave_topic x c p))" using Cons.prems(1) by simp
  have "holder_inv (fold (leave_drop c) ts (leave_drop c x p))"
  proof (rule Cons.IH)
    fix t assume "alive (leave_drop c x p) t" and ts: "t \<notin> set ts"
    then have a: "alive (leave_topic x c p) t" "t = x \<Longrightarrow> holder (leave_topic x c p) x"
      by (auto simp: alive_drop [OF gok])
    from a(1) have "alive p t" by (simp add: alive_def)
    then have "t \<noteq> x \<Longrightarrow> holder (leave_topic x c p) t" using Cons.prems(2) [of t] ts by (simp add: holder_leave)
    with a(2) show "holder (leave_drop c x p) t" by (cases "t = x") simp_all
  qed (use gok in simp)
  then show ?case by simp
qed

lemma reap_cases:
  obtains "reap_session now k p = p"
  | s where "ses p k = Some s" "now - s_lastSeen s > sessionTTL p"
      "reap_session now k p = fold (leave_drop (s_conn s)) (s_topics s)
        (p\<lparr>sessions := gdel k (sessions p), connTokens := gdel (s_conn s) (connTokens p)\<rparr>)"
proof (cases "ses p k")
  case None
  then show ?thesis by (intro that(1)) (simp add: reap_session_def)
next
  case (Some s)
  show ?thesis
  proof (cases "now - s_lastSeen s > sessionTTL p")
    case True
    then show ?thesis using Some by (intro that(2)) (simp_all add: reap_session_def)
  next
    case False
    then show ?thesis using Some by (intro that(1)) (simp add: reap_session_def)
  qed
qed

lemma table_ok_reap [inv_intros]: "table_ok p \<Longrightarrow> table_ok (reap_session now k p)"
proof (cases rule: reap_cases [of now k p])
  case (2 s)
  assume "table_ok p"
  from table_ok_unlink [OF this 2(1)] show ?thesis by (simp add: 2(3) table_ok_def)
qed simp

lemma holder_reap:
  assumes "table_ok p" "holder_inv p"
  shows "holder_inv (reap_session now k p)"
proof (cases rule: reap_cases [of now k p])
  case (2 s)
  let ?q = "p\<lparr>sessions := gdel k (sessions p), connTokens := gdel (s_conn s) (connTokens p)\<rparr>"
  have "holder_inv (fold (leave_drop (s_conn s)) (s_topics s) ?q)"
  proof (rule holder_leave_drop)
    show "gomap_ok (sessions ?q)" using assms(1) by (simp add: table_ok_def)
    fix t assume a: "alive ?q t" and t: "t \<notin> set (s_topics s)"
    from a have "alive p t" by (simp add: alive_def)
    then have "holder p t" using assms(2) by (simp add: holder_inv_def)
    moreover have "records ?q t" if "records p t"
    proof -
      from that obtain k' s' where k': "ses p k' = Some s'" "t \<in> set (s_topics s')" by (auto simp: records_def)
      with t 2(1) have "k' \<noteq> k" by auto
      with k' show ?thesis unfolding records_def by (intro exI [of _ k'] exI [of _ s']) simp
    qed
    ultimately show "holder ?q t" by (auto simp: holder_def members_of_def)
  qed
  then show ?thesis by (simp add: 2(3))
qed (use assms in simp)

section \<open>Strict mode: subscribers have sessions that know them\<close>

definition strict_inv :: "server \<Rightarrow> bool" where
  "strict_inv p \<longleftrightarrow> (\<forall>t c. c \<in> set (members_of t p) \<longrightarrow>
     (\<exists>k s. tok p c = Some k \<and> ses p k = Some s \<and> t \<in> set (s_topics s)))"

lemma strict_inv_mono:
  assumes "strict_inv p" "\<And>t. set (members_of t q) \<subseteq> set (members_of t p)" "connTokens q = connTokens p"
    and "\<And>k. map_option s_topics (ses q k) = map_option s_topics (ses p k)"
  shows "strict_inv q"
  unfolding strict_inv_def
proof (intro allI impI)
  fix t c assume "c \<in> set (members_of t q)"
  with assms(1,2) obtain k s where "tok p c = Some k" "ses p k = Some s" "t \<in> set (s_topics s)"
    unfolding strict_inv_def by blast
  with assms(3) assms(4) [of k] show "\<exists>k s. tok q c = Some k \<and> ses q k = Some s \<and> t \<in> set (s_topics s)"
    by auto
qed

lemma strict_touch: "strict_inv p \<Longrightarrow> strict_inv (touchSession now c p)"
  by (erule strict_inv_mono) (simp_all add: members_of_subs [OF touch_fields(1)] ses_touch option.map_comp comp_def)

lemma strict_remove: "strict_inv p \<Longrightarrow> strict_inv (removeSubscriber t c p)"
  by (erule strict_inv_mono)
    (auto simp: removeSubscriber_def members_of_subs [OF drop_sessions(3)] members_leave)

lemma strict_subscribe:
  assumes "table_ok p" "strict_inv p" "tok p c = Some k"
  shows "strict_inv (fst (subscribe_locked now c t b p))" (is "strict_inv ?q")
  unfolding strict_inv_def
proof (intro allI impI)
  fix t' c' assume m: "c' \<in> set (members_of t' ?q)"
  have q: "connTokens ?q = connTokens p" "\<And>k'. ses ?q k' = ses (record_topic now c t b p) k'"
    by (auto simp: subscribe_locked_def Let_def ses_record split: option.split)
  have sub: "set (members_of t' ?q) = (if t' = t then (if b then insert c (set (members_of t p)) else set (members_of t p) - {c})
      else set (members_of t' p))"
  proof (cases "map_of (subs p) t")
    case None
    then have "members_of t p = []" by (simp add: members_of_def)
    with None show ?thesis by (simp add: subscribe_locked_def Let_def)
  next
    case (Some ms)
    then show ?thesis by (simp add: subscribe_locked_def Let_def members_leave)
  qed
  obtain s where s: "ses p k = Some s" "s_conn s = c" using table_ses [OF assms(1,3)] by blast
  show "\<exists>k s. tok ?q c' = Some k \<and> ses ?q k = Some s \<and> t' \<in> set (s_topics s)"
  proof (cases "c' = c \<and> t' = t")
    case True
    with m sub have b by (auto split: if_splits)
    with True assms(3) s show ?thesis unfolding q by (simp add: ses_record)
  next
    case False
    with m sub have "c' \<in> set (members_of t' p)" by (auto split: if_splits)
    then obtain k' s' where k': "tok p c' = Some k'" "ses p k' = Some s'" "t' \<in> set (s_topics s')"
      using assms(2) unfolding strict_inv_def by blast
    show ?thesis
    proof (cases "k' = k")
      case True
      with k' s table_tok [OF assms(1) s(1)] table_ses [OF assms(1) k'(1)] have "c' = c" by auto
      with False have "t' \<noteq> t" by blast
      with True k' assms(3) show ?thesis by (simp add: q ses_record \<open>c' = c\<close>)
    next
      case False
      with k' assms(3) show ?thesis by (simp add: q ses_record)
    qed
  qed
qed

lemma strict_attach:
  assumes "table_ok p" "strict_inv p" "tok p c = None" "ses p new = None"
  shows "strict_inv (fst (attachSession it now new c token cur p))" (is "strict_inv ?q")
  unfolding strict_inv_def
proof (intro allI impI)
  fix t' c' assume m: "c' \<in> set (members_of t' ?q)"
  show "\<exists>k s. tok ?q c' = Some k \<and> ses ?q k = Some s \<and> t' \<in> set (s_topics s)"
  proof (cases "\<exists>s. token \<noteq> [] \<and> ses p token = Some s \<and> now - s_lastSeen s \<le> sessionTTL p")
    case True
    then obtain s where s: "token \<noteq> []" "ses p token = Some s" "now - s_lastSeen s \<le> sessionTTL p" by blast
    have ts: "tok ?q x = (if x = c then Some token else if x = s_conn s then None else tok p x)"
      "ses ?q k = (if k = token then Some (s\<lparr>s_conn := c, s_lastSeen := now\<rparr>) else ses p k)" for x k
      using s by (simp_all add: attachSession_def Let_def)
    have m': "c' \<in> (if t' \<in> set (s_topics s) then insert c (set (members_of t' p) - {s_conn s}) else set (members_of t' p))"
      using m s members_attach [of t' it now new c token cur p] by simp
    have old: "\<exists>k s'. tok p c' = Some k \<and> ses p k = Some s' \<and> t' \<in> set (s_topics s')"
      if "c' \<in> set (members_of t' p)" using that assms(2) unfolding strict_inv_def by blast
    show ?thesis
    proof (cases "c' = c")
      case True
      with m' old assms(3) have "t' \<in> set (s_topics s)" by (auto split: if_splits)
      with True show ?thesis by (simp add: ts)
    next
      case False
      with m' have "c' \<in> set (members_of t' p)" by (auto split: if_splits)
      with old obtain k s' where k: "tok p c' = Some k" "ses p k = Some s'" "t' \<in> set (s_topics s')" by blast
      have "k \<noteq> token"
      proof
        assume "k = token"
        with k s table_ses [OF assms(1) k(1)] have "c' = s_conn s" "t' \<in> set (s_topics s)" by auto
        with m' False show False by simp
      qed
      moreover from this have "c' \<noteq> s_conn s" using k(1) table_tok [OF assms(1) s(2)] by auto
      ultimately show ?thesis using k False by (simp add: ts)
    qed
  next
    case False
    then have ts: "tok ?q x = (if x = c then Some new else tok p x)"
      "ses ?q k = (if k = new then Some \<lparr>s_conn = c, s_topics = [], s_lastSeen = now\<rparr> else ses p k)" for x k
      by (auto simp: attachSession_def Let_def split: option.split)
    have "c' \<in> set (members_of t' p)"
      using m False members_attach [of t' it now new c token cur p] by (auto split: option.splits if_splits)
    then obtain k s' where k: "tok p c' = Some k" "ses p k = Some s'" "t' \<in> set (s_topics s')"
      using assms(2) unfolding strict_inv_def by blast
    then have "c' \<noteq> c" "k \<noteq> new" using assms(3,4) by auto
    with k show ?thesis by (simp add: ts)
  qed
qed

lemma strict_reap:
  assumes "table_ok p" "strict_inv p"
  shows "strict_inv (reap_session now k p)"
proof (cases rule: reap_cases [of now k p])
  case (2 s)
  show ?thesis unfolding strict_inv_def
  proof (intro allI impI)
    fix t c assume "c \<in> set (members_of t (reap_session now k p))"
    then have m: "c \<in> set (members_of t p)" "t \<in> set (s_topics s) \<Longrightarrow> c \<noteq> s_conn s"
      unfolding 2(3) members_leave_drop by (auto simp: members_of_def split: if_splits)
    then obtain k' s' where k': "tok p c = Some k'" "ses p k' = Some s'" "t \<in> set (s_topics s')"
      using assms(2) unfolding strict_inv_def by blast
    have "k' \<noteq> k"
      using k' m(2) table_ses [OF assms(1) k'(1)] 2(1) by auto
    moreover from this have "c \<noteq> s_conn s" using k'(1) table_tok [OF assms(1) 2(1)] by auto
    ultimately show "\<exists>k'' s. tok (reap_session now k p) c = Some k'' \<and>
        ses (reap_session now k p) k'' = Some s \<and> t \<in> set (s_topics s)"
      using k' unfolding 2(3) by simp
  qed
qed (use assms in simp)

end
