(* ===== verification/Protocol_Serve.thy ===== *)
theory Protocol_Serve
  imports Protocol_Session
begin

text \<open>
  The server as a whole: handler calls, publishes and janitor sweeps one after the other. The
  invariants of \<open>Protocol_Session\<close> are carried through the handlers, the cached publishes of a topic
  are shown to be its encoded publishes in strictly increasing sequence, and the properties that a
  client relies on are stated over the reachable states.
\<close>

section \<open>What a handler call does to the state\<close>

lemma dispatch_cases:
  obtains (same) "fst (dispatch h e c f p) = p"
  | (attach) token cur where "tok p c = None"
      "fst (dispatch h e c f p) = fst (attachSession (env_topics e) (env_now e)
         (newSessionToken (env_rnd e) (env_now e)) c token cur p)"
  | (subscribe) t b where "t \<noteq> []" "FrameHeader.FrameType (Header f) \<noteq> HELLO"
      "fst (dispatch h e c f p) = fst (subscribe_locked (env_now e) c t b p)"
  | (ping) "fst (dispatch h e c f p) = p\<lparr>pings := pings p + 1\<rparr>"
  | (pong) "fst (dispatch h e c f p) = p\<lparr>pongs := pongs p + 1\<rparr>"
proof -
  have hello: thesis if t: "FrameHeader.FrameType (Header f) = HELLO"
  proof -
    have eq: "fst (dispatch h e c f p) = fst (handleHello e c f p)" using t by (simp add: dispatch_def)
    have "fst (handleHello e c f p) = p \<or> (tok p c = None \<and> (\<exists>token cur. fst (handleHello e c f p) =
        fst (attachSession (env_topics e) (env_now e) (newSessionToken (env_rnd e) (env_now e)) c token cur p)))"
      by (auto simp: handleHello_def Let_def split: sum.split prod.split) (metis fst_conv)+
    then show ?thesis using same attach eq by auto
  qed
  have sub: thesis if t: "FrameHeader.FrameType (Header f) \<noteq> HELLO"
    and eq: "fst (dispatch h e c f p) = fst (handleSubscribe e c f b p)" for b
  proof (cases "topicOf f")
    case (Inl err)
    with eq same show ?thesis by (simp add: handleSubscribe_def)
  next
    case (Inr topic)
    have "fst (handleSubscribe e c f b p) = fst (subscribe_locked (env_now e) c topic b p)"
      using Inr by (simp add: handleSubscribe_def split: prod.split)
    with subscribe [OF topicOf_named [OF Inr] t] eq show ?thesis by simp
  qed
  have d: "HELLO \<noteq> SUBSCRIBE" "HELLO \<noteq> UNSUBSCRIBE" by (simp_all add: wire_defs)
  let ?t = "FrameHeader.FrameType (Header f)"
  consider "?t = HELLO" | "?t = SUBSCRIBE" | "?t = UNSUBSCRIBE" | "?t = PING" | "?t = PONG"
    | "?t \<notin> {HELLO, SUBSCRIBE, UNSUBSCRIBE, PING, PONG}" by blast
  then show thesis
  proof cases
    case 1 then show ?thesis by (rule hello)
  next
    case 2 then show ?thesis using d by (intro sub [of True]) (auto simp: dispatch_def wire_defs)
  next
    case 3 then show ?thesis using d by (intro sub [of False]) (auto simp: dispatch_def wire_defs)
  next
    case 4 then show ?thesis by (intro ping) (simp add: dispatch_def wire_defs)
  next
    case 5 then show ?thesis by (intro pong) (simp add: dispatch_def wire_defs)
  next
    case 6 then show ?thesis by (intro same) (auto simp: dispatch_def Let_def)
  qed
qed

text \<open>The failing writes of a delivery, as removals.\<close>

lemma deliver_Cons:
  "fst (deliver e t buf (c # ms) p) = fst (deliver e t buf ms (if env_write_ok e c 0 then p else removeSubscriber t c p))"
  "fst (snd (deliver e t buf (c # ms) p)) =
    (if env_write_ok e c 0 then Suc else id) (fst (snd (deliver e t buf ms (if env_write_ok e c 0 then p else removeSubscriber t c p))))"
  by (simp_all add: Let_def split: prod.split)

lemma deliver_state:
  "fst (deliver e t buf ms p) = fold (removeSubscriber t) (filter (\<lambda>c. \<not> env_write_ok e c 0) ms) p"
proof (induction ms arbitrary: p)
  case (Cons c ms)
  then show ?case unfolding deliver_Cons by simp
qed simp

lemma deliver_count: "fst (snd (deliver e t buf ms p)) = length (filter (\<lambda>c. env_write_ok e c 0) ms)"
proof (induction ms arbitrary: p)
  case (Cons c ms)
  then show ?case unfolding deliver_Cons by simp
qed simp

section \<open>What a publish does to the state\<close>

text \<open>The state after the two sections that number the publish.\<close>

definition numbered :: "string \<Rightarrow> server \<Rightarrow> server" where
  "numbered t p = fst (counter_add (snd (publish_counter t p)) (fst (publish_counter t p)))"

definition next_seq :: "string \<Rightarrow> server \<Rightarrow> uint32" where
  "next_seq t p = (case map_of (topicSeqs p) t of None \<Rightarrow> 0 | Some a \<Rightarrow> counters p ! a) + 1"

definition publish_frame :: "string \<Rightarrow> string \<Rightarrow> uint32 \<Rightarrow> Frame" where
  "publish_frame t body seq = newFrame PUBLISH seq (mustJSON t body)"

lemma numbered_fields [simp]:
  "subs (numbered t p) = subs p" "sessions (numbered t p) = sessions p" "connTokens (numbered t p) = connTokens p"
  "topicCache (numbered t p) = topicCache p" "cacheBytes (numbered t p) = cacheBytes p"
  "cacheBudget (numbered t p) = cacheBudget p" "requireHello (numbered t p) = requireHello p"
  "sessionTTL (numbered t p) = sessionTTL p"
  by (simp_all add: numbered_def counter_add_def publish_counter_def Let_def split: option.split)

lemma numbered_topicSeqs:
  "map_of (topicSeqs (numbered t p)) t' \<noteq> None \<longleftrightarrow> t' = t \<or> map_of (topicSeqs p) t' \<noteq> None"
  by (auto simp: numbered_def counter_add_def publish_counter_def Let_def split: option.split)

lemma counter_add_seq: "snd (counter_add (snd (publish_counter t p)) (fst (publish_counter t p))) = next_seq t p"
  by (simp add: counter_add_def publish_counter_def next_seq_def Let_def split: option.split)

lemma StreamId_newFrame [simp]: "StreamId (Header (newFrame ty sid pl)) = sid"
  by (simp add: newFrame_def Let_def)

lemma Publish_eq:
  "Publish e t payload p =
     (case json_Marshal payload of
        None \<Rightarrow> (p, Inl PublishMarshal, [])
      | Some body \<Rightarrow>
          (if env_conns e (members_of t p) = [] \<and> \<not> sessionRecordsTopicLocked t p then (p, Inr 0, [])
           else case Encode (Some (publish_frame t body (next_seq t p))) of
             Inl err \<Rightarrow> (numbered t p, Inl (PublishEncode err), [])
           | Inr buf \<Rightarrow>
               (let d = deliver e t buf (env_conns e (members_of t p))
                          (rememberPublish (env_topics e) t (next_seq t p) buf (numbered t p))
                in (fst d, Inr (fst (snd d)), snd (snd d)))))"
proof -
  obtain q a where qa: "publish_counter t p = (q, a)" by fastforce
  obtain r v where rv: "counter_add a q = (r, v)" by fastforce
  have v: "v = next_seq t p" and r: "r = numbered t p"
    using counter_add_seq [of t p] qa rv by (simp_all add: numbered_def)
  show ?thesis
    by (auto simp: Publish_def publish_snapshot_def qa rv v r publish_frame_def split: option.split sum.split prod.split)
qed

lemma Publish_cases:
  obtains (same) "fst (Publish e t payload p) = p"
  | (failed) body err where "json_Marshal payload = Some body"
      "env_conns e (members_of t p) \<noteq> [] \<or> sessionRecordsTopicLocked t p"
      "Encode (Some (publish_frame t body (next_seq t p))) = Inl err"
      "fst (Publish e t payload p) = numbered t p"
  | (sent) body buf where "json_Marshal payload = Some body"
      "env_conns e (members_of t p) \<noteq> [] \<or> sessionRecordsTopicLocked t p"
      "Encode (Some (publish_frame t body (next_seq t p))) = Inr buf"
      "fst (Publish e t payload p) = fold (removeSubscriber t)
         (filter (\<lambda>c. \<not> env_write_ok e c 0) (env_conns e (members_of t p)))
         (rememberPublish (env_topics e) t (next_seq t p) buf (numbered t p))"
proof (cases "json_Marshal payload")
  case None
  then show ?thesis by (intro same) (simp add: Publish_eq)
next
  case (Some body)
  show ?thesis
  proof (cases "env_conns e (members_of t p) \<noteq> [] \<or> sessionRecordsTopicLocked t p")
    case False
    with Some show ?thesis by (intro same) (simp add: Publish_eq)
  next
    case True
    then show ?thesis
      using failed [OF Some True] sent [OF Some True] Some
      by (cases "Encode (Some (publish_frame t body (next_seq t p)))") (auto simp: Publish_eq Let_def deliver_state)
  qed
qed

lemma cached_alive:
  assumes "acct p" shows "map_of (topicCache p) t \<noteq> None \<longleftrightarrow> cache_of t p \<noteq> []"
  using assms by (auto simp: acct_def cache_of_def entry_ok_def dest!: map_of_SomeD split: option.split)

lemma alive_remember:
  assumes "bounded p" "order_ok it" "topic \<noteq> []" "buf \<noteq> []" "alive (rememberPublish it topic seq buf p) t"
  shows "t = topic \<or> alive p t"
proof -
  have p: "acct p" "0 \<le> cacheBudget p" using assms(1) by (simp_all add: bounded_def)
  note spec = remember_spec [OF p(1) assms(2) p(2) assms(3,4), of seq]
  have "topicSeqs (rememberPublish it topic seq buf p) = topicSeqs p" using spec(3) by auto
  with assms(5) remember_cache_of(1) [OF p(1) assms(2) p(2) assms(3,4), of t seq] show ?thesis
    unfolding alive_def cached_alive [OF spec(1)] cached_alive [OF p(1)] by (auto split: if_splits)
qed

section \<open>Serving\<close>

text \<open>
  What the surroundings provide to a call: map iterations that visit every key once, and a session
  token that is not in use (\<open>crypto/rand\<close> gives sixteen fresh bytes).
\<close>

definition env_ok :: "env \<Rightarrow> server \<Rightarrow> bool" where
  "env_ok e p \<longleftrightarrow> order_ok (env_topics e) \<and> order_ok (env_conns e) \<and>
     ses p (newSessionToken (env_rnd e) (env_now e)) = None"

text \<open>One call after the other: a message for the handler, a publish, a sweep of the janitor.\<close>

inductive serve :: "(string \<Rightarrow> string \<Rightarrow> string + go_any) \<Rightarrow> server \<Rightarrow> server \<Rightarrow> bool" for h where
  read: "env_ok e p \<Longrightarrow> serve h p (fst (HandleRead h e c m p))"
| publish: "env_ok e p \<Longrightarrow> serve h p (fst (Publish e t payload p))"
| reap: "serve h p (reapExpiredSessions it now p)"

definition serve_inv :: "server \<Rightarrow> bool" where
  "serve_inv p \<longleftrightarrow> table_ok p \<and> holder_inv p \<and> bounded p \<and> named p"

lemma serve_invI: "table_ok p \<Longrightarrow> holder_inv p \<Longrightarrow> bounded p \<Longrightarrow> named p \<Longrightarrow> serve_inv p"
  by (simp add: serve_inv_def)

lemma serve_invD:
  "serve_inv p \<Longrightarrow> table_ok p" "serve_inv p \<Longrightarrow> holder_inv p" "serve_inv p \<Longrightarrow> bounded p" "serve_inv p \<Longrightarrow> named p"
  by (simp_all add: serve_inv_def)

lemma serve_inv_touch: "serve_inv p \<Longrightarrow> serve_inv (touchSession now c p)"
  by (simp add: serve_inv_def inv_intros holder_touch bounded_view [OF view_touch])

lemma serve_inv_attach:
  "serve_inv p \<Longrightarrow> tok p c = None \<Longrightarrow> ses p new = None \<Longrightarrow> serve_inv (fst (attachSession it now new c token cur p))"
  by (simp add: serve_inv_def inv_intros holder_attach table_ok_attach bounded_view [OF view_attach])

lemma table_ok_subscribe [inv_intros]: "table_ok p \<Longrightarrow> table_ok (fst (subscribe_locked now c t b p))"
proof -
  assume t: "table_ok p"
  then have "table_ok (p\<lparr>subs := x\<rparr>)" for x by (simp add: table_ok_def)
  with t show ?thesis by (auto simp: subscribe_locked_def Let_def intro!: inv_intros split: option.split)
qed

lemma serve_inv_subscribe:
  "serve_inv p \<Longrightarrow> t \<noteq> [] \<Longrightarrow> serve_inv (fst (subscribe_locked now c t b p))"
  by (simp add: serve_inv_def inv_intros holder_subscribe)

lemma serve_inv_count:
  "serve_inv (p\<lparr>pings := n\<rparr>) = serve_inv p" "serve_inv (p\<lparr>pongs := n\<rparr>) = serve_inv p"
  by (simp_all add: serve_inv_def table_ok_def holder_inv_def alive_def holder_def records_def members_of_def
      bounded_def acct_def named_def)

lemma ses_touch_None [simp]: "ses (touchSession now c p) k = None \<longleftrightarrow> ses p k = None"
  by (simp add: ses_touch)

lemma serve_inv_dispatch:
  assumes "serve_inv p" "ses p (newSessionToken (env_rnd e) (env_now e)) = None"
  shows "serve_inv (fst (dispatch h e c f p))"
  by (cases rule: dispatch_cases [of h e c f p])
    (use assms in \<open>simp_all add: serve_inv_attach serve_inv_subscribe serve_inv_count\<close>)

lemma serve_inv_read: "serve_inv p \<Longrightarrow> env_ok e p \<Longrightarrow> serve_inv (fst (HandleRead h e c m p))"
  by (cases m) (simp_all add: HandleRead_def Let_def serve_inv_dispatch serve_inv_touch env_ok_def)

lemma serve_inv_remove: "serve_inv p \<Longrightarrow> serve_inv (removeSubscriber t c p)"
  by (simp add: serve_inv_def inv_intros holder_remove) (simp add: removeSubscriber_def inv_intros)

lemma serve_inv_removes: "serve_inv p \<Longrightarrow> serve_inv (fold (removeSubscriber t) cs p)"
  by (induction cs arbitrary: p) (simp_all add: serve_inv_remove)

text \<open>Publishing to a topic with a holder.\<close>

lemma publish_holder:
  assumes "serve_inv p" "order_ok itc" "itc (members_of t p) \<noteq> [] \<or> sessionRecordsTopicLocked t p"
  shows "holder p t" "t \<noteq> []"
proof -
  have "itc (members_of t p) \<noteq> [] \<Longrightarrow> members_of t p \<noteq> []"
    using order_ok_set [OF assms(2), of "[]"] by (metis set_empty list.set(1))
  then show "holder p t"
    using assms(1,3) sessionRecords_iff [of p t] by (auto simp: holder_def serve_inv_def table_ok_def)
  show "t \<noteq> []"
    using named_snapshot [OF serve_invD(4) [OF assms(1)] assms(2)] assms(3) by (auto simp: publish_snapshot_def)
qed

lemma holder_cong: "members_of t q = members_of t p \<Longrightarrow> sessions q = sessions p \<Longrightarrow> holder q t = holder p t"
  by (simp add: holder_def records_def)

lemma members_numbered [simp]: "members_of t' (numbered t p) = members_of t' p"
  by (simp add: members_of_def)

lemma serve_inv_numbered: "serve_inv p \<Longrightarrow> holder p t \<Longrightarrow> serve_inv (numbered t p)"
proof (rule serve_invI)
  assume i: "serve_inv p" and h: "holder p t"
  show "table_ok (numbered t p)" "bounded (numbered t p)" "named (numbered t p)"
    using serve_invD [OF i] by (simp_all add: table_ok_def bounded_def acct_def named_def)
  have "alive (numbered t p) t' \<Longrightarrow> t' = t \<or> alive p t'" for t'
    using numbered_topicSeqs [of t p t'] by (auto simp: alive_def)
  moreover have "holder (numbered t p) t' = holder p t'" for t' by (rule holder_cong) simp_all
  ultimately show "holder_inv (numbered t p)"
    using h serve_invD(2) [OF i] unfolding holder_inv_def by metis
qed

lemma serve_inv_remember:
  assumes "serve_inv p" "holder p t" "t \<noteq> []" "buf \<noteq> []" "order_ok it"
  shows "serve_inv (rememberPublish it t seq buf p)" (is "serve_inv ?q")
proof (rule serve_invI)
  have b: "acct p" "0 \<le> cacheBudget p" using serve_invD(3) [OF assms(1)] by (simp_all add: bounded_def)
  note spec = remember_spec [OF b(1) assms(5) b(2) assms(3,4), of seq]
  from spec(3) obtain m n where q: "?q = p\<lparr>topicCache := m, cacheBytes := n\<rparr>" by blast
  show "table_ok ?q" "named ?q" using serve_invD(1,4) [OF assms(1)] q by (simp_all add: table_ok_def named_def)
  show "bounded ?q" using spec b q by (simp add: bounded_def)
  have "holder ?q t' = holder p t'" for t' by (rule holder_cong) (simp_all add: q members_of_def)
  moreover have "alive ?q t' \<Longrightarrow> t' = t \<or> alive p t'" for t'
    using alive_remember [OF serve_invD(3) [OF assms(1)] assms(5,3,4)] .
  ultimately show "holder_inv ?q" using assms(2) serve_invD(2) [OF assms(1)] unfolding holder_inv_def by metis
qed

lemma serve_inv_publish:
  assumes "serve_inv p" "env_ok e p"
  shows "serve_inv (fst (Publish e t payload p))"
proof (cases rule: Publish_cases [of e t payload p])
  case same
  with assms(1) show ?thesis by simp
next
  case (failed body err)
  have "holder p t" using publish_holder [where itc = "env_conns e", OF assms(1) _ failed(2)] assms(2) by (simp add: env_ok_def)
  with assms(1) failed(4) show ?thesis by (simp add: serve_inv_numbered)
next
  case (sent body buf)
  have h: "holder p t" "t \<noteq> []" using publish_holder [where itc = "env_conns e", OF assms(1) _ sent(2)] assms(2) by (simp_all add: env_ok_def)
  have "holder (numbered t p) t" using h(1) by (subst holder_cong [of _ _ p]) simp_all
  moreover have "order_ok (env_topics e)" using assms(2) by (simp add: env_ok_def)
  ultimately have "serve_inv (rememberPublish (env_topics e) t (next_seq t p) buf (numbered t p))"
    using serve_inv_remember [OF serve_inv_numbered [OF assms(1) h(1)] _ h(2) Encode_nonempty [OF sent(3)]] by blast
  then show ?thesis unfolding sent(4) by (rule serve_inv_removes)
qed

lemma serve_inv_reap_session: "serve_inv p \<Longrightarrow> serve_inv (reap_session now k p)"
  using named_reap [of p "\<lambda>_. [k]" now]
  by (simp add: serve_inv_def inv_intros holder_reap reapExpiredSessions_def)

lemma serve_inv_reap: "serve_inv p \<Longrightarrow> serve_inv (reapExpiredSessions it now p)"
proof -
  have "serve_inv p \<Longrightarrow> serve_inv (fold (reap_session now) ks p)" for ks
    by (induction ks arbitrary: p) (simp_all add: serve_inv_reap_session)
  then show "serve_inv p \<Longrightarrow> ?thesis" by (simp add: reapExpiredSessions_def)
qed

lemma serve_inv_step: "serve h p q \<Longrightarrow> serve_inv p \<Longrightarrow> serve_inv q"
  by (induction rule: serve.induct) (simp_all add: serve_inv_read serve_inv_publish serve_inv_reap)

text \<open>The server as it is configured before it serves.\<close>

definition configured :: "bool \<Rightarrow> int \<Rightarrow> int \<Rightarrow> server" where
  "configured strict budget ttl =
     RequireHello strict NewProtocolHandler\<lparr>cacheBudget := budget, sessionTTL := ttl\<rparr>"

lemma configured_simps [simp]:
  "subs (configured s b t) = []" "sessions (configured s b t) = []" "connTokens (configured s b t) = []"
  "topicCache (configured s b t) = []" "topicSeqs (configured s b t) = []" "counters (configured s b t) = []"
  "cacheBytes (configured s b t) = 0" "cacheBudget (configured s b t) = b" "requireHello (configured s b t) = s"
  "sessionTTL (configured s b t) = t"
  by (simp_all add: configured_def RequireHello_def NewProtocolHandler_def)

lemma serve_inv_configured: "0 \<le> b \<Longrightarrow> serve_inv (configured s b t)"
  by (simp add: serve_inv_def table_ok_def holder_inv_def alive_def bounded_def acct_def named_def)

lemma serve_inv_reachable:
  assumes "(serve h)\<^sup>*\<^sup>* (configured s b t) p" "0 \<le> b"
  shows "serve_inv p"
  using assms(1)
  by (induction rule: rtranclp_induct) (simp_all add: serve_inv_configured assms(2) serve_inv_step)

section \<open>Strict mode\<close>

lemma strict_inv_same:
  "subs q = subs p \<Longrightarrow> sessions q = sessions p \<Longrightarrow> connTokens q = connTokens p \<Longrightarrow> strict_inv q = strict_inv p"
  by (simp add: strict_inv_def members_of_def)

lemma remember_fields:
  assumes "serve_inv p" "t \<noteq> []" "buf \<noteq> []" "order_ok it"
  obtains m n where "rememberPublish it t seq buf p = p\<lparr>topicCache := m, cacheBytes := n\<rparr>"
  using serve_invD(3) [OF assms(1)] remember_spec(3) [OF _ assms(4) _ assms(2,3), of p seq]
  unfolding bounded_def by blast

lemma strict_removes: "strict_inv p \<Longrightarrow> strict_inv (fold (removeSubscriber t) cs p)"
  by (induction cs arbitrary: p) (simp_all add: strict_remove)

lemma removes_fields [simp]:
  "requireHello (fold (removeSubscriber t) cs p) = requireHello p" "sessions (fold (removeSubscriber t) cs p) = sessions p"
  "connTokens (fold (removeSubscriber t) cs p) = connTokens p" "counters (fold (removeSubscriber t) cs p) = counters p"
  "sessionTTL (fold (removeSubscriber t) cs p) = sessionTTL p"
  by (induction cs arbitrary: p) (simp_all add: removeSubscriber_def)

definition strict_ok :: "server \<Rightarrow> bool" where
  "strict_ok p \<longleftrightarrow> requireHello p \<and> strict_inv p"

lemma strict_ok_dispatch:
  assumes "table_ok p" "strict_ok p" "ses p (newSessionToken (env_rnd e) (env_now e)) = None"
    and "FrameHeader.FrameType (Header f) \<noteq> HELLO \<Longrightarrow> tok p c \<noteq> None"
  shows "strict_ok (fst (dispatch h e c f p))"
proof (cases rule: dispatch_cases [of h e c f p])
  case (attach token cur)
  have "requireHello (fst (attachSession it now new c token cur p)) = requireHello p" for it now new
    by (simp add: attachSession_def Let_def split: option.split)
  with attach assms(1-3) show ?thesis by (simp add: strict_ok_def strict_attach)
next
  case (subscribe t b)
  then obtain k where "tok p c = Some k" using assms(4) by auto
  moreover have "requireHello (fst (subscribe_locked now c t b p)) = requireHello p" for now
    by (simp add: subscribe_locked_def Let_def split: option.split)
  ultimately show ?thesis using subscribe assms(1,2) by (simp add: strict_ok_def strict_subscribe)
qed (use assms in \<open>simp_all add: strict_ok_def strict_inv_same [of "p\<lparr>pings := _\<rparr>"] strict_inv_same [of "p\<lparr>pongs := _\<rparr>"]\<close>)

lemma strict_ok_read:
  assumes "table_ok p" "strict_ok p" "env_ok e p"
  shows "strict_ok (fst (HandleRead h e c m p))"
proof (cases m)
  case (MsgFrame f)
  let ?q = "touchSession (env_now e) c p"
  have q: "strict_ok ?q" "table_ok ?q" "ses ?q (newSessionToken (env_rnd e) (env_now e)) = None"
    using assms by (simp_all add: strict_ok_def strict_touch inv_intros env_ok_def)
  show ?thesis
  proof (cases "FrameHeader.FrameType (Header f) \<noteq> HELLO \<and> tok ?q c = None")
    case True
    with MsgFrame q(1) show ?thesis by (simp add: HandleRead_def Let_def strict_ok_def)
  next
    case False
    with strict_ok_dispatch [OF q(2,1,3), of f c h] MsgFrame show ?thesis by (auto simp: HandleRead_def Let_def)
  qed
qed (use assms in \<open>simp add: HandleRead_def\<close>)

lemma strict_ok_publish:
  assumes "serve_inv p" "strict_ok p" "env_ok e p"
  shows "strict_ok (fst (Publish e t payload p))"
proof -
  have n: "strict_ok (numbered t p)"
    using assms(2) strict_inv_same [of "numbered t p" p] by (simp add: strict_ok_def)
  show ?thesis
  proof (cases rule: Publish_cases [of e t payload p])
    case (sent body buf)
    have h: "holder p t" "t \<noteq> []"
      using publish_holder [where itc = "env_conns e", OF assms(1) _ sent(2)] assms(3) by (simp_all add: env_ok_def)
    have o: "order_ok (env_topics e)" using assms(3) by (simp add: env_ok_def)
    obtain m k where r: "rememberPublish (env_topics e) t (next_seq t p) buf (numbered t p) =
        numbered t p\<lparr>topicCache := m, cacheBytes := k\<rparr>"
      by (rule remember_fields [OF serve_inv_numbered [OF assms(1) h(1)] h(2) Encode_nonempty [OF sent(3)] o])
    have "strict_inv (numbered t p\<lparr>topicCache := m, cacheBytes := k\<rparr>)"
      using n strict_inv_same [of "numbered t p\<lparr>topicCache := m, cacheBytes := k\<rparr>" "numbered t p"]
      by (simp add: strict_ok_def)
    then show ?thesis using n unfolding sent(4) r by (simp add: strict_ok_def strict_removes)
  qed (use n assms in simp_all)
qed

lemma strict_ok_reap:
  assumes "serve_inv p" "strict_ok p" shows "strict_ok (reapExpiredSessions it now p)"
proof -
  have "serve_inv p \<Longrightarrow> strict_ok p \<Longrightarrow> strict_ok (fold (reap_session now) ks p)" for ks
  proof (induction ks arbitrary: p)
    case (Cons k ks)
    have "requireHello (reap_session now k p) = requireHello p"
      by (cases rule: reap_cases [of now k p]) simp_all
    with Cons.prems have "strict_ok (reap_session now k p)"
      using strict_reap [of p now k] serve_invD(1) by (auto simp: strict_ok_def)
    with Cons.IH [OF serve_inv_reap_session [OF Cons.prems(1), of now k]] show ?case by simp
  qed simp
  with assms show ?thesis by (simp add: reapExpiredSessions_def)
qed

lemma strict_ok_reachable:
  assumes "(serve h)\<^sup>*\<^sup>* (configured True b t) p" "0 \<le> b"
  shows "strict_ok p"
  using assms(1)
proof (induction rule: rtranclp_induct)
  case base
  show ?case by (simp add: strict_ok_def strict_inv_def members_of_def)
next
  case (step p q)
  from step(2,3) serve_inv_reachable [OF step(1) assms(2)] show ?case
    by (induction rule: serve.induct) (simp_all add: strict_ok_read serve_invD strict_ok_publish strict_ok_reap)
qed

section \<open>The replay cache as the log of a topic\<close>

text \<open>
  A topic's cache entry: the encoded publishes of that topic in strictly increasing sequence, none
  beyond the topic's counter.
\<close>

definition is_publish :: "string \<Rightarrow> cachedPublish \<Rightarrow> bool" where
  "is_publish t c \<longleftrightarrow> (\<exists>body. Encode (Some (publish_frame t body (cp_seq c))) = Inr (cp_buf c))"

definition log_ok :: "server \<Rightarrow> string \<Rightarrow> bool" where
  "log_ok p t \<longleftrightarrow> sorted_wrt (<) (map cp_seq (cache_of t p)) \<and>
     (\<forall>c \<in> set (cache_of t p). is_publish t c \<and>
        (\<exists>a. map_of (topicSeqs p) t = Some a \<and> cp_seq c \<le> counters p ! a))"

definition counters_ok :: "server \<Rightarrow> bool" where
  "counters_ok p \<longleftrightarrow> (\<forall>t a. map_of (topicSeqs p) t = Some a \<longrightarrow> a < length (counters p)) \<and>
     (\<forall>t t' a. map_of (topicSeqs p) t = Some a \<longrightarrow> map_of (topicSeqs p) t' = Some a \<longrightarrow> t = t')"

definition seq_inv :: "server \<Rightarrow> bool" where
  "seq_inv p \<longleftrightarrow> counters_ok p \<and> (\<forall>t. log_ok p t)"

lemma seq_inv_same:
  assumes "topicCache q = topicCache p" "topicSeqs q = topicSeqs p" "counters q = counters p"
  shows "seq_inv q = seq_inv p"
  using assms by (simp add: seq_inv_def counters_ok_def log_ok_def cache_of_def)

lemma cache_drop: "cache_of t' (dropTopicCacheLocked t p) \<in> {[], cache_of t' p}"
  by (auto simp: dropTopicCacheLocked_def cache_of_def)

lemma seq_inv_drop: "seq_inv p \<Longrightarrow> seq_inv (dropTopicCacheLocked t p)"
  by (auto simp: dropTopicCacheLocked_def seq_inv_def counters_ok_def log_ok_def cache_of_def split: if_splits)

lemma seq_inv_leave: "seq_inv p \<Longrightarrow> seq_inv (leave_topic t c p)"
  by (subst seq_inv_same [of _ p]) simp_all

lemma seq_inv_record: "seq_inv p \<Longrightarrow> seq_inv (record_topic now c t b p)"
  by (subst seq_inv_same [of _ p]) simp_all

lemma seq_inv_subscribe: "seq_inv p \<Longrightarrow> seq_inv (fst (subscribe_locked now c t b p))"
proof -
  assume s: "seq_inv p"
  then have "seq_inv (p\<lparr>subs := x\<rparr>)" for x by (subst seq_inv_same [of _ p]) simp_all
  with s show ?thesis
    by (auto simp: subscribe_locked_def Let_def intro!: seq_inv_drop seq_inv_record seq_inv_leave split: option.split)
qed

lemma seq_inv_attach: "seq_inv p \<Longrightarrow> seq_inv (fst (attachSession it now new c token cur p))"
  by (subst seq_inv_same [of _ p]) (simp_all add: attachSession_def Let_def split: option.split)

lemma seq_inv_read: "seq_inv p \<Longrightarrow> seq_inv (fst (HandleRead h e c m p))"
proof -
  assume s: "seq_inv p"
  have "seq_inv (fst (dispatch h e c f q))" if "seq_inv q" for f q
    by (cases rule: dispatch_cases [of h e c f q])
      (use that in \<open>simp_all add: seq_inv_attach seq_inv_subscribe seq_inv_same [of "q\<lparr>pings := _\<rparr>" q]
        seq_inv_same [of "q\<lparr>pongs := _\<rparr>" q]\<close>)
  moreover have "seq_inv (touchSession now c p)" for now using s by (subst seq_inv_same [of _ p]) simp_all
  ultimately show ?thesis using s by (cases m) (simp_all add: HandleRead_def Let_def)
qed

lemma seq_inv_reap: "seq_inv p \<Longrightarrow> seq_inv (reapExpiredSessions it now p)"
proof -
  have fold1: "seq_inv q \<Longrightarrow> seq_inv (fold (leave_drop c) ts q)" for q c ts
    by (induction ts arbitrary: q) (simp_all add: seq_inv_drop seq_inv_leave)
  have "seq_inv (reap_session now k q)" if "seq_inv q" for k q
  proof (cases rule: reap_cases [of now k q])
    case (2 s)
    have "seq_inv (q\<lparr>sessions := x, connTokens := y\<rparr>)" for x y using that by (subst seq_inv_same [of _ q]) simp_all
    then show ?thesis unfolding 2(3) by (rule fold1)
  qed (use that in simp)
  then have "seq_inv q \<Longrightarrow> seq_inv (fold (reap_session now) ks q)" for ks q
    by (induction ks arbitrary: q) simp_all
  then show "seq_inv p \<Longrightarrow> ?thesis" by (simp add: reapExpiredSessions_def)
qed

text \<open>Numbering a publish without wrap-around, and caching it.\<close>

definition counter_addr :: "string \<Rightarrow> server \<Rightarrow> nat" where
  "counter_addr t p = snd (publish_counter t p)"

lemma numbered_counters:
  assumes "counters_ok p"
  shows "map_of (topicSeqs (numbered t p)) = (map_of (topicSeqs p))(t \<mapsto> counter_addr t p)"
    and "counter_addr t p < length (counters (numbered t p))"
    and "counters (numbered t p) ! counter_addr t p = next_seq t p"
    and "a < length (counters p) \<Longrightarrow> a \<noteq> counter_addr t p \<Longrightarrow> counters (numbered t p) ! a = counters p ! a"
    and "length (counters p) \<le> length (counters (numbered t p))"
    and "map_of (topicSeqs p) t' = Some (counter_addr t p) \<Longrightarrow> t' = t"
proof -
  note defs = numbered_def counter_addr_def counter_add_def publish_counter_def next_seq_def Let_def
  have lt: "map_of (topicSeqs p) x = Some a \<Longrightarrow> a < length (counters p)" for x a
    using assms unfolding counters_ok_def by blast
  show "map_of (topicSeqs (numbered t p)) = (map_of (topicSeqs p))(t \<mapsto> counter_addr t p)"
    by (cases "map_of (topicSeqs p) t") (auto simp: defs)
  show "counter_addr t p < length (counters (numbered t p))"
    by (cases "map_of (topicSeqs p) t") (auto simp: defs dest: lt)
  show "counters (numbered t p) ! counter_addr t p = next_seq t p"
    by (cases "map_of (topicSeqs p) t") (auto simp: defs dest: lt)
  show "a < length (counters p) \<Longrightarrow> a \<noteq> counter_addr t p \<Longrightarrow> counters (numbered t p) ! a = counters p ! a"
    by (cases "map_of (topicSeqs p) t") (auto simp: defs nth_append)
  show "length (counters p) \<le> length (counters (numbered t p))"
    by (cases "map_of (topicSeqs p) t") (auto simp: defs)
  show "map_of (topicSeqs p) t' = Some (counter_addr t p) \<Longrightarrow> t' = t"
    using assms lt [of t' "counter_addr t p"] unfolding counters_ok_def
    by (cases "map_of (topicSeqs p) t") (auto simp: defs)
qed

lemma counters_ok_numbered: "counters_ok p \<Longrightarrow> counters_ok (numbered t p)"
proof -
  assume ok: "counters_ok p"
  note n = numbered_counters [OF ok, where t = t]
  have "a < length (counters p)" if "map_of (topicSeqs p) t' = Some a" for t' a
    using ok that unfolding counters_ok_def by blast
  then have "a < length (counters (numbered t p))" if "map_of (topicSeqs (numbered t p)) t' = Some a" for t' a
    using n(1,2,5) that by (auto split: if_splits) (meson less_le_trans)
  moreover have "t1 = t2" if "map_of (topicSeqs (numbered t p)) t1 = Some a" "map_of (topicSeqs (numbered t p)) t2 = Some a" for t1 t2 a
    using that n(1) n(6) [of t1] n(6) [of t2] ok unfolding counters_ok_def by (auto split: if_splits)
  ultimately show ?thesis unfolding counters_ok_def by blast
qed

lemma less_word_inc: "v + 1 \<noteq> 0 \<Longrightarrow> x \<le> v \<Longrightarrow> x < (v :: 'a :: len word) + 1"
  using unatSuc [of v] by (simp add: word_le_nat_alt word_less_nat_alt add.commute)

lemma cached_before_next:
  assumes "log_ok p t" "next_seq t p \<noteq> 0" "c \<in> set (cache_of t p)"
  shows "cp_seq c < next_seq t p"
proof -
  obtain a where "map_of (topicSeqs p) t = Some a" "cp_seq c \<le> counters p ! a"
    using assms(1,3) by (auto simp: log_ok_def)
  with assms(2) show ?thesis by (simp add: next_seq_def less_word_inc)
qed

lemma log_ok_numbered_other:
  assumes "seq_inv p" "t' \<noteq> t" shows "log_ok (numbered t p) t'"
proof -
  have ok: "counters_ok p" "log_ok p t'" using assms(1) by (simp_all add: seq_inv_def)
  note n = numbered_counters [OF ok(1), where t = t]
  have "counters (numbered t p) ! a = counters p ! a" if "map_of (topicSeqs p) t' = Some a" for a
    using that n(4) [of a] n(6) [of t'] assms(2) ok(1) unfolding counters_ok_def by blast
  moreover have "map_of (topicSeqs (numbered t p)) t' = map_of (topicSeqs p) t'" using n(1) assms(2) by simp
  moreover have "cache_of t' (numbered t p) = cache_of t' p" by (simp add: cache_of_def)
  ultimately show ?thesis using ok(2) unfolding log_ok_def by fastforce
qed

lemma log_ok_numbered:
  assumes "seq_inv p" "next_seq t p \<noteq> 0" shows "log_ok (numbered t p) t"
proof -
  have ok: "counters_ok p" "log_ok p t" using assms(1) by (simp_all add: seq_inv_def)
  note n = numbered_counters [OF ok(1), where t = t]
  have "cache_of t (numbered t p) = cache_of t p" by (simp add: cache_of_def)
  with ok(2) n(1,3) cached_before_next [OF ok(2) assms(2)] show ?thesis
    unfolding log_ok_def by (auto simp: less_imp_le)
qed

lemma seq_inv_numbered: "seq_inv p \<Longrightarrow> next_seq t p \<noteq> 0 \<Longrightarrow> seq_inv (numbered t p)"
  unfolding seq_inv_def [of "numbered t p"]
  using log_ok_numbered [of p t] log_ok_numbered_other [of p _ t] counters_ok_numbered [of p t]
  by (metis seq_inv_def)

lemma log_ok_sub:
  assumes "log_ok p t" "cache_of t q \<in> {[], drop k (cache_of t p @ cs)}"
    and "\<And>c. c \<in> set cs \<Longrightarrow> is_publish t c \<and> (\<exists>a. map_of (topicSeqs p) t = Some a \<and> cp_seq c \<le> counters p ! a)"
    and "sorted_wrt (<) (map cp_seq (cache_of t p @ cs))"
    and "topicSeqs q = topicSeqs p" "counters q = counters p"
  shows "log_ok q t"
proof (cases "cache_of t q = []")
  case False
  then have c: "cache_of t q = drop k (cache_of t p @ cs)" using assms(2) by simp
  show ?thesis unfolding log_ok_def c drop_map [symmetric]
  proof (intro conjI ballI)
    show "sorted_wrt (<) (drop k (map cp_seq (cache_of t p @ cs)))" using assms(4) by (rule sorted_wrt_drop)
    fix x assume "x \<in> set (drop k (cache_of t p @ cs))"
    then have "x \<in> set (cache_of t p) \<or> x \<in> set cs" using in_set_dropD by fastforce
    then show "is_publish t x" "\<exists>a. map_of (topicSeqs q) t = Some a \<and> cp_seq x \<le> counters q ! a"
      using assms(1,3,5,6) unfolding log_ok_def by auto
  qed
qed (simp add: log_ok_def)

lemma seq_inv_remember:
  assumes "serve_inv (numbered t p)" "seq_inv p" "next_seq t p \<noteq> 0" "t \<noteq> []" "order_ok it"
    and "Encode (Some (publish_frame t body (next_seq t p))) = Inr buf"
  shows "seq_inv (rememberPublish it t (next_seq t p) buf (numbered t p))" (is "seq_inv ?q")
proof -
  let ?p = "numbered t p" and ?c = "\<lparr>cp_seq = next_seq t p, cp_buf = buf\<rparr>"
  have p: "acct ?p" "0 \<le> cacheBudget ?p" using serve_invD(3) [OF assms(1)] by (simp_all add: bounded_def)
  note ne = Encode_nonempty [OF assms(6)]
  obtain m n where q: "?q = ?p\<lparr>topicCache := m, cacheBytes := n\<rparr>" by (rule remember_fields [OF assms(1,4) ne assms(5)])
  have ok: "counters_ok p" "log_ok p t" using assms(2) by (simp_all add: seq_inv_def)
  have c: "cache_of t' ?p = cache_of t' p" for t' by (simp add: cache_of_def)
  note rc = remember_cache_of(1) [OF p(1) assms(5) p(2) assms(4) ne, where seq = "next_seq t p"]
  have own: "log_ok ?q t"
  proof (rule log_ok_sub [OF log_ok_numbered [OF assms(2,3)], where cs = "[?c]" and k = "length (cache_of t ?p @ [?c]) - topicCacheSize"])
    show "cache_of t ?q \<in> {[], drop (length (cache_of t ?p @ [?c]) - topicCacheSize) (cache_of t ?p @ [?c])}"
      using rc [of t] by (simp add: new_entry_def)
    fix x assume "x \<in> set [?c]"
    then have x: "x = ?c" by simp
    have pub: "is_publish t ?c" using assms(6) by (auto simp: is_publish_def)
    have addr: "map_of (topicSeqs ?p) t = Some (counter_addr t p) \<and> cp_seq ?c \<le> counters ?p ! counter_addr t p"
      unfolding numbered_counters(1) [OF ok(1)] numbered_counters(3) [OF ok(1)] by simp
    show "is_publish t x \<and> (\<exists>a. map_of (topicSeqs ?p) t = Some a \<and> cp_seq x \<le> counters ?p ! a)"
      unfolding x using pub addr by (intro conjI exI [of _ "counter_addr t p"]) simp_all
  next
    show "sorted_wrt (<) (map cp_seq (cache_of t ?p @ [?c]))"
      using ok(2) cached_before_next [OF ok(2) assms(3)] by (simp add: c log_ok_def sorted_wrt_append)
  qed (simp_all add: q)
  have other: "log_ok ?q t'" if "t' \<noteq> t" for t'
    by (rule log_ok_sub [OF log_ok_numbered_other [OF assms(2) that], where cs = "[]" and k = 0])
      (use rc [of t'] that log_ok_numbered_other [OF assms(2) that] in \<open>simp_all add: q log_ok_def\<close>)
  have "counters_ok ?q" using counters_ok_numbered [OF ok(1), of t] by (simp add: q counters_ok_def)
  moreover have "log_ok ?q t'" for t' by (cases "t' = t") (simp_all only: own other simp_thms)
  ultimately show ?thesis unfolding seq_inv_def by (intro conjI allI)
qed

lemma seq_inv_removes: "seq_inv p \<Longrightarrow> seq_inv (fold (removeSubscriber t) cs p)"
  by (induction cs arbitrary: p) (simp_all add: removeSubscriber_def seq_inv_drop seq_inv_leave)

lemma seq_inv_publish:
  assumes "serve_inv p" "seq_inv p" "env_ok e p" "0 \<notin> set (counters (fst (Publish e t payload p)))"
  shows "seq_inv (fst (Publish e t payload p))"
proof -
  have o: "order_ok (env_topics e)" "order_ok (env_conns e)" using assms(3) by (simp_all add: env_ok_def)
  have ok: "counters_ok p" using assms(2) by (simp add: seq_inv_def)
  have seq: "next_seq t p \<noteq> 0" if "counters (fst (Publish e t payload p)) = counters (numbered t p)"
    using assms(4) that numbered_counters(2,3) [OF ok, of t] nth_mem by metis
  show ?thesis
  proof (cases rule: Publish_cases [of e t payload p])
    case (failed body err)
    then show ?thesis using seq_inv_numbered [OF assms(2) seq] by simp
  next
    case (sent body buf)
    note h = publish_holder [OF assms(1) o(2) sent(2)]
    note i = serve_inv_numbered [OF assms(1) h(1)]
    let ?q = "rememberPublish (env_topics e) t (next_seq t p) buf (numbered t p)"
    obtain m n where q: "?q = numbered t p\<lparr>topicCache := m, cacheBytes := n\<rparr>"
      by (rule remember_fields [OF i h(2) Encode_nonempty [OF sent(3)] o(1)])
    have "next_seq t p \<noteq> 0" by (rule seq) (simp add: sent(4) q)
    then show ?thesis unfolding sent(4)
      using seq_inv_remember [OF i assms(2) _ h(2) o(1) sent(3)] by (intro seq_inv_removes)
  qed (use assms in simp)
qed

text \<open>Serving while no topic has been published to \<open>2\<^sup>3\<^sup>2\<close> times: no counter stands at zero.\<close>

definition serve_nowrap :: "(string \<Rightarrow> string \<Rightarrow> string + go_any) \<Rightarrow> server \<Rightarrow> server \<Rightarrow> bool" where
  "serve_nowrap h p q \<longleftrightarrow> serve h p q \<and> 0 \<notin> set (counters q)"

lemma serve_nowrap_serve: "(serve_nowrap h)\<^sup>*\<^sup>* p q \<Longrightarrow> (serve h)\<^sup>*\<^sup>* p q"
  by (rule rtranclp_mono [THEN predicate2D]) (auto simp: serve_nowrap_def)

lemma seq_inv_reachable:
  assumes "(serve_nowrap h)\<^sup>*\<^sup>* (configured s b t) p" "0 \<le> b"
  shows "seq_inv p"
  using assms(1)
proof (induction rule: rtranclp_induct)
  case base
  show ?case by (simp add: seq_inv_def counters_ok_def log_ok_def cache_of_def)
next
  case (step p q)
  from step(2) have "serve h p q" "0 \<notin> set (counters q)" by (simp_all add: serve_nowrap_def)
  then show ?case using step(3) serve_inv_reachable [OF serve_nowrap_serve [OF step(1)] assms(2)]
    by (induction rule: serve.induct) (simp_all add: seq_inv_read seq_inv_publish seq_inv_reap)
qed

section \<open>Resuming and publishing\<close>

lemma collectReplay_cong:
  "s_topics s' = s_topics s \<Longrightarrow> topicCache q = topicCache p \<Longrightarrow> collectReplay it s' cur q = collectReplay it s cur p"
  by (simp add: collectReplay_def cache_of_def)

lemma attach_resume:
  assumes "token \<noteq> []" "ses p token = Some s" "now - s_lastSeen s \<le> sessionTTL p"
  shows "attachSession it now new c token cur p =
    (fst (attachSession it now new c token cur p), token, True, collectReplay it s cur p)"
    and "tok (fst (attachSession it now new c token cur p)) x =
      (if x = c then Some token else if x = s_conn s then None else tok p x)"
proof -
  show "attachSession it now new c token cur p =
      (fst (attachSession it now new c token cur p), token, True, collectReplay it s cur p)"
    using assms by (auto simp: attachSession_def Let_def intro!: collectReplay_cong)
  show "tok (fst (attachSession it now new c token cur p)) x =
      (if x = c then Some token else if x = s_conn s then None else tok p x)"
    using assms by (simp add: attachSession_def Let_def)
qed

lemma touch_unknown: "tok p c = None \<Longrightarrow> touchSession now c p = p"
  by (simp add: touchSession_def)

lemma HandleRead_resume:
  assumes "FrameHeader.FrameType (Header f) = HELLO" "tok p c = None"
    and "DecodeJSONMessage (Some f) = Inr msg" "Data msg \<noteq> []" "unmarshal decode_HelloRequest (Data msg) = Inr req"
    and "negotiate (Versions req) \<noteq> 0"
    and "Resume req \<noteq> []" "ses p (Resume req) = Some s" "env_now e - s_lastSeen s \<le> sessionTTL p"
  shows "HandleRead h e c (MsgFrame f) p =
    (fst (attachSession (env_topics e) (env_now e) (newSessionToken (env_rnd e) (env_now e)) c (Resume req) (Cursors req) p),
     replayTo e c 0 (collectReplay (env_topics e) s (Cursors req) p) @
       [reply RESPONSE (StreamId (Header f)) ''hello''
          (AnyOther (Some (marshal_HelloResponse (negotiate (Versions req)) (Resume req) True)))])"
proof -
  let ?a = "attachSession (env_topics e) (env_now e) (newSessionToken (env_rnd e) (env_now e)) c (Resume req) (Cursors req) p"
  obtain q where a: "?a = (q, Resume req, True, collectReplay (env_topics e) s (Cursors req) p)"
    using attach_resume(1) [OF assms(7-9)] by metis
  show ?thesis
    using assms(1-6) by (simp add: HandleRead_def touch_unknown dispatch_def handleHello_def Let_def a)
qed

lemma deliver_writes:
  "snd (snd (deliver e t buf ms p)) = concat (map (\<lambda>c. [SetWriteDeadline c (Some (env_now e + publishWriteTimeout)),
     ConnWrite c buf (env_write_ok e c 0), SetWriteDeadline c None]) ms)"
proof (induction ms arbitrary: p)
  case (Cons c ms)
  have "snd (snd (deliver e t buf (c # ms) p)) = SetWriteDeadline c (Some (env_now e + publishWriteTimeout)) #
      ConnWrite c buf (env_write_ok e c 0) # SetWriteDeadline c None #
      snd (snd (deliver e t buf ms (if env_write_ok e c 0 then p else removeSubscriber t c p)))"
    by (simp add: Let_def split: prod.split)
  with Cons show ?case by simp
qed simp

lemma members_removes:
  "set (members_of t (fold (removeSubscriber t) cs p)) = set (members_of t p) - set cs"
proof (induction cs arbitrary: p)
  case (Cons c cs)
  have "set (members_of t (removeSubscriber t c p)) = set (members_of t p) - {c}"
    by (simp add: removeSubscriber_def members_leave)
  with Cons show ?case by auto
qed simp

lemma order_ok_length_filter: "order_ok it \<Longrightarrow> length (filter P (it xs)) = length (filter P xs)"
  by (metis mset_filter order_ok_def size_mset)

lemma unat_widen: "unat (ucast (x :: uint32) :: uint64) = unat x"
proof -
  have "unat x < 2 ^ 32" using unsigned_less [of x, where 'a = nat] by simp
  then show ?thesis by (simp add: unsigned_ucast_eq take_bit_nat_eq_self)
qed

lemma ucast_widen: "ucast (ucast (x :: uint32) :: uint64) = x"
  by (rule bit_word_eqI) (auto simp: bit_unsigned_iff)

lemma publish_frame_decodes:
  assumes "Encode (Some (publish_frame t body seq)) = Inr buf"
  shows "Decode (r\<lparr>rd_data := buf @ rest\<rparr>) = (Inr (publish_frame t body seq), r\<lparr>rd_data := rest\<rparr>)"
  using assms decodeFrame_wire [where f = "publish_frame t body seq" and r = r and rest = rest]
  by (auto simp: Encode_Inr Decode_def publish_frame_def newFrame_def MaxFrameSize_def MaxStreamSize_def)

section \<open>A short session\<close>

text \<open>
  A connection says hello and subscribes: the state the concrete instances below start from.
\<close>

definition sample_env :: "byte \<Rightarrow> env" where
  "sample_env b = \<lparr>env_now = 0, env_rnd = Some [b], env_topics = (\<lambda>ks. ks), env_conns = (\<lambda>ks. ks), env_write_ok = (\<lambda>_ _. True)\<rparr>"

definition sample_hello :: "string \<Rightarrow> Frame" where
  "sample_hello resume = the (EncodeJSON HELLO 1 ''hello'' (AnyOther (Some
     (CHR ''{'' # json_key ''versions'' @ ''[1],'' @ json_key ''resume'' @ marshal_string resume @ ''}''))))"

definition sample_server :: server where
  "sample_server =
     \<lparr>subs = [(''t'', [1])], pings = 0, pongs = 0, topicSeqs = [], counters = [],
      sessions = [(''01'', \<lparr>s_conn = 1, s_topics = [''t''], s_lastSeen = 0\<rparr>)], connTokens = [(1, ''01'')],
      topicCache = [], cacheBytes = 0, cacheBudget = 1000, requireHello = True, srv_closed = False, sessionTTL = 10\<rparr>"

lemma env_ok_sample: "ses p (newSessionToken (Some [b]) 0) = None \<Longrightarrow> env_ok (sample_env b) p"
  by (simp add: env_ok_def sample_env_def)

lemma sample_reachable: "(serve_nowrap h)\<^sup>*\<^sup>* (configured True 1000 10) sample_server"
proof -
  let ?p = "fst (HandleRead h (sample_env 1) 1 (MsgFrame (sample_hello [])) (configured True 1000 10))"
  have p: "?p = sample_server\<lparr>subs := [], sessions := [(''01'', \<lparr>s_conn = 1, s_topics = [], s_lastSeen = 0\<rparr>)]\<rparr>"
    by code_simp
  have q: "fst (HandleRead h (sample_env 2) 1 (MsgFrame (the (EncodeJSON SUBSCRIBE 2 ''t'' AnyNil))) ?p) = sample_server"
    unfolding p by code_simp
  have "env_ok (sample_env 1) (configured True 1000 10)" by (rule env_ok_sample) simp
  then have 1: "serve h (configured True 1000 10) ?p" by (rule serve.read)
  have "env_ok (sample_env 2) ?p" unfolding p by (rule env_ok_sample) code_simp
  from serve.read [OF this, of h 1 "MsgFrame (the (EncodeJSON SUBSCRIBE 2 ''t'' AnyNil))"]
  have 2: "serve h ?p sample_server" unfolding q .
  have "counters ?p = []" "counters sample_server = []" unfolding p by (simp_all add: sample_server_def)
  with 1 2 have "serve_nowrap h (configured True 1000 10) ?p" "serve_nowrap h ?p sample_server"
    by (simp_all add: serve_nowrap_def)
  then show ?thesis by (meson converse_rtranclp_into_rtranclp rtranclp.rtrancl_refl)
qed

lemma resume_spec:
  assumes "(serve h)\<^sup>*\<^sup>* (configured True b ttl) p" and "0 \<le> b" and "env_ok e p"
    and "FrameHeader.FrameType (Header f) = HELLO" "map_of (connTokens p) c = None"
    and "DecodeJSONMessage (Some f) = Inr msg" "Data msg \<noteq> []" "unmarshal decode_HelloRequest (Data msg) = Inr req"
    and "negotiate (Versions req) \<noteq> 0"
    and "Resume req \<noteq> []" "map_of (sessions p) (Resume req) = Some s" "env_now e - s_lastSeen s \<le> sessionTTL p"
    and "HandleRead h e c (MsgFrame f) p = (q, effs)"
  shows "map_of (connTokens q) c = Some (Resume req)" and "map_of (connTokens q) (s_conn s) = None"
    and "\<forall>t. c \<in> set (members_of t q) \<longleftrightarrow> t \<in> set (s_topics s)"
    and "\<forall>t. s_conn s \<notin> set (members_of t q)"
    and "\<forall>t x. x \<noteq> c \<longrightarrow> x \<noteq> s_conn s \<longrightarrow> (x \<in> set (members_of t q) \<longleftrightarrow> x \<in> set (members_of t p))"
    and "effs = replayTo e c 0 (collectReplay (env_topics e) s (Cursors req) p) @
       [reply RESPONSE (StreamId (Header f)) ''hello''
          (AnyOther (Some (marshal_HelloResponse (negotiate (Versions req)) (Resume req) True)))]"
proof -
  have q: "q = fst (attachSession (env_topics e) (env_now e) (newSessionToken (env_rnd e) (env_now e)) c (Resume req) (Cursors req) p)"
    and effs: "effs = replayTo e c 0 (collectReplay (env_topics e) s (Cursors req) p) @
       [reply RESPONSE (StreamId (Header f)) ''hello''
          (AnyOther (Some (marshal_HelloResponse (negotiate (Versions req)) (Resume req) True)))]"
    using HandleRead_resume [OF assms(4-12), of h] assms(13) by simp_all
  show "effs = replayTo e c 0 (collectReplay (env_topics e) s (Cursors req) p) @
       [reply RESPONSE (StreamId (Header f)) ''hello''
          (AnyOther (Some (marshal_HelloResponse (negotiate (Versions req)) (Resume req) True)))]" by (rule effs)
  have old: "map_of (connTokens p) (s_conn s) = Some (Resume req)"
    using table_tok [OF serve_invD(1) [OF serve_inv_reachable [OF assms(1,2)]] assms(11)] .
  then have ne: "s_conn s \<noteq> c" using assms(5) by auto
  show "map_of (connTokens q) c = Some (Resume req)" and "map_of (connTokens q) (s_conn s) = None"
    unfolding q attach_resume(2) [OF assms(10-12)] using ne by simp_all
  have m: "set (members_of t q) = (if t \<in> set (s_topics s) then insert c (set (members_of t p) - {s_conn s}) else set (members_of t p))" for t
    unfolding q members_attach using assms(10-12) by simp
  have rec: "\<exists>k r. map_of (connTokens p) x = Some k \<and> map_of (sessions p) k = Some r \<and> t \<in> set (s_topics r)"
    if "x \<in> set (members_of t p)" for x t
    using strict_ok_reachable [OF assms(1,2)] that unfolding strict_ok_def strict_inv_def by blast
  have "c \<notin> set (members_of t p)" for t using rec [of c t] assms(5) by auto
  then show "\<forall>t. c \<in> set (members_of t q) \<longleftrightarrow> t \<in> set (s_topics s)" by (simp add: m)
  have "s_conn s \<in> set (members_of t p) \<Longrightarrow> t \<in> set (s_topics s)" for t using rec [of "s_conn s" t] old assms(11) by auto
  then show "\<forall>t. s_conn s \<notin> set (members_of t q)" using ne by (auto simp: m)
  show "\<forall>t x. x \<noteq> c \<longrightarrow> x \<noteq> s_conn s \<longrightarrow> (x \<in> set (members_of t q) \<longleftrightarrow> x \<in> set (members_of t p))" by (simp add: m)
qed

text \<open>The sample server publishes.\<close>

definition sample_buf :: bytes where
  "sample_buf = header_bytes (Header (publish_frame ''t'' ''5'' 1)) @ Payload (publish_frame ''t'' ''5'' 1)"

lemma sample_encode: "Encode (Some (publish_frame ''t'' ''5'' 1)) = Inr sample_buf"
proof -
  have "length (mustJSON ''t'' ''5'') = 23" by code_simp
  then show ?thesis by (simp add: Encode_Inr sample_buf_def publish_frame_def newFrame_def MaxFrameSize_def)
qed

definition sample_published :: server where
  "sample_published = fst (Publish (sample_env 2) ''t'' (AnyOther (Some ''5'')) sample_server)"

lemma sample_published_eq:
  "sample_published = sample_server\<lparr>topicSeqs := [(''t'', 0)], counters := [1],
     topicCache := [(''t'', [\<lparr>cp_seq = 1, cp_buf = sample_buf\<rparr>])], cacheBytes := 33\<rparr>"
proof -
  have n: "next_seq ''t'' sample_server = 1" by code_simp
  have m: "env_conns (sample_env 2) (members_of ''t'' sample_server) = [1]" by code_simp
  have r: "rememberPublish (env_topics (sample_env 2)) ''t'' 1 sample_buf (numbered ''t'' sample_server) =
    sample_server\<lparr>topicSeqs := [(''t'', 0)], counters := [1],
     topicCache := [(''t'', [\<lparr>cp_seq = 1, cp_buf = sample_buf\<rparr>])], cacheBytes := 33\<rparr>"
    unfolding sample_buf_def by code_simp
  show ?thesis
    by (simp add: sample_published_def Publish_eq json_Marshal_def n m sample_encode Let_def r deliver_state)
      (simp add: sample_env_def)
qed

lemma sample_published_reachable: "(serve_nowrap h)\<^sup>*\<^sup>* (configured True 1000 10) sample_published"
proof -
  have "env_ok (sample_env 2) sample_server" by (rule env_ok_sample) code_simp
  then have "serve h sample_server sample_published" unfolding sample_published_def by (rule serve.publish)
  then have "serve_nowrap h sample_server sample_published"
    by (simp add: serve_nowrap_def sample_published_eq sample_server_def)
  with sample_reachable show ?thesis by (rule rtranclp.rtrancl_into_rtrancl)
qed

section \<open>Properties of the server\<close>

text \<open>
  C10. The session table and its reverse index agree in every state the server can reach: a
  connection is bound to a token exactly when the session of that token is on that connection.
\<close>

theorem session_table_consistent:
  assumes "(serve h)\<^sup>*\<^sup>* (configured strict b ttl) p" and "0 \<le> b"
  shows "\<forall>c k. map_of (connTokens p) c = Some k \<longleftrightarrow>
    (\<exists>s. map_of (sessions p) k = Some s \<and> s_conn s = c)"
  using serve_invD(1) [OF serve_inv_reachable [OF assms]] by (simp add: table_ok_def)

theorem session_table_consistent_witness:
  "map_of (connTokens sample_server) 1 = Some ''01'' \<longleftrightarrow>
    (\<exists>s. map_of (sessions sample_server) ''01'' = Some s \<and> s_conn s = 1)"
proof -
  have "(serve h)\<^sup>*\<^sup>* (configured True 1000 10) sample_server" "(0 :: int) \<le> 1000" for h
    using serve_nowrap_serve [OF sample_reachable] by simp_all
  from session_table_consistent [OF this] show ?thesis by blast
qed









text \<open>
  C15. What a publish does, from every reachable state: a topic that somebody subscribes to or records
  gets one write per subscriber, all of the same bytes, which decode to the PUBLISH frame with the
  next sequence number of the topic; the result counts the writes that succeeded, and exactly the
  subscribers whose write failed are unsubscribed.
\<close>

theorem Publish_delivers:
  assumes "(serve h)\<^sup>*\<^sup>* (configured strict b ttl) p" and "0 \<le> b" and "env_ok e p"
    and "json_Marshal payload = Some body" "length (mustJSON t body) \<le> MaxFrameSize"
    and "members_of t p \<noteq> [] \<or> sessionRecordsTopicLocked t p"
  shows "\<exists>q buf. Publish e t payload p =
      (q, Inr (length (filter (\<lambda>c. env_write_ok e c 0) (members_of t p))),
       concat (map (\<lambda>c. [SetWriteDeadline c (Some (env_now e + publishWriteTimeout)),
         ConnWrite c buf (env_write_ok e c 0), SetWriteDeadline c None]) (env_conns e (members_of t p)))) \<and>
    Decode \<lparr>rd_data = buf, rd_end = EOF\<rparr> =
      (Inr (newFrame PUBLISH (ucast (topicSequenceLocked t p) + 1) (mustJSON t body)), \<lparr>rd_data = [], rd_end = EOF\<rparr>) \<and>
    set (members_of t q) = {c \<in> set (members_of t p). env_write_ok e c 0}"
proof -
  have inv: "serve_inv p" using serve_inv_reachable [OF assms(1,2)] .
  have o: "order_ok (env_topics e)" "order_ok (env_conns e)" using assms(3) by (simp_all add: env_ok_def)
  have s: "env_conns e (members_of t p) \<noteq> [] \<or> sessionRecordsTopicLocked t p"
    using assms(6) order_ok_set [OF o(2), of "members_of t p"] by force
  have "mustJSON t body \<noteq> []" by (simp add: mustJSON_def envelope_bytes_def Let_def)
  then obtain buf where buf: "Encode (Some (publish_frame t body (next_seq t p))) = Inr buf"
    using assms(5) Encode_Inr [of "publish_frame t body (next_seq t p)"] by (auto simp: publish_frame_def newFrame_def)
  have seq: "next_seq t p = ucast (topicSequenceLocked t p) + 1"
    by (simp add: next_seq_def topicSequenceLocked_def ucast_widen split: option.split)
  define q where "q = fst (Publish e t payload p)"
  note h = publish_holder [OF inv o(2) s]
  obtain m n where r: "rememberPublish (env_topics e) t (next_seq t p) buf (numbered t p) =
      numbered t p\<lparr>topicCache := m, cacheBytes := n\<rparr>"
    by (rule remember_fields [OF serve_inv_numbered [OF inv h(1)] h(2) Encode_nonempty [OF buf] o(1)])
  have P: "Publish e t payload p = (q, Inr (length (filter (\<lambda>c. env_write_ok e c 0) (members_of t p))),
       concat (map (\<lambda>c. [SetWriteDeadline c (Some (env_now e + publishWriteTimeout)),
         ConnWrite c buf (env_write_ok e c 0), SetWriteDeadline c None]) (env_conns e (members_of t p))))"
    using s by (auto simp: q_def Publish_eq assms(4) buf Let_def deliver_count deliver_writes order_ok_length_filter [OF o(2)])
  have "q = fold (removeSubscriber t) (filter (\<lambda>c. \<not> env_write_ok e c 0) (env_conns e (members_of t p)))
      (numbered t p\<lparr>topicCache := m, cacheBytes := n\<rparr>)"
    using s by (auto simp: q_def Publish_eq assms(4) buf Let_def deliver_state r)
  then have "set (members_of t q) = {c \<in> set (members_of t p). env_write_ok e c 0}"
    by (auto simp: members_removes order_ok_set [OF o(2)] members_of_subs [of "numbered t p\<lparr>topicCache := m, cacheBytes := n\<rparr>" p])
  moreover have "Decode \<lparr>rd_data = buf, rd_end = EOF\<rparr> =
      (Inr (newFrame PUBLISH (ucast (topicSequenceLocked t p) + 1) (mustJSON t body)), \<lparr>rd_data = [], rd_end = EOF\<rparr>)"
    using publish_frame_decodes [OF buf, where r = "\<lparr>rd_data = [], rd_end = EOF\<rparr>" and rest = "[]"] by (simp add: publish_frame_def seq)
  ultimately show ?thesis using P by blast
qed

theorem Publish_delivers_witness:
  "\<exists>q buf. Publish (sample_env 2) ''t'' (AnyOther (Some ''5'')) sample_server =
      (q, Inr 1, [SetWriteDeadline 1 (Some publishWriteTimeout), ConnWrite 1 buf True, SetWriteDeadline 1 None]) \<and>
    set (members_of ''t'' q) = {1}"
proof -
  have "env_ok (sample_env 2) sample_server" by (rule env_ok_sample) code_simp
  moreover have "(serve h)\<^sup>*\<^sup>* (configured True 1000 10) sample_server" for h
    using serve_nowrap_serve [OF sample_reachable] .
  moreover have "length (mustJSON ''t'' ''5'') = 23" by code_simp
  then have "length (mustJSON ''t'' ''5'') \<le> MaxFrameSize" by (simp add: MaxFrameSize_def)
  moreover have "json_Marshal (AnyOther (Some ''5'')) = Some ''5''" by (simp add: json_Marshal_def)
  moreover have m: "members_of ''t'' sample_server = [1]" by code_simp
  ultimately show ?thesis
    using Publish_delivers [of "\<lambda>_ _. Inl []" True 1000 10 sample_server "sample_env 2" "AnyOther (Some ''5'')" "''5''" "''t''"]
    by (auto simp: sample_env_def)
qed

end
