(* ===== verification/Rpc_Client.thy ===== *)
theory Rpc_Client
  imports Protocol_Server "HOL-Library.List_Lexorder" "HOL-Library.Char_ord"
begin

text \<open>
  The multiplexing client of \<open>pkg/proto/client.go\<close>: its pending table and response channels, the
  sections of \<open>roundTrip\<close>, the read loop with \<open>resolvePending\<close> and \<open>failPending\<close>, and what the
  methods built on \<open>roundTrip\<close> make of a response. A step relation interleaves callers, the read
  loop and \<open>Close\<close>; over it, channels are shown never to block or panic the read loop, responses to
  reach the call with their stream id, and the end of the read loop to wake the calls that wait.

  A response channel has room for one value; channels are heap objects addressed by their index.
  What the transport does (whether a write succeeds, which bytes arrive) is an input.
\<close>

section \<open>State\<close>

datatype resp_err = DecodeFailed json_err | ServerError string

record Response =
  r_Action :: string
  r_Data :: string
  r_Err :: "resp_err option"

definition Response_OK :: "Response \<Rightarrow> bool" where
  "Response_OK r = (r_Err r = None)"

record chan =
  ch_buf :: "Response option"
  ch_closed :: bool

definition make_chan :: chan where "make_chan = \<lparr>ch_buf = None, ch_closed = False\<rparr>"

text \<open>
  Sending fails (\<open>None\<close>) when it would block on a full buffer or panic on a closed channel; closing
  fails on a closed channel. A receive yields the buffered value, or reports a closed channel
  (\<open>Some None\<close>), or has to wait.
\<close>

definition chan_send :: "nat \<Rightarrow> Response \<Rightarrow> chan list \<Rightarrow> chan list option" where
  "chan_send a r cs =
     (if ch_closed (cs ! a) \<or> ch_buf (cs ! a) \<noteq> None then None
      else Some (cs[a := (cs ! a)\<lparr>ch_buf := Some r\<rparr>]))"

definition chan_close :: "nat \<Rightarrow> chan list \<Rightarrow> chan list option" where
  "chan_close a cs = (if ch_closed (cs ! a) then None else Some (cs[a := (cs ! a)\<lparr>ch_closed := True\<rparr>]))"

definition chan_recv :: "chan \<Rightarrow> Response option option" where
  "chan_recv ch = (case ch_buf ch of Some r \<Rightarrow> Some (Some r) | None \<Rightarrow> if ch_closed ch then Some None else None)"

datatype call_err =
    ErrClosed
  | ErrPendingClosed
  | CallMarshal
  | CallEncode proto_err
  | CallWrite
  | CallTimeout FrameType string
  | HandshakeRejected resp_err
  | MalformedHandshake json_err
  | Rejected FrameType string resp_err
  | MalformedSubscribe json_err

record client =
  nextID :: uint32
  pending :: "(uint32, nat) gomap"
  chans :: "chan list"
  streamThreshold :: int
  version :: int32
  cl_closed :: bool

definition NewClient :: client where
  "NewClient = \<lparr>nextID = 0, pending = [], chans = [], streamThreshold = defaultStreamThreshold, version = 0, cl_closed = False\<rparr>"

definition NegotiatedVersion :: "client \<Rightarrow> int" where
  "NegotiatedVersion c = sint (version c)"

section \<open>The sections of roundTrip\<close>

text \<open>
  The critical section: a fresh id, its channel, the table entry, and the encoded message. When the
  encoding fails the entry is removed by a later section.
\<close>

definition register ::
  "FrameType \<Rightarrow> string \<Rightarrow> go_any \<Rightarrow> client \<Rightarrow> client \<times> uint32 \<times> nat \<times> (call_err + bytes list)" where
  "register t action data c =
     (let i = nextID c + 1;
          a = length (chans c);
          c' = c\<lparr>nextID := i, chans := chans c @ [make_chan], pending := gput i a (pending c)\<rparr>
      in (c', i, a,
          case EncodeJSON t i action data of
            None \<Rightarrow> Inl CallMarshal
          | Some frame \<Rightarrow>
              (case encodeMessage t i (Payload frame) (streamThreshold c) of
                 Inl e \<Rightarrow> Inl (CallEncode e)
               | Inr bufs \<Rightarrow> Inr bufs)))"

definition removePending :: "uint32 \<Rightarrow> client \<Rightarrow> client" where
  "removePending i c = c\<lparr>pending := gdel i (pending c)\<rparr>"

text \<open>\<open>writeAll\<close>: the connection answers the \<open>k\<close>-th write with a count and whether it succeeded.\<close>

fun writeAll :: "(nat \<Rightarrow> nat \<times> bool) \<Rightarrow> nat \<Rightarrow> bytes list \<Rightarrow> nat \<times> bool" where
  "writeAll conn k [] = (0, True)"
| "writeAll conn k (buf # bufs) =
     (let (n, ok) = conn k
      in if ok then (let (m, ok') = writeAll conn (Suc k) bufs in (n + m, ok')) else (n, False))"

text \<open>What a received value means to the caller.\<close>

definition call_result :: "Response option \<Rightarrow> call_err + Response" where
  "call_result v = (case v of None \<Rightarrow> Inl ErrPendingClosed | Some r \<Rightarrow> Inr r)"

section \<open>The read loop\<close>

definition error_step :: "string \<times> string \<times> json \<Rightarrow> string option \<Rightarrow> string option" where
  "error_step = (\<lambda>(key, raw, v) acc. case acc of None \<Rightarrow> None
     | Some s \<Rightarrow> (case match_field [''error''] key of None \<Rightarrow> Some s | Some _ \<Rightarrow> decode_string s v))"

definition decode_ErrorMessage :: "json \<Rightarrow> string option" where
  "decode_ErrorMessage v =
     (case v of JNull \<Rightarrow> Some [] | JObject ms \<Rightarrow> fold error_step ms (Some []) | _ \<Rightarrow> None)"

text \<open>The response a frame carries.\<close>

definition response_of :: "Frame \<Rightarrow> Response" where
  "response_of frame =
     (case DecodeJSONMessage (Some frame) of
        Inl err \<Rightarrow> \<lparr>r_Action = [], r_Data = [], r_Err = Some (DecodeFailed err)\<rparr>
      | Inr msg \<Rightarrow>
          (let resp = \<lparr>r_Action = Action msg, r_Data = [], r_Err = None\<rparr>
           in if length (Data msg) > 0 then
                (case unmarshal decode_ErrorMessage (Data msg) of
                   Inr e \<Rightarrow> (if e \<noteq> [] then resp\<lparr>r_Err := Some (ServerError e)\<rparr> else resp\<lparr>r_Data := Data msg\<rparr>)
                 | Inl _ \<Rightarrow> resp\<lparr>r_Data := Data msg\<rparr>)
              else resp))"

definition resolvePending :: "Frame \<Rightarrow> client \<Rightarrow> client option" where
  "resolvePending frame c =
     (let i = StreamId (Header frame); c' = c\<lparr>pending := gdel i (pending c)\<rparr>
      in case map_of (pending c) i of
           None \<Rightarrow> Some c'
         | Some a \<Rightarrow> map_option (\<lambda>cs. c'\<lparr>chans := cs\<rparr>) (chan_send a (response_of frame) (chans c)))"

fun close_all :: "(uint32, nat) gomap \<Rightarrow> chan list \<Rightarrow> chan list option" where
  "close_all [] cs = Some cs"
| "close_all ((i, a) # ps) cs = Option.bind (chan_close a cs) (close_all ps)"

definition failPending :: "client \<Rightarrow> client option" where
  "failPending c = map_option (\<lambda>cs. c\<lparr>chans := cs, pending := []\<rparr>) (close_all (pending c) (chans c))"

definition Client_Close :: "client \<Rightarrow> client" where
  "Client_Close c = c\<lparr>cl_closed := True\<rparr>"

text \<open>
  One iteration: a decoding error leaves the loop, a response or pong is resolved, anything else is
  an event for the registered handler.
\<close>

datatype read_out = ReadFailed proto_err | ReadResolve Frame | ReadEvent Frame

definition readLoop_iter :: "reader \<Rightarrow> read_out \<times> reader" where
  "readLoop_iter r =
     (case DecodeStreamed r of
        (Inl err, r') \<Rightarrow> (ReadFailed err, r')
      | (Inr frame, r') \<Rightarrow>
          (if FrameHeader.FrameType (Header frame) = RESPONSE \<or> FrameHeader.FrameType (Header frame) = PONG
           then (ReadResolve frame, r') else (ReadEvent frame, r')))"

section \<open>Methods built on roundTrip\<close>

text \<open>The request of a handshake: empty fields are omitted, map keys are sorted.\<close>

definition marshal_cursors :: "(string, uint64) gomap \<Rightarrow> string" where
  "marshal_cursors cur = CHR ''{'' #
     join_with '','' (map (\<lambda>(k, n). marshal_string k @ '':'' @ itoa (unat n)) (sort_key fst cur)) @ ''}''"

definition marshal_HelloRequest :: "HelloRequest \<Rightarrow> string" where
  "marshal_HelloRequest req = CHR ''{'' # json_key ''versions'' @
     ''['' @ join_with '','' (map itoa_int (Versions req)) @ '']'' @
     (if Resume req = [] then [] else '','' @ json_key ''resume'' @ marshal_string (Resume req)) @
     (if Cursors req = [] then [] else '','' @ json_key ''cursors'' @ marshal_cursors (Cursors req)) @ ''}''"

definition handshake_request :: "string \<Rightarrow> (string, uint64) gomap \<Rightarrow> HelloRequest" where
  "handshake_request session cursors =
     (let req = \<lparr>Versions = [ProtocolVersion], Resume = [], Cursors = cursors\<rparr>
      in if session \<noteq> [] then req\<lparr>Resume := session\<rparr> else req)"

record HandshakeResult =
  hr_Version :: int
  hr_Features :: "string list"
  hr_Token :: string
  hr_Resumed :: bool

fun decode_bool :: "bool \<Rightarrow> json \<Rightarrow> bool option" where
  "decode_bool old (JBool b) = Some b"
| "decode_bool old JNull = Some old"
| "decode_bool old _ = None"

fun decode_strings :: "string list \<Rightarrow> json list \<Rightarrow> string list option" where
  "decode_strings old [] = Some []"
| "decode_strings old (v # vs) =
     (case decode_string (if old = [] then [] else hd old) v of
        None \<Rightarrow> None
      | Some s \<Rightarrow> map_option ((#) s) (decode_strings (tl old) vs))"

fun decode_string_slice :: "nat \<times> string list \<Rightarrow> json \<Rightarrow> (nat \<times> string list) option" where
  "decode_string_slice old JNull = Some (0, [])"
| "decode_string_slice (n, arr) (JArray vs) =
     (if vs = [] then Some (0, [])
      else map_option (\<lambda>ss. (length ss, ss @ drop (length ss) arr)) (decode_strings arr vs))"
| "decode_string_slice old _ = None"

type_synonym agreed_acc = "int \<times> (nat \<times> string list) \<times> string \<times> bool"

fun agreed_step :: "string \<times> string \<times> json \<Rightarrow> agreed_acc option \<Rightarrow> agreed_acc option" where
  "agreed_step (key, raw, v) None = None"
| "agreed_step (key, raw, v) (Some (ver, fs, tk, res)) =
     (case match_field [''version'', ''features'', ''token'', ''resumed''] key of
        None \<Rightarrow> Some (ver, fs, tk, res)
      | Some f \<Rightarrow>
          (if f = ''version'' then map_option (\<lambda>n. (n, fs, tk, res)) (decode_int ver v)
           else if f = ''features'' then map_option (\<lambda>x. (ver, x, tk, res)) (decode_string_slice fs v)
           else if f = ''token'' then map_option (\<lambda>x. (ver, fs, x, res)) (decode_string tk v)
           else map_option (\<lambda>x. (ver, fs, tk, x)) (decode_bool res v)))"

definition agreed_of :: "agreed_acc \<Rightarrow> HandshakeResult" where
  "agreed_of = (\<lambda>(ver, (n, arr), tk, res). \<lparr>hr_Version = ver, hr_Features = take n arr, hr_Token = tk, hr_Resumed = res\<rparr>)"

definition decode_HelloResponse :: "json \<Rightarrow> HandshakeResult option" where
  "decode_HelloResponse v =
     (case v of
        JNull \<Rightarrow> Some (agreed_of (0, (0, []), [], False))
      | JObject ms \<Rightarrow> map_option agreed_of (fold agreed_step ms (Some (0, (0, []), [], False)))
      | _ \<Rightarrow> None)"

text \<open>
  What the methods do with the result of their \<open>roundTrip\<close>. A rejected or malformed handshake closes
  the client; the version is narrowed to 32 bits.
\<close>

definition HandshakeWith_finish ::
  "(call_err + Response) \<Rightarrow> client \<Rightarrow> client \<times> (call_err + HandshakeResult)" where
  "HandshakeWith_finish result c =
     (case result of
        Inl err \<Rightarrow> (c, Inl err)
      | Inr resp \<Rightarrow>
          (case r_Err resp of
             Some err \<Rightarrow> (Client_Close c, Inl (HandshakeRejected err))
           | None \<Rightarrow>
               (case unmarshal decode_HelloResponse (r_Data resp) of
                  Inl err \<Rightarrow> (Client_Close c, Inl (MalformedHandshake err))
                | Inr agreed \<Rightarrow> (c\<lparr>version := word_of_int (hr_Version agreed)\<rparr>, Inr agreed))))"

record SubscribeResponse =
  sr_Topic :: string
  sr_LastSeq :: uint64

fun decode_uint64 :: "uint64 \<Rightarrow> json \<Rightarrow> uint64 option" where
  "decode_uint64 old JNull = Some old"
| "decode_uint64 old (JNumber s) = ParseUint s"
| "decode_uint64 old _ = None"

fun sub_step :: "string \<times> string \<times> json \<Rightarrow> SubscribeResponse option \<Rightarrow> SubscribeResponse option" where
  "sub_step (key, raw, v) None = None"
| "sub_step (key, raw, v) (Some r) =
     (case match_field [''topic'', ''lastSeq''] key of
        None \<Rightarrow> Some r
      | Some f \<Rightarrow>
          (if f = ''topic'' then map_option (\<lambda>s. r\<lparr>sr_Topic := s\<rparr>) (decode_string (sr_Topic r) v)
           else map_option (\<lambda>n. r\<lparr>sr_LastSeq := n\<rparr>) (decode_uint64 (sr_LastSeq r) v)))"

definition decode_SubscribeResponse :: "json \<Rightarrow> SubscribeResponse option" where
  "decode_SubscribeResponse v =
     (case v of
        JNull \<Rightarrow> Some \<lparr>sr_Topic = [], sr_LastSeq = 0\<rparr>
      | JObject ms \<Rightarrow> fold sub_step ms (Some \<lparr>sr_Topic = [], sr_LastSeq = 0\<rparr>)
      | _ \<Rightarrow> None)"

definition SubscribeWithResult_finish :: "string \<Rightarrow> (call_err + Response) \<Rightarrow> call_err + SubscribeResponse" where
  "SubscribeWithResult_finish topic result =
     (case result of
        Inl err \<Rightarrow> Inl err
      | Inr resp \<Rightarrow>
          (case r_Err resp of
             Some err \<Rightarrow> Inl (Rejected SUBSCRIBE topic err)
           | None \<Rightarrow>
               (if length (r_Data resp) > 0 then
                  (case unmarshal decode_SubscribeResponse (r_Data resp) of
                     Inl err \<Rightarrow> Inl (MalformedSubscribe err)
                   | Inr sub \<Rightarrow> Inr sub)
                else Inr \<lparr>sr_Topic = [], sr_LastSeq = 0\<rparr>)))"

text \<open>\<open>Unsubscribe\<close> and \<open>Ping\<close>.\<close>

definition Unsubscribe_finish :: "string \<Rightarrow> (call_err + Response) \<Rightarrow> call_err + unit" where
  "Unsubscribe_finish topic result =
     (case result of
        Inl err \<Rightarrow> Inl err
      | Inr resp \<Rightarrow> (case r_Err resp of Some err \<Rightarrow> Inl (Rejected UNSUBSCRIBE topic err) | None \<Rightarrow> Inr ()))"

definition Ping_finish :: "(call_err + Response) \<Rightarrow> call_err + unit" where
  "Ping_finish result =
     (case result of
        Inl err \<Rightarrow> Inl err
      | Inr resp \<Rightarrow> (case r_Err resp of Some err \<Rightarrow> Inl (Rejected PING ''ping'' err) | None \<Rightarrow> Inr ()))"

text \<open>
  One wake-up of the keep-alive goroutine, with what its \<open>select\<close> chose: it ends when the client is
  closed or it is stopped, and closes the client when a ping fails. The boolean says whether it goes on.
\<close>

datatype keepalive_wake = KaClosed | KaStopped | KaTick "call_err + Response"

definition KeepAlive_wake :: "keepalive_wake \<Rightarrow> client \<Rightarrow> client \<times> bool" where
  "KeepAlive_wake w c =
     (case w of
        KaClosed \<Rightarrow> (c, False)
      | KaStopped \<Rightarrow> (c, False)
      | KaTick result \<Rightarrow> (case Ping_finish result of Inl _ \<Rightarrow> (Client_Close c, False) | Inr _ \<Rightarrow> (c, True)))"

text \<open>\<open>CloseGracefully\<close>: whatever the goodbye came to, the connection is closed.\<close>

definition CloseGracefully :: "(call_err + Response) \<Rightarrow> client \<Rightarrow> client" where
  "CloseGracefully result c =
     (if cl_closed c then c else (case result of Inl _ \<Rightarrow> Client_Close c | Inr _ \<Rightarrow> Client_Close c))"

text \<open>
  The calls that only pass on: \<open>Dial\<close> with what \<open>net.Dial\<close> answered, the request of a fresh
  \<open>Handshake\<close>, the registration of a \<open>Call\<close>, and \<open>Subscribe\<close>, which drops the server's sequence.
\<close>

definition Dial :: "'e + unit \<Rightarrow> 'e + client" where
  "Dial dialled = (case dialled of Inl err \<Rightarrow> Inl err | Inr _ \<Rightarrow> Inr NewClient)"

definition Handshake :: HelloRequest where
  "Handshake = handshake_request [] []"

definition Call :: "string \<Rightarrow> go_any \<Rightarrow> client \<Rightarrow> client \<times> uint32 \<times> nat \<times> (call_err + bytes list)" where
  "Call action data c = register REQUEST action data c"

definition Subscribe :: "string \<Rightarrow> (call_err + Response) \<Rightarrow> call_err + unit" where
  "Subscribe topic result =
     (case SubscribeWithResult_finish topic result of Inl err \<Rightarrow> Inl err | Inr sub \<Rightarrow> Inr ())"

section \<open>Callers and the read loop, interleaved\<close>

text \<open>
  A caller has passed the check for a closed client, writes its registered message, waits, removes
  its entry after a failure, or has returned. The loop reads, has met an error, has failed the
  pending calls, or has closed the client; \<open>Crashed\<close> stands for a channel operation that panicked
  or blocked. \<open>owners\<close> and \<open>resolved\<close> record, for the statements only, the id each channel was
  made for and the frames that were resolved.
\<close>

datatype caller =
    CEntered FrameType string go_any int
  | CWriting uint32 nat FrameType string int "bytes list"
  | CWaiting uint32 nat FrameType string int
  | CFailing uint32 call_err
  | CReturned "uint32 option" "call_err + Response"

datatype loop_state = Reading | ReadError | FailedPending | LoopEnded | Crashed

record cl_sys =
  cl :: client
  callers :: "caller list"
  loop :: loop_state
  owners :: "uint32 list"
  resolved :: "Frame list"

inductive cl_step :: "cl_sys \<Rightarrow> cl_sys \<Rightarrow> bool" where
  refused: "cl_closed (cl S) \<Longrightarrow> cl_step S (S\<lparr>callers := callers S @ [CReturned None (Inl ErrClosed)]\<rparr>)"
| enter: "\<not> cl_closed (cl S) \<Longrightarrow> cl_step S (S\<lparr>callers := callers S @ [CEntered t action data timeout]\<rparr>)"
| registered: "i < length (callers S) \<Longrightarrow> callers S ! i = CEntered t action data timeout \<Longrightarrow>
    register t action data (cl S) = (c, n, a, Inr bufs) \<Longrightarrow>
    cl_step S (S\<lparr>cl := c, callers := (callers S)[i := CWriting n a t action timeout bufs], owners := owners S @ [n]\<rparr>)"
| unencodable: "i < length (callers S) \<Longrightarrow> callers S ! i = CEntered t action data timeout \<Longrightarrow>
    register t action data (cl S) = (c, n, a, Inl err) \<Longrightarrow>
    cl_step S (S\<lparr>cl := c, callers := (callers S)[i := CFailing n err], owners := owners S @ [n]\<rparr>)"
| written: "i < length (callers S) \<Longrightarrow> callers S ! i = CWriting n a t action timeout bufs \<Longrightarrow>
    snd (writeAll conn 0 bufs) \<Longrightarrow>
    cl_step S (S\<lparr>callers := (callers S)[i := CWaiting n a t action timeout]\<rparr>)"
| write_fails: "i < length (callers S) \<Longrightarrow> callers S ! i = CWriting n a t action timeout bufs \<Longrightarrow>
    \<not> snd (writeAll conn 0 bufs) \<Longrightarrow>
    cl_step S (S\<lparr>callers := (callers S)[i := CFailing n CallWrite]\<rparr>)"
| received: "i < length (callers S) \<Longrightarrow> callers S ! i = CWaiting n a t action timeout \<Longrightarrow>
    chan_recv (chans (cl S) ! a) = Some v \<Longrightarrow>
    cl_step S (S\<lparr>callers := (callers S)[i := CReturned (Some n) (call_result v)]\<rparr>)"
| timed_out: "i < length (callers S) \<Longrightarrow> callers S ! i = CWaiting n a t action timeout \<Longrightarrow> 0 < timeout \<Longrightarrow>
    cl_step S (S\<lparr>callers := (callers S)[i := CFailing n (CallTimeout t action)]\<rparr>)"
| cleaned: "i < length (callers S) \<Longrightarrow> callers S ! i = CFailing n err \<Longrightarrow>
    cl_step S (S\<lparr>cl := removePending n (cl S), callers := (callers S)[i := CReturned (Some n) (Inl err)]\<rparr>)"
| resolve: "loop S = Reading \<Longrightarrow> readLoop_iter r = (ReadResolve f, r') \<Longrightarrow> resolvePending f (cl S) = Some c \<Longrightarrow>
    cl_step S (S\<lparr>cl := c, resolved := resolved S @ [f]\<rparr>)"
| resolve_crash: "loop S = Reading \<Longrightarrow> readLoop_iter r = (ReadResolve f, r') \<Longrightarrow> resolvePending f (cl S) = None \<Longrightarrow>
    cl_step S (S\<lparr>loop := Crashed\<rparr>)"
| read_error: "loop S = Reading \<Longrightarrow> readLoop_iter r = (ReadFailed err, r') \<Longrightarrow> cl_step S (S\<lparr>loop := ReadError\<rparr>)"
| fail: "loop S = ReadError \<Longrightarrow> failPending (cl S) = Some c \<Longrightarrow> cl_step S (S\<lparr>cl := c, loop := FailedPending\<rparr>)"
| fail_crash: "loop S = ReadError \<Longrightarrow> failPending (cl S) = None \<Longrightarrow> cl_step S (S\<lparr>loop := Crashed\<rparr>)"
| loop_close: "loop S = FailedPending \<Longrightarrow> cl_step S (S\<lparr>cl := Client_Close (cl S), loop := LoopEnded\<rparr>)"
| close: "cl_step S (S\<lparr>cl := Client_Close (cl S)\<rparr>)"

definition cl_start :: cl_sys where
  "cl_start = \<lparr>cl = NewClient, callers = [], loop = Reading, owners = [], resolved = []\<rparr>"

end
