(* ===== verification/Rpc_Safety.thy ===== *)
theory Rpc_Safety
  imports Rpc_Client
begin

text \<open>
  What holds of the client under every interleaving of its callers with the read loop: the channel
  operations of the read loop never block or panic, a call returns only the response with its own
  stream id, and the end of the read loop wakes the calls that are in the table, but not one that
  registers just after.
\<close>

section \<open>The invariant\<close>

definition answers :: "Frame \<Rightarrow> uint32 \<Rightarrow> Response \<Rightarrow> bool" where
  "answers f n r \<longleftrightarrow> StreamId (Header f) = n \<and> FrameHeader.FrameType (Header f) \<in> {RESPONSE, PONG} \<and> r = response_of f"

definition owners_ok :: "cl_sys \<Rightarrow> bool" where
  "owners_ok S \<longleftrightarrow> length (owners S) = length (chans (cl S)) \<and> nextID (cl S) = word_of_nat (length (owners S)) \<and>
     (\<forall>a < length (owners S). owners S ! a = word_of_nat (Suc a))"

definition pend_ok :: "cl_sys \<Rightarrow> bool" where
  "pend_ok S \<longleftrightarrow> gomap_ok (pending (cl S)) \<and> (\<forall>n a. map_of (pending (cl S)) n = Some a \<longrightarrow>
     a < length (chans (cl S)) \<and> chans (cl S) ! a = make_chan \<and> owners S ! a = n)"

definition bufs_ok :: "cl_sys \<Rightarrow> bool" where
  "bufs_ok S \<longleftrightarrow> (\<forall>a < length (chans (cl S)). \<forall>r. ch_buf (chans (cl S) ! a) = Some r \<longrightarrow>
     (\<exists>f \<in> set (resolved S). answers f (owners S ! a) r))"

fun caller_ok :: "uint32 list \<Rightarrow> Frame list \<Rightarrow> caller \<Rightarrow> bool" where
  "caller_ok os fs (CWriting n a t act to bufs) = (a < length os \<and> os ! a = n)"
| "caller_ok os fs (CWaiting n a t act to) = (a < length os \<and> os ! a = n)"
| "caller_ok os fs (CFailing n err) = (n \<in> set os)"
| "caller_ok os fs (CReturned (Some n) (Inr r)) = (\<exists>f \<in> set fs. answers f n r)"
| "caller_ok os fs _ = True"

definition cl_inv :: "cl_sys \<Rightarrow> bool" where
  "cl_inv S \<longleftrightarrow> owners_ok S \<and> pend_ok S \<and> bufs_ok S \<and>
     (\<forall>u \<in> set (callers S). caller_ok (owners S) (resolved S) u) \<and> loop S \<noteq> Crashed"

lemma caller_ok_mono: "caller_ok os fs u \<Longrightarrow> caller_ok (os @ ns) (fs @ gs) u"
  by (induction os fs u rule: caller_ok.induct) (auto simp: nth_append)

lemma callers_mono:
  "\<forall>u \<in> set us. caller_ok os fs u \<Longrightarrow> \<forall>u \<in> set us. caller_ok (os @ ns) (fs @ gs) u"
  by (simp add: caller_ok_mono)

lemma callers_update:
  "\<forall>u \<in> set us. P u \<Longrightarrow> P v \<Longrightarrow> \<forall>u \<in> set (us[i := v]). P u"
  using set_update_subset_insert [of us i v] by blast

lemma register_eq:
  assumes "register t action data c = (c', n, a, res)"
  shows "n = nextID c + 1" "a = length (chans c)"
    "c' = c\<lparr>nextID := nextID c + 1, chans := chans c @ [make_chan], pending := gput (nextID c + 1) (length (chans c)) (pending c)\<rparr>"
  using assms by (auto simp: register_def Let_def)

lemma cl_inv_register:
  assumes "cl_inv S" "register t action data (cl S) = (c, n, a, res)"
  shows "owners_ok (S\<lparr>cl := c, owners := owners S @ [n]\<rparr>)" "pend_ok (S\<lparr>cl := c, owners := owners S @ [n]\<rparr>)"
    "bufs_ok (S\<lparr>cl := c, owners := owners S @ [n]\<rparr>)" "a = length (owners S)"
proof -
  note r = register_eq [OF assms(2)]
  have inv: "owners_ok S" "pend_ok S" "bufs_ok S" using assms(1) by (simp_all add: cl_inv_def)
  have len: "length (owners S) = length (chans (cl S))" using inv(1) by (simp add: owners_ok_def)
  then show "a = length (owners S)" using r(2) by simp
  show "owners_ok (S\<lparr>cl := c, owners := owners S @ [n]\<rparr>)"
    using inv(1) by (auto simp: owners_ok_def r(1,3) nth_append less_Suc_eq add.commute)
  show "pend_ok (S\<lparr>cl := c, owners := owners S @ [n]\<rparr>)"
    using inv(2) len by (fastforce simp: pend_ok_def r nth_append)
  show "bufs_ok (S\<lparr>cl := c, owners := owners S @ [n]\<rparr>)"
    using inv(3) len by (auto simp: bufs_ok_def r nth_append make_chan_def less_Suc_eq)
qed

text \<open>Distinct entries of the table have distinct channels, so none is closed twice.\<close>

lemma pend_distinct:
  assumes "pend_ok S" shows "distinct (map snd (pending (cl S)))"
proof -
  have g: "gomap_ok (pending (cl S))" using assms by (simp add: pend_ok_def)
  have "inj_on snd (set (pending (cl S)))"
  proof (rule inj_onI)
    fix x y assume x: "x \<in> set (pending (cl S))" and y: "y \<in> set (pending (cl S))" and eq: "snd x = snd y"
    have "owners S ! snd x = fst x" "owners S ! snd y = fst y"
      using assms x y gomap_mem_iff [OF g, of "fst x" "snd x"] gomap_mem_iff [OF g, of "fst y" "snd y"]
      by (simp_all add: pend_ok_def)
    with eq show "x = y" by (simp add: prod_eq_iff)
  qed
  moreover have "distinct (pending (cl S))" using g by (simp add: gomap_ok_def distinct_map)
  ultimately show ?thesis by (simp add: distinct_map)
qed

lemma close_all_open:
  assumes "distinct (map snd ps)" "\<And>n a. (n, a) \<in> set ps \<Longrightarrow> a < length cs \<and> \<not> ch_closed (cs ! a)"
  shows "\<exists>cs'. close_all ps cs = Some cs' \<and> length cs' = length cs \<and>
    (\<forall>a < length cs. cs' ! a = (if a \<in> snd ` set ps then (cs ! a)\<lparr>ch_closed := True\<rparr> else cs ! a))"
  using assms
proof (induction ps arbitrary: cs)
  case (Cons p ps)
  obtain n a where p: "p = (n, a)" by (cases p)
  let ?cs = "cs[a := (cs ! a)\<lparr>ch_closed := True\<rparr>]"
  have a: "a < length cs" "\<not> ch_closed (cs ! a)" using Cons.prems(2) [of n a] p by simp_all
  have na: "a \<notin> snd ` set ps" using Cons.prems(1) p by simp
  have "\<exists>cs'. close_all ps ?cs = Some cs' \<and> length cs' = length ?cs \<and>
    (\<forall>x < length ?cs. cs' ! x = (if x \<in> snd ` set ps then (?cs ! x)\<lparr>ch_closed := True\<rparr> else ?cs ! x))"
  proof (rule Cons.IH)
    show "distinct (map snd ps)" using Cons.prems(1) by simp
    fix m x assume "(m, x) \<in> set ps"
    then show "x < length ?cs \<and> \<not> ch_closed (?cs ! x)"
      using Cons.prems(2) [of m x] na by (cases "x = a") force+
  qed
  then show ?case using a na p by (auto simp: chan_close_def nth_list_update)
qed simp

lemma pend_open:
  assumes "pend_ok S" "(n, a) \<in> set (pending (cl S))"
  shows "a < length (chans (cl S))" "chans (cl S) ! a = make_chan"
  using assms gomap_mem_iff [of "pending (cl S)" n a] by (simp_all add: pend_ok_def)

lemma failPending_spec:
  assumes "pend_ok S"
  obtains cs where "failPending (cl S) = Some ((cl S)\<lparr>chans := cs, pending := []\<rparr>)" "length cs = length (chans (cl S))"
    "\<And>a. a < length cs \<Longrightarrow> cs ! a = (if a \<in> snd ` set (pending (cl S)) then (chans (cl S) ! a)\<lparr>ch_closed := True\<rparr> else chans (cl S) ! a)"
proof -
  have "a < length (chans (cl S)) \<and> \<not> ch_closed (chans (cl S) ! a)" if "(n, a) \<in> set (pending (cl S))" for n a
    using pend_open [OF assms that] by (simp add: make_chan_def)
  then obtain cs where cs: "close_all (pending (cl S)) (chans (cl S)) = Some cs" "length cs = length (chans (cl S))"
    "\<forall>a < length (chans (cl S)). cs ! a = (if a \<in> snd ` set (pending (cl S)) then (chans (cl S) ! a)\<lparr>ch_closed := True\<rparr> else chans (cl S) ! a)"
    using close_all_open [OF pend_distinct [OF assms], of "chans (cl S)"] by blast
  show thesis by (rule that [of cs]) (use cs in \<open>simp_all add: failPending_def\<close>)
qed

lemma resolve_spec:
  assumes "pend_ok S"
  shows "resolvePending f (cl S) = Some ((cl S)\<lparr>pending := gdel (StreamId (Header f)) (pending (cl S)),
    chans := (case map_of (pending (cl S)) (StreamId (Header f)) of None \<Rightarrow> chans (cl S)
      | Some a \<Rightarrow> (chans (cl S))[a := \<lparr>ch_buf = Some (response_of f), ch_closed = False\<rparr>])\<rparr>)"
proof (cases "map_of (pending (cl S)) (StreamId (Header f))")
  case (Some a)
  then have "chans (cl S) ! a = make_chan" using assms by (simp add: pend_ok_def)
  with Some show ?thesis by (simp add: resolvePending_def chan_send_def make_chan_def Let_def)
qed (simp add: resolvePending_def Let_def)

section \<open>Preservation\<close>

lemma parts_frame [simp]:
  "owners_ok (S\<lparr>callers := us\<rparr>) = owners_ok S" "owners_ok (S\<lparr>loop := l\<rparr>) = owners_ok S"
  "owners_ok (S\<lparr>resolved := fs\<rparr>) = owners_ok S" "pend_ok (S\<lparr>callers := us\<rparr>) = pend_ok S"
  "pend_ok (S\<lparr>loop := l\<rparr>) = pend_ok S" "pend_ok (S\<lparr>resolved := fs\<rparr>) = pend_ok S"
  "bufs_ok (S\<lparr>callers := us\<rparr>) = bufs_ok S" "bufs_ok (S\<lparr>loop := l\<rparr>) = bufs_ok S"
  by (simp_all add: owners_ok_def pend_ok_def bufs_ok_def)

lemma parts_client [simp]:
  "owners_ok (S\<lparr>cl := Client_Close (cl S)\<rparr>) = owners_ok S" "pend_ok (S\<lparr>cl := Client_Close (cl S)\<rparr>) = pend_ok S"
  "bufs_ok (S\<lparr>cl := Client_Close (cl S)\<rparr>) = bufs_ok S" "owners_ok (S\<lparr>cl := removePending n (cl S)\<rparr>) = owners_ok S"
  "bufs_ok (S\<lparr>cl := removePending n (cl S)\<rparr>) = bufs_ok S"
  by (simp_all add: owners_ok_def pend_ok_def bufs_ok_def Client_Close_def removePending_def)

lemma pend_remove: "pend_ok S \<Longrightarrow> pend_ok (S\<lparr>cl := removePending n (cl S)\<rparr>)"
  by (auto simp: pend_ok_def removePending_def)

lemma cl_inv_callers:
  assumes "cl_inv S" "\<forall>u \<in> set us. caller_ok (owners S) (resolved S) u"
  shows "cl_inv (S\<lparr>callers := us\<rparr>)"
  using assms by (simp add: cl_inv_def)

lemma cl_inv_set_caller:
  "cl_inv S \<Longrightarrow> caller_ok (owners S) (resolved S) v \<Longrightarrow> cl_inv (S\<lparr>callers := (callers S)[i := v]\<rparr>)"
  by (rule cl_inv_callers, assumption, rule callers_update) (simp_all add: cl_inv_def)

lemma cl_inv_nth: "cl_inv S \<Longrightarrow> i < length (callers S) \<Longrightarrow> caller_ok (owners S) (resolved S) (callers S ! i)"
  by (simp add: cl_inv_def)

lemma cl_inv_registered:
  assumes "cl_inv S" "register t action data (cl S) = (c, n, a, res)"
    and "caller_ok (owners S @ [n]) (resolved S) v"
  shows "cl_inv (S\<lparr>cl := c, callers := (callers S)[i := v], owners := owners S @ [n]\<rparr>)"
proof -
  note r = cl_inv_register [OF assms(1,2)]
  have "\<forall>u \<in> set (callers S). caller_ok (owners S @ [n]) (resolved S @ []) u"
    using callers_mono [of "callers S" "owners S" "resolved S" "[n]" "[]"] assms(1) by (simp add: cl_inv_def)
  then have "\<forall>u \<in> set ((callers S)[i := v]). caller_ok (owners S @ [n]) (resolved S) u"
    unfolding append_Nil2 using assms(3) by (rule callers_update)
  moreover have "S\<lparr>cl := c, callers := (callers S)[i := v], owners := owners S @ [n]\<rparr> =
      (S\<lparr>cl := c, owners := owners S @ [n]\<rparr>)\<lparr>callers := (callers S)[i := v]\<rparr>" by simp
  ultimately show ?thesis using r assms(1) unfolding cl_inv_def by (simp only: parts_frame) simp
qed

lemma cl_inv_remove: "cl_inv S \<Longrightarrow> cl_inv (S\<lparr>cl := removePending n (cl S)\<rparr>)"
  by (simp add: cl_inv_def pend_remove)

lemma cl_inv_closed: "cl_inv S \<Longrightarrow> cl_inv (S\<lparr>cl := Client_Close (cl S)\<rparr>)"
  by (simp add: cl_inv_def)

lemma cl_inv_loop: "cl_inv S \<Longrightarrow> l \<noteq> Crashed \<Longrightarrow> cl_inv (S\<lparr>loop := l\<rparr>)"
  by (simp add: cl_inv_def)

lemma iter_resolve:
  "readLoop_iter r = (ReadResolve f, r') \<Longrightarrow> FrameHeader.FrameType (Header f) \<in> {RESPONSE, PONG}"
  by (auto simp: readLoop_iter_def split: prod.splits sum.splits if_splits)

lemma cl_inv_resolve:
  assumes "cl_inv S" "FrameHeader.FrameType (Header f) \<in> {RESPONSE, PONG}" "resolvePending f (cl S) = Some c"
  shows "cl_inv (S\<lparr>cl := c, resolved := resolved S @ [f]\<rparr>)"
proof -
  have inv: "owners_ok S" "pend_ok S" "bufs_ok S" using assms(1) by (simp_all add: cl_inv_def)
  let ?n = "StreamId (Header f)"
  have c: "c = (cl S)\<lparr>pending := gdel ?n (pending (cl S)),
    chans := (case map_of (pending (cl S)) ?n of None \<Rightarrow> chans (cl S)
      | Some a \<Rightarrow> (chans (cl S))[a := \<lparr>ch_buf = Some (response_of f), ch_closed = False\<rparr>])\<rparr>"
    using resolve_spec [OF inv(2), of f] assms(3) by simp
  have own: "owners S ! a = ?n" if "map_of (pending (cl S)) ?n = Some a" for a using that inv(2) by (simp add: pend_ok_def)
  have "owners_ok (S\<lparr>cl := c, resolved := resolved S @ [f]\<rparr>)"
    using inv(1) by (simp add: owners_ok_def c split: option.split)
  moreover have "bufs_ok (S\<lparr>cl := c, resolved := resolved S @ [f]\<rparr>)"
    unfolding bufs_ok_def
  proof (intro allI impI)
    fix a r assume a: "a < length (chans (cl (S\<lparr>cl := c, resolved := resolved S @ [f]\<rparr>)))"
      and r: "ch_buf (chans (cl (S\<lparr>cl := c, resolved := resolved S @ [f]\<rparr>)) ! a) = Some r"
    have "ch_buf (chans (cl S) ! a) = Some r \<or> owners S ! a = ?n \<and> r = response_of f"
    proof (cases "map_of (pending (cl S)) ?n")
      case (Some b)
      then show ?thesis using a r own [OF Some] by (cases "a = b") (simp_all add: c)
    qed (use r in \<open>simp add: c\<close>)
    with a assms(2) inv(3) show "\<exists>g \<in> set (resolved (S\<lparr>cl := c, resolved := resolved S @ [f]\<rparr>)).
        answers g (owners (S\<lparr>cl := c, resolved := resolved S @ [f]\<rparr>) ! a) r"
      by (auto simp: bufs_ok_def answers_def c split: option.splits)
  qed
  moreover have "pend_ok (S\<lparr>cl := c, resolved := resolved S @ [f]\<rparr>)"
  proof -
    have other: "a \<noteq> b" if "map_of (pending (cl S)) ?n = Some a" "map_of (pending (cl S)) m = Some b" "m \<noteq> ?n" for a b m
      using that inv(2) by (auto simp: pend_ok_def)
    show ?thesis using inv(2) other by (auto simp: pend_ok_def c split: option.split)
  qed
  moreover have "\<forall>u \<in> set (callers S). caller_ok (owners S) (resolved S @ [f]) u"
    using callers_mono [of "callers S" "owners S" "resolved S" "[]" "[f]"] assms(1) by (simp add: cl_inv_def)
  ultimately show ?thesis using assms(1) by (simp add: cl_inv_def)
qed

lemma cl_inv_fail:
  assumes "cl_inv S" "failPending (cl S) = Some c"
  shows "cl_inv (S\<lparr>cl := c\<rparr>)"
proof -
  have inv: "owners_ok S" "pend_ok S" "bufs_ok S" using assms(1) by (simp_all add: cl_inv_def)
  obtain cs where cs: "c = (cl S)\<lparr>chans := cs, pending := []\<rparr>" "length cs = length (chans (cl S))"
    "\<And>a. a < length cs \<Longrightarrow> ch_buf (cs ! a) = ch_buf (chans (cl S) ! a)"
    by (rule failPending_spec [OF inv(2)]) (use assms(2) in auto)
  have "owners_ok (S\<lparr>cl := c\<rparr>)" using inv(1) cs by (simp add: owners_ok_def)
  moreover have "pend_ok (S\<lparr>cl := c\<rparr>)" using cs by (simp add: pend_ok_def)
  moreover have "bufs_ok (S\<lparr>cl := c\<rparr>)" using inv(3) cs by (simp add: bufs_ok_def)
  ultimately show ?thesis using assms(1) by (simp add: cl_inv_def)
qed

lemma recv_Some:
  "chan_recv ch = Some (Some r) \<Longrightarrow> ch_buf ch = Some r"
  by (auto simp: chan_recv_def split: option.splits if_splits)

lemma cl_inv_step: "cl_step S S' \<Longrightarrow> cl_inv S \<Longrightarrow> cl_inv S'"
proof (induction rule: cl_step.induct)
  case (registered i S t action data timeout c n a bufs)
  have "a = length (owners S)" by (rule cl_inv_register(4) [OF registered.prems registered.hyps(3)])
  then show ?case by (intro cl_inv_registered [OF registered.prems registered.hyps(3)]) simp
next
  case (unencodable i S t action data timeout c n a err)
  show ?case by (intro cl_inv_registered [OF unencodable.prems unencodable.hyps(3)]) simp
next
  case (written i S n a t action timeout bufs conn)
  then show ?case using cl_inv_nth [OF written.prems written.hyps(1)] by (intro cl_inv_set_caller) simp_all
next
  case (write_fails i S n a t action timeout bufs conn)
  then show ?case using cl_inv_nth [OF write_fails.prems write_fails.hyps(1)] by (intro cl_inv_set_caller) auto
next
  case (received i S n a t action timeout v)
  have a: "a < length (owners S)" "owners S ! a = n"
    using cl_inv_nth [OF received.prems received.hyps(1)] received.hyps(2) by simp_all
  have "\<exists>f \<in> set (resolved S). answers f n r" if "v = Some r" for r
    using recv_Some [of "chans (cl S) ! a" r] received.hyps(3) that a received.prems
    by (auto simp: cl_inv_def bufs_ok_def owners_ok_def)
  then show ?case using received.prems by (intro cl_inv_set_caller) (auto simp: call_result_def split: option.split)
next
  case (timed_out i S n a t action timeout)
  then show ?case using cl_inv_nth [OF timed_out.prems timed_out.hyps(1)] by (intro cl_inv_set_caller) auto
next
  case (cleaned i S n err)
  from cl_inv_set_caller [OF cl_inv_remove [OF cleaned.prems, of n], of "CReturned (Some n) (Inl err)" i]
  show ?case by simp
next
  case (resolve S r f r' c)
  show ?case by (rule cl_inv_resolve [OF resolve.prems iter_resolve [OF resolve.hyps(2)] resolve.hyps(3)])
next
  case (resolve_crash S r f r')
  then show ?case using resolve_spec [of S f] by (simp add: cl_inv_def)
next
  case (fail S c)
  from cl_inv_loop [OF cl_inv_fail [OF fail.prems fail.hyps(2)], of FailedPending] show ?case by simp
next
  case (fail_crash S)
  then have "pend_ok S" by (simp add: cl_inv_def)
  then show ?case using fail_crash.hyps(2) failPending_spec [of S] by (metis option.distinct(1))
next
  case (loop_close S)
  from cl_inv_loop [OF cl_inv_closed [OF loop_close.prems], of LoopEnded] show ?case by simp
next
  case (refused S)
  then show ?case by (intro cl_inv_callers) (auto simp: cl_inv_def)
next
  case (enter S t action data timeout)
  then show ?case by (intro cl_inv_callers) (auto simp: cl_inv_def)
qed (simp_all add: cl_inv_loop cl_inv_closed)

lemma cl_inv_reachable: "cl_step\<^sup>*\<^sup>* cl_start S \<Longrightarrow> cl_inv S"
proof (induction rule: rtranclp_induct)
  case base
  show ?case by (simp add: cl_inv_def owners_ok_def pend_ok_def bufs_ok_def cl_start_def NewClient_def)
qed (rule cl_inv_step)

section \<open>Nobody in the table is forgotten\<close>

text \<open>
  While fewer than \<open>2\<^sup>3\<^sup>2\<close> calls were made the ids are distinct: a call that waits is in the table or
  can receive.
\<close>

fun ids :: "caller \<Rightarrow> uint32 set" where
  "ids (CWriting n a t act to bufs) = {n}"
| "ids (CWaiting n a t act to) = {n}"
| "ids (CFailing n err) = {n}"
| "ids _ = {}"

definition ids_ok :: "caller list \<Rightarrow> bool" where
  "ids_ok us \<longleftrightarrow> (\<forall>i j. i < length us \<longrightarrow> j < length us \<longrightarrow> i \<noteq> j \<longrightarrow> ids (us ! i) \<inter> ids (us ! j) = {})"

fun known :: "client \<Rightarrow> caller \<Rightarrow> bool" where
  "known c (CWriting n a t act to bufs) = (chan_recv (chans c ! a) \<noteq> None \<or> map_of (pending c) n = Some a)"
| "known c (CWaiting n a t act to) = (chan_recv (chans c ! a) \<noteq> None \<or> map_of (pending c) n = Some a)"
| "known c _ = True"

definition wait_inv :: "cl_sys \<Rightarrow> bool" where
  "wait_inv S \<longleftrightarrow> (length (owners S) < 2 ^ 32 \<longrightarrow> ids_ok (callers S) \<and> (\<forall>u \<in> set (callers S). known (cl S) u))"

lemma ids_ok_update:
  assumes "ids_ok us" "ids v \<subseteq> ids (us ! i)" shows "ids_ok (us[i := v])"
  unfolding ids_ok_def
proof (intro allI impI)
  fix j k assume jk: "j < length (us[i := v])" "k < length (us[i := v])" "j \<noteq> k"
  have sub: "ids (us[i := v] ! x) \<subseteq> ids (us ! x)" if "x < length us" for x
    using that assms(2) by (cases "x = i") simp_all
  have "ids (us ! j) \<inter> ids (us ! k) = {}" using assms(1) jk unfolding ids_ok_def by simp
  with sub [of j] sub [of k] jk show "ids (us[i := v] ! j) \<inter> ids (us[i := v] ! k) = {}" by auto
qed

lemma ids_ok_fresh:
  assumes "ids_ok us" "\<forall>u \<in> set us. ids u \<inter> ids v = {}" shows "ids_ok (us[i := v])"
  unfolding ids_ok_def
proof (intro allI impI)
  fix j k assume jk: "j < length (us[i := v])" "k < length (us[i := v])" "j \<noteq> k"
  have "ids (us ! j) \<inter> ids (us ! k) = {}" using assms(1) jk unfolding ids_ok_def by simp
  moreover have "ids (us ! j) \<inter> ids v = {}" "ids (us ! k) \<inter> ids v = {}" using assms(2) jk by simp_all
  ultimately show "ids (us[i := v] ! j) \<inter> ids (us[i := v] ! k) = {}"
    using jk by (cases "j = i"; cases "k = i") auto
qed

lemma ids_ok_append: "ids_ok us \<Longrightarrow> ids v = {} \<Longrightarrow> ids_ok (us @ [v])"
  unfolding ids_ok_def by (auto simp: nth_append)

lemma caller_ok_ids: "caller_ok os fs u \<Longrightarrow> ids u \<subseteq> set os"
  by (induction os fs u rule: caller_ok.induct) auto

lemma owners_fresh:
  assumes "owners_ok S" "length (owners S) < 2 ^ 32 - 1"
  shows "word_of_nat (Suc (length (owners S))) \<notin> set (owners S)"
proof
  assume "word_of_nat (Suc (length (owners S))) \<in> set (owners S)"
  then obtain a where a: "a < length (owners S)" "(word_of_nat (Suc a) :: uint32) = word_of_nat (Suc (length (owners S)))"
    using assms(1) by (metis in_set_conv_nth owners_ok_def)
  then have "unat (word_of_nat (Suc a) :: uint32) = unat (word_of_nat (Suc (length (owners S))) :: uint32)" by simp
  with a(1) assms(2) show False by (simp add: unat_of_nat del: of_nat_Suc)
qed

lemma wait_inv_set_caller:
  assumes "wait_inv S" "ids v \<subseteq> ids (callers S ! i)" "known (cl S) v"
  shows "wait_inv (S\<lparr>callers := (callers S)[i := v]\<rparr>)"
  using assms callers_update [of "callers S" "known (cl S)" v i] by (simp add: wait_inv_def ids_ok_update)

lemma wait_inv_cl:
  assumes "wait_inv S" "\<And>u. u \<in> set (callers S) \<Longrightarrow> known (cl S) u \<Longrightarrow> length (owners S) < 2 ^ 32 \<Longrightarrow> known c u"
  shows "wait_inv (S\<lparr>cl := c\<rparr>)"
  using assms by (simp add: wait_inv_def)

lemma known_nth: "wait_inv S \<Longrightarrow> length (owners S) < 2 ^ 32 \<Longrightarrow> i < length (callers S) \<Longrightarrow> known (cl S) (callers S ! i)"
  by (simp add: wait_inv_def)

lemma known_register:
  assumes "caller_ok os fs u" "known c u" "length os = length (chans c)" "n \<notin> set os"
  shows "known (c\<lparr>nextID := n, chans := chans c @ [make_chan], pending := gput n (length (chans c)) (pending c)\<rparr>) u"
  using assms by (cases u) (auto simp: nth_append)

lemma wait_inv_registered:
  assumes "cl_inv S" "wait_inv S" "register t action data (cl S) = (c, n, a, res)"
    and "ids v = {n}" "known c v"
  shows "wait_inv (S\<lparr>cl := c, callers := (callers S)[i := v], owners := owners S @ [n]\<rparr>)"
proof (cases "length (owners S) < 2 ^ 32 - 1")
  case True
  have ok: "owners_ok S" "\<And>u. u \<in> set (callers S) \<Longrightarrow> caller_ok (owners S) (resolved S) u"
    using assms(1) by (simp_all add: cl_inv_def)
  note r = register_eq [OF assms(3)]
  have n: "n = word_of_nat (Suc (length (owners S)))" using ok(1) r(1) by (simp add: owners_ok_def add.commute)
  have fresh: "n \<notin> set (owners S)" unfolding n by (rule owners_fresh [OF ok(1) True])
  have w: "ids_ok (callers S)" "\<And>u. u \<in> set (callers S) \<Longrightarrow> known (cl S) u" using assms(2) True by (simp_all add: wait_inv_def)
  have "ids u \<inter> ids v = {}" if "u \<in> set (callers S)" for u
    using caller_ok_ids [OF ok(2) [OF that]] fresh assms(4) by auto
  then have "ids_ok ((callers S)[i := v])" using ids_ok_fresh [OF w(1)] by blast
  moreover have "known c u" if "u \<in> set (callers S)" for u
    using known_register [OF ok(2) [OF that] w(2) [OF that] _ fresh] ok(1) r(1,3) by (simp add: owners_ok_def)
  ultimately show ?thesis using assms(5) callers_update [of "callers S" "known c" v i] by (simp add: wait_inv_def)
qed (simp add: wait_inv_def)

lemma known_caller_ids: "ids u \<inter> {n} = {} \<Longrightarrow> known c u \<Longrightarrow> known (removePending n c) u"
  by (cases u) (auto simp: removePending_def)

lemma recv_closed: "chan_recv (ch\<lparr>ch_closed := True\<rparr>) \<noteq> None" "chan_recv \<lparr>ch_buf = Some x, ch_closed = b\<rparr> \<noteq> None"
  by (simp_all add: chan_recv_def split: option.split)

lemma known_resolve:
  assumes "pend_ok S" "resolvePending f (cl S) = Some c" "known (cl S) u"
    and "caller_ok (owners S) (resolved S) u" "length (owners S) = length (chans (cl S))"
  shows "known c u"
proof -
  let ?n = "StreamId (Header f)"
  have c: "c = (cl S)\<lparr>pending := gdel ?n (pending (cl S)),
    chans := (case map_of (pending (cl S)) ?n of None \<Rightarrow> chans (cl S)
      | Some a \<Rightarrow> (chans (cl S))[a := \<lparr>ch_buf = Some (response_of f), ch_closed = False\<rparr>])\<rparr>"
    using resolve_spec [OF assms(1), of f] assms(2) by simp
  have "chan_recv (chans c ! a) \<noteq> None \<or> map_of (pending c) n = Some a"
    if "chan_recv (chans (cl S) ! a) \<noteq> None \<or> map_of (pending (cl S)) n = Some a" "a < length (chans (cl S))" for a n
  proof (cases "map_of (pending (cl S)) ?n")
    case None
    with that show ?thesis by (auto simp: c)
  next
    case (Some b)
    with that recv_closed(2) [of "response_of f" False] show ?thesis by (cases "a = b") (auto simp: c)
  qed
  with assms(3-5) show ?thesis by (cases u) auto
qed

lemma known_fail:
  assumes "pend_ok S" "failPending (cl S) = Some c" "known (cl S) u"
    and "caller_ok (owners S) (resolved S) u" "length (owners S) = length (chans (cl S))"
  shows "known c u" "u = CWaiting n a t act to \<Longrightarrow> chan_recv (chans c ! a) \<noteq> None"
proof -
  obtain cs where cs: "c = (cl S)\<lparr>chans := cs, pending := []\<rparr>" "length cs = length (chans (cl S))"
    "\<And>a. a < length cs \<Longrightarrow> cs ! a = (if a \<in> snd ` set (pending (cl S)) then (chans (cl S) ! a)\<lparr>ch_closed := True\<rparr> else chans (cl S) ! a)"
    by (rule failPending_spec [OF assms(1)]) (use assms(2) in auto)
  have wake: "chan_recv (chans c ! a) \<noteq> None"
    if "chan_recv (chans (cl S) ! a) \<noteq> None \<or> map_of (pending (cl S)) n = Some a" "a < length (chans (cl S))" for a n
  proof (cases "a \<in> snd ` set (pending (cl S))")
    case True
    then show ?thesis using that(2) cs recv_closed(1) by simp
  next
    case False
    then have "map_of (pending (cl S)) n \<noteq> Some a" by (metis image_eqI map_of_SomeD snd_conv)
    with False that cs show ?thesis by simp
  qed
  with assms(3-5) show "known c u" by (cases u) auto
  show "u = CWaiting n a t act to \<Longrightarrow> chan_recv (chans c ! a) \<noteq> None" using wake assms(3-5) by auto
qed

lemma known_closed: "known c u \<Longrightarrow> known (Client_Close c) u"
  by (cases u) (simp_all add: Client_Close_def)

lemma wait_inv_cleaned:
  assumes "wait_inv S" "i < length (callers S)" "callers S ! i = CFailing n err"
  shows "wait_inv (S\<lparr>cl := removePending n (cl S), callers := (callers S)[i := CReturned (Some n) (Inl err)]\<rparr>)"
proof -
  let ?v = "CReturned (Some n) (Inl err)"
  have "known (removePending n (cl S)) u"
    if lt: "length (owners S) < 2 ^ 32" and u: "u \<in> set ((callers S)[i := ?v])" for u
  proof -
    from u obtain j where j: "j < length (callers S)" "u = (callers S)[i := ?v] ! j"
      by (auto simp: in_set_conv_nth)
    show ?thesis
    proof (cases "j = i")
      case False
      with j assms lt have "ids u \<inter> {n} = {}" "known (cl S) u"
        unfolding wait_inv_def ids_ok_def by (fastforce, simp)
      then show ?thesis by (rule known_caller_ids)
    qed (use j in simp)
  qed
  moreover have "ids_ok ((callers S)[i := ?v])" if "length (owners S) < 2 ^ 32"
    using assms(1) that by (intro ids_ok_update) (simp_all add: wait_inv_def)
  ultimately show ?thesis by (simp add: wait_inv_def)
qed

lemma wait_inv_frame [simp]: "wait_inv (S\<lparr>loop := l\<rparr>) = wait_inv S" "wait_inv (S\<lparr>resolved := fs\<rparr>) = wait_inv S"
  by (simp_all add: wait_inv_def)

lemma wait_inv_append: "wait_inv S \<Longrightarrow> ids v = {} \<Longrightarrow> known (cl S) v \<Longrightarrow> wait_inv (S\<lparr>callers := callers S @ [v]\<rparr>)"
  by (auto simp: wait_inv_def ids_ok_append)

lemma wait_inv_step: "cl_step S S' \<Longrightarrow> cl_inv S \<Longrightarrow> wait_inv S \<Longrightarrow> wait_inv S'"
proof (induction rule: cl_step.induct)
  case (registered i S t action data timeout c n a bufs)
  note r = register_eq [OF registered.hyps(3)]
  show ?case by (rule wait_inv_registered [OF registered.prems registered.hyps(3)]) (simp_all add: r)
next
  case (unencodable i S t action data timeout c n a err)
  show ?case by (rule wait_inv_registered [OF unencodable.prems unencodable.hyps(3)]) simp_all
next
  case (written i S n a t action timeout bufs conn)
  show ?case
  proof (cases "length (owners S) < 2 ^ 32")
    case True
    from known_nth [OF written.prems(2) True written.hyps(1)] written.hyps(2) written.prems(2)
    show ?thesis by (intro wait_inv_set_caller) simp_all
  qed (simp add: wait_inv_def)
next
  case (write_fails i S n a t action timeout bufs conn)
  then show ?case by (intro wait_inv_set_caller) simp_all
next
  case (received i S n a t action timeout v)
  then show ?case by (intro wait_inv_set_caller) simp_all
next
  case (timed_out i S n a t action timeout)
  then show ?case by (intro wait_inv_set_caller) simp_all
next
  case (cleaned i S n err)
  then show ?case by (intro wait_inv_cleaned)
next
  case (resolve S r f r' c)
  have "wait_inv (S\<lparr>cl := c\<rparr>)"
    using resolve.prems resolve.hyps(3)
    by (intro wait_inv_cl) (auto intro: known_resolve simp: cl_inv_def owners_ok_def)
  then show ?case by (simp add: wait_inv_def)
next
  case (fail S c)
  have "wait_inv (S\<lparr>cl := c\<rparr>)"
    using fail.prems fail.hyps(2) by (intro wait_inv_cl) (auto intro: known_fail simp: cl_inv_def owners_ok_def)
  then show ?case by (simp add: wait_inv_def)
next
  case (loop_close S)
  then show ?case using wait_inv_cl [of S "Client_Close (cl S)"] by (simp add: known_closed wait_inv_def)
next
  case (close S)
  then show ?case by (intro wait_inv_cl) (simp_all add: known_closed)
next
  case (refused S)
  then show ?case by (intro wait_inv_append) simp_all
next
  case (enter S t action data timeout)
  then show ?case by (intro wait_inv_append) simp_all
qed simp_all

lemma wait_inv_reachable: "cl_step\<^sup>*\<^sup>* cl_start S \<Longrightarrow> wait_inv S"
proof (induction rule: rtranclp_induct)
  case base
  show ?case by (simp add: wait_inv_def ids_ok_def cl_start_def)
next
  case (step S T)
  then show ?case by (blast intro: wait_inv_step cl_inv_reachable)
qed

section \<open>A call that comes too late\<close>

definition orphan :: "cl_sys \<Rightarrow> bool" where
  "orphan S \<longleftrightarrow> loop S = LoopEnded \<and> 0 < length (callers S) \<and> callers S ! 0 = CWaiting 1 0 REQUEST ''a'' 0 \<and>
     0 < length (chans (cl S)) \<and> chans (cl S) ! 0 = make_chan"

lemma orphan_step: "cl_step S S' \<Longrightarrow> orphan S \<Longrightarrow> orphan S'"
proof (induction rule: cl_step.induct)
  case (registered i S t action data timeout c n a bufs)
  then show ?case using register_eq [OF registered.hyps(3)] by (cases i) (auto simp: orphan_def nth_append)
next
  case (unencodable i S t action data timeout c n a err)
  then show ?case using register_eq [OF unencodable.hyps(3)] by (cases i) (auto simp: orphan_def nth_append)
next
  case (written i S n a t action timeout bufs conn)
  then show ?case by (cases i) (auto simp: orphan_def)
next
  case (write_fails i S n a t action timeout bufs conn)
  then show ?case by (cases i) (auto simp: orphan_def)
next
  case (received i S n a t action timeout v)
  then show ?case by (cases i) (auto simp: orphan_def chan_recv_def make_chan_def)
next
  case (timed_out i S n a t action timeout)
  then show ?case by (cases i) (auto simp: orphan_def)
next
  case (cleaned i S n err)
  then show ?case by (cases i) (auto simp: orphan_def removePending_def)
qed (auto simp: orphan_def Client_Close_def nth_append)

lemma orphan_stays: "cl_step\<^sup>*\<^sup>* S S' \<Longrightarrow> orphan S \<Longrightarrow> orphan S'"
  by (induction rule: rtranclp_induct) (auto intro: orphan_step)

lemma EncodeJSON_nil: "EncodeJSON t n a AnyNil = Some (newFrame t n (bytes_of (env_text a [])))"
  by (simp add: EncodeJSON_eq data_text_def)

lemma env_text_nonempty [simp]: "env_text a raw \<noteq> []" "0 < length (env_text a raw)"
  by (simp_all add: env_text_def)

lemma orphan_reachable: "\<exists>S. cl_step\<^sup>*\<^sup>* cl_start S \<and> orphan S"
proof -
  let ?r = "\<lparr>rd_data = [], rd_end = EOF\<rparr>"
  have p: "0 < length (bytes_of (env_text ''a'' []))" by simp
  obtain bufs where bufs: "encodeMessage REQUEST 1 (bytes_of (env_text ''a'' [])) defaultStreamThreshold = Inr bufs"
    by (rule encodeMessage_Inr [OF p])
  define c where "c = NewClient\<lparr>nextID := 1, chans := [make_chan], pending := [(1, 0)]\<rparr>"
  have reg: "register REQUEST ''a'' AnyNil NewClient = (c, 1, 0, Inr bufs)"
    using bufs by (simp add: register_def EncodeJSON_nil newFrame_def NewClient_def c_def Let_def)
  define S1 where "S1 = cl_start\<lparr>callers := [CEntered REQUEST ''a'' AnyNil 0]\<rparr>"
  define S3 where "S3 = S1\<lparr>loop := FailedPending\<rparr>"
  define S4 where "S4 = S3\<lparr>cl := c, callers := [CWriting 1 0 REQUEST ''a'' 0 bufs], owners := [1]\<rparr>"
  define S5 where "S5 = S4\<lparr>callers := [CWaiting 1 0 REQUEST ''a'' 0]\<rparr>"
  define S6 where "S6 = S5\<lparr>cl := Client_Close c, loop := LoopEnded\<rparr>"
  note defs = S1_def S3_def S4_def S5_def S6_def cl_start_def c_def NewClient_def
  have 1: "cl_step cl_start S1" using cl_step.enter [of cl_start REQUEST "''a''" AnyNil 0] by (simp add: defs)
  have "readLoop_iter ?r = (ReadFailed (IOErr EOF), ?r)"
    by (simp add: readLoop_iter_def DecodeStreamed_def decodeStreamed_def decodeFrame_def ReadFull_def HeaderSize_def)
  then have 2: "cl_step S1 (S1\<lparr>loop := ReadError\<rparr>)" by (intro cl_step.read_error) (simp add: defs)
  have "failPending (cl S1) = Some (cl S1)" by (simp add: failPending_def defs)
  then have 3: "cl_step (S1\<lparr>loop := ReadError\<rparr>) S3"
    using cl_step.fail [of "S1\<lparr>loop := ReadError\<rparr>" "cl S1"] by (simp add: S3_def)
  have 4: "cl_step S3 S4"
    using cl_step.registered [of 0 S3 REQUEST "''a''" AnyNil 0 c 1 0 bufs] reg by (simp add: defs)
  have "snd (writeAll (\<lambda>_. (0, True)) k bs)" for k bs
    by (induction bs arbitrary: k) (simp_all add: split_beta)
  then have 5: "cl_step S4 S5"
    using cl_step.written [of 0 S4 1 0 REQUEST "''a''" 0 bufs "\<lambda>_. (0, True)"] by (simp add: S4_def S5_def)
  have 6: "cl_step S5 S6" using cl_step.loop_close [of S5] by (simp add: S3_def S4_def S5_def S6_def)
  have "cl_step\<^sup>*\<^sup>* cl_start S6" using 1 2 3 4 5 6 by (meson converse_rtranclp_into_rtranclp rtranclp.rtrancl_refl)
  moreover have "orphan S6" by (simp add: orphan_def defs Client_Close_def)
  ultimately show ?thesis by blast
qed

text \<open>A call that is answered, for the concrete instances.\<close>

definition sample_waiting :: cl_sys where
  "sample_waiting = \<lparr>cl = NewClient\<lparr>nextID := 1, chans := [make_chan], pending := [(1, 0)]\<rparr>,
     callers = [CWaiting 1 0 REQUEST ''a'' 0], loop = Reading, owners = [1], resolved = []\<rparr>"

lemma sample_waiting_reachable: "cl_step\<^sup>*\<^sup>* cl_start sample_waiting"
proof -
  have p: "0 < length (bytes_of (env_text ''a'' []))" by simp
  obtain bufs where bufs: "encodeMessage REQUEST 1 (bytes_of (env_text ''a'' [])) defaultStreamThreshold = Inr bufs"
    by (rule encodeMessage_Inr [OF p])
  define c where "c = NewClient\<lparr>nextID := 1, chans := [make_chan], pending := [(1, 0)]\<rparr>"
  have reg: "register REQUEST ''a'' AnyNil NewClient = (c, 1, 0, Inr bufs)"
    using bufs by (simp add: register_def EncodeJSON_nil newFrame_def NewClient_def c_def Let_def)
  define S1 where "S1 = cl_start\<lparr>callers := [CEntered REQUEST ''a'' AnyNil 0]\<rparr>"
  define S2 where "S2 = S1\<lparr>cl := c, callers := [CWriting 1 0 REQUEST ''a'' 0 bufs], owners := [1]\<rparr>"
  have 1: "cl_step cl_start S1"
    using cl_step.enter [of cl_start REQUEST "''a''" AnyNil 0] by (simp add: S1_def cl_start_def NewClient_def)
  have 2: "cl_step S1 S2"
    using cl_step.registered [of 0 S1 REQUEST "''a''" AnyNil 0 c 1 0 bufs] reg by (simp add: S1_def S2_def cl_start_def)
  have "snd (writeAll (\<lambda>_. (0, True)) k bs)" for k bs
    by (induction bs arbitrary: k) (simp_all add: split_beta)
  then have 3: "cl_step S2 sample_waiting"
    using cl_step.written [of 0 S2 1 0 REQUEST "''a''" 0 bufs "\<lambda>_. (0, True)"]
    by (simp add: S1_def S2_def sample_waiting_def cl_start_def c_def)
  show ?thesis using 1 2 3 by (meson converse_rtranclp_into_rtranclp rtranclp.rtrancl_refl)
qed

lemma sample_answered_reachable:
  "\<exists>S r. cl_step\<^sup>*\<^sup>* cl_start S \<and> CReturned (Some 1) (Inr r) \<in> set (callers S)"
proof -
  let ?f = "newFrame RESPONSE 1 (bytes_of (env_text ''a'' []))"
  let ?r = "\<lparr>rd_data = [], rd_end = EOF\<rparr>"
  let ?c = "cl sample_waiting"
  let ?d = "?c\<lparr>pending := [], chans := [\<lparr>ch_buf = Some (response_of ?f), ch_closed = False\<rparr>]\<rparr>"
  have p: "0 < length (bytes_of (env_text ''a'' []))" by simp
  obtain bufs where bufs: "encodeMessage RESPONSE 1 (bytes_of (env_text ''a'' [])) defaultStreamThreshold = Inr bufs"
    by (rule encodeMessage_Inr [OF p])
  have len: "length (bytes_of (env_text ''a'' [])) \<le> MaxStreamSize"
  proof -
    have "length (env_text ''a'' []) = 14" by code_simp
    then show ?thesis by (simp add: MaxStreamSize_def)
  qed
  have "DecodeStreamed (?r\<lparr>rd_data := concat bufs @ []\<rparr>) = (Inr ?f, ?r\<lparr>rd_data := []\<rparr>)"
    using encodeMessage_decode [OF p bufs, where r = ?r and rest = "[]"] len by (simp add: prod_eq_iff)
  then have it: "readLoop_iter (?r\<lparr>rd_data := concat bufs @ []\<rparr>) = (ReadResolve ?f, ?r\<lparr>rd_data := []\<rparr>)"
    by (simp add: readLoop_iter_def newFrame_def)
  have res: "resolvePending ?f ?c = Some ?d"
    by (simp add: resolvePending_def sample_waiting_def chan_send_def make_chan_def newFrame_def)
  define S1 where "S1 = sample_waiting\<lparr>cl := ?d, resolved := [?f]\<rparr>"
  have 1: "cl_step sample_waiting S1"
    using cl_step.resolve [OF _ it res] by (simp add: S1_def sample_waiting_def)
  have 2: "cl_step S1 (S1\<lparr>callers := [CReturned (Some 1) (Inr (response_of ?f))]\<rparr>)"
    using cl_step.received [of 0 S1 1 0 REQUEST "''a''" 0 "Some (response_of ?f)"]
    by (simp add: S1_def sample_waiting_def chan_recv_def call_result_def)
  have "cl_step\<^sup>*\<^sup>* cl_start (S1\<lparr>callers := [CReturned (Some 1) (Inr (response_of ?f))]\<rparr>)"
    using sample_waiting_reachable 1 2 by (meson rtranclp.rtrancl_into_rtrancl)
  then show ?thesis by fastforce
qed

section \<open>Properties of the client\<close>

text \<open>
  C20. Under every interleaving of callers, timeouts, the read loop and \<open>Close\<close>, the read loop never
  blocks on a full response channel, never sends on or closes a closed one, and every response a call
  returns was decoded from a RESPONSE or PONG frame that carries the stream id of that call.
\<close>

theorem client_responses_matched:
  assumes "cl_step\<^sup>*\<^sup>* cl_start S"
  shows "loop S \<noteq> Crashed \<and>
    (\<forall>n r. CReturned (Some n) (Inr r) \<in> set (callers S) \<longrightarrow>
      (\<exists>f \<in> set (resolved S). StreamId (Header f) = n \<and> FrameHeader.FrameType (Header f) \<in> {RESPONSE, PONG} \<and>
        r = response_of f))"
proof -
  have i: "cl_inv S" by (rule cl_inv_reachable [OF assms])
  have "\<exists>f \<in> set (resolved S). StreamId (Header f) = n \<and> FrameHeader.FrameType (Header f) \<in> {RESPONSE, PONG} \<and>
        r = response_of f" if "CReturned (Some n) (Inr r) \<in> set (callers S)" for n r
  proof -
    have "caller_ok (owners S) (resolved S) (CReturned (Some n) (Inr r))" using i that unfolding cl_inv_def by blast
    then show ?thesis by (simp add: answers_def)
  qed
  with i show ?thesis unfolding cl_inv_def by blast
qed

theorem client_responses_matched_witness:
  "\<exists>(S :: cl_sys) r. CReturned (Some 1) (Inr r) \<in> set (callers S) \<and> loop S \<noteq> Crashed \<and>
    (\<exists>f \<in> set (resolved S). StreamId (Header f) = 1 \<and> r = response_of f)"
proof -
  obtain S r where S: "cl_step\<^sup>*\<^sup>* cl_start S" "CReturned (Some 1) (Inr r) \<in> set (callers S)"
    using sample_answered_reachable by blast
  from client_responses_matched [OF S(1)] S(2) show ?thesis by blast
qed

text \<open>
  C21. When the connection is lost, \<open>failPending\<close> succeeds and wakes every call that is waiting at
  that moment: each of them can receive a response or \<open>ErrPendingClosed\<close>, as long as fewer than
  \<open>2\<^sup>3\<^sup>2\<close> calls were made on the client.
\<close>

theorem failPending_wakes_waiters:
  assumes "cl_step\<^sup>*\<^sup>* cl_start S" and "length (owners S) < 2 ^ 32"
  shows "\<exists>c. failPending (cl S) = Some c \<and> pending c = [] \<and>
    (\<forall>n a t action timeout. CWaiting n a t action timeout \<in> set (callers S) \<longrightarrow> chan_recv (chans c ! a) \<noteq> None)"
proof -
  have i: "cl_inv S" and w: "wait_inv S" using cl_inv_reachable [OF assms(1)] wait_inv_reachable [OF assms(1)] .
  have p: "pend_ok S" "length (owners S) = length (chans (cl S))" using i by (simp_all add: cl_inv_def owners_ok_def)
  obtain cs where c: "failPending (cl S) = Some ((cl S)\<lparr>chans := cs, pending := []\<rparr>)" by (rule failPending_spec [OF p(1)])
  have "chan_recv (chans ((cl S)\<lparr>chans := cs, pending := []\<rparr>) ! a) \<noteq> None"
    if u: "CWaiting n a t action timeout \<in> set (callers S)" for n a t action timeout
  proof (rule known_fail(2) [OF p(1) c _ _ p(2) refl])
    show "known (cl S) (CWaiting n a t action timeout)" using w assms(2) u unfolding wait_inv_def by blast
    show "caller_ok (owners S) (resolved S) (CWaiting n a t action timeout)" using i u unfolding cl_inv_def by blast
  qed
  then show ?thesis using c by auto
qed

theorem failPending_wakes_waiters_witness:
  "\<exists>c. failPending (cl sample_waiting) = Some c \<and> chan_recv (chans c ! 0) \<noteq> None"
proof -
  have "length (owners sample_waiting) < 2 ^ 32" "CWaiting 1 0 REQUEST ''a'' 0 \<in> set (callers sample_waiting)"
    by (simp_all add: sample_waiting_def)
  with failPending_wakes_waiters [OF sample_waiting_reachable] show ?thesis by blast
qed

text \<open>
  C22. The window between \<open>failPending\<close> and \<open>Close\<close>: a call without a timeout that passed the check for
  a closed client and registers after the read loop failed the pending calls waits forever. There
  is a reachable state, with the read loop ended, from which that call never returns whatever happens.
\<close>

theorem late_call_waits_forever:
  "\<exists>S. cl_step\<^sup>*\<^sup>* cl_start S \<and> loop S = LoopEnded \<and>
    (\<forall>S'. cl_step\<^sup>*\<^sup>* S S' \<longrightarrow> callers S' ! 0 = CWaiting 1 0 REQUEST ''a'' 0 \<and> chan_recv (chans (cl S') ! 0) = None)"
proof -
  obtain S where "cl_step\<^sup>*\<^sup>* cl_start S" and o: "orphan S" using orphan_reachable by blast
  moreover have "callers S' ! 0 = CWaiting 1 0 REQUEST ''a'' 0 \<and> chan_recv (chans (cl S') ! 0) = None"
    if "cl_step\<^sup>*\<^sup>* S S'" for S'
    using orphan_stays [OF that o] by (simp add: orphan_def chan_recv_def make_chan_def)
  moreover have "loop S = LoopEnded" using o by (simp add: orphan_def)
  ultimately show ?thesis by blast
qed

theorem late_call_waits_forever_witness:
  "\<exists>S. cl_step\<^sup>*\<^sup>* cl_start S \<and> callers S ! 0 = CWaiting 1 0 REQUEST ''a'' 0 \<and> chan_recv (chans (cl S) ! 0) = None"
  using late_call_waits_forever by blast

end
