(* ===== verification/Rpc_Roundtrip.thy ===== *)
theory Rpc_Roundtrip
  imports Rpc_Safety
begin

text \<open>
  A call from the client through the server and back: the request as it is encoded by \<open>roundTrip\<close>, read
  by the server's codec, dispatched, answered by the application, written by the codec, read by
  the client's loop and handed to the waiting call.
\<close>

section \<open>What the server's replies decode to\<close>

lemma keys_plain_error [simp]: "jsonPlainASCII ''error''" by code_simp

lemma parse_error_members:
  "parse_members (Suc (Suc f)) d (json_key ''error'' @ marshal_string err @ ''}'') =
     Some ([(''error'', marshal_string err, JString (to_valid err))], [])"
  by (simp only: parse_member [OF parse_marshal_string not_space(3) plain_chars [OF keys_plain_error]]
      unquote_plain [OF keys_plain_error] if_True refl simp_thms)

lemma json_text_object:
  assumes "parse_members f 2 (quote # s) = Some (ms, [])"
  shows "json_text (CHR ''{'' # quote # s)"
proof -
  have "parse_members (2 * length (CHR ''{'' # quote # s)) 2 (quote # s) = Some (ms, [])"
    by (rule parse_enough(2) [OF _ assms]) simp
  then show ?thesis by (simp add: json_text_def maxNestingDepth_def numeral_2_eq_2 del: parse_members.simps)
qed

lemma marshal_ErrorMessage_text: "json_text (marshal_ErrorMessage err)"
  using json_text_object [OF parse_error_members [of 0 2 err, simplified append.simps append_assoc]]
  by (simp add: marshal_ErrorMessage_def)

lemma unmarshal_ErrorMessage: "unmarshal decode_ErrorMessage (marshal_ErrorMessage err) = Inr (to_valid err)"
proof -
  have "parse_json (marshal_ErrorMessage err) = Some (JObject [(''error'', marshal_string err, JString (to_valid err))])"
    using parse_json_object [OF parse_error_members [of 0 1 err, simplified append.simps append_assoc]]
    by (simp add: marshal_ErrorMessage_def)
  then show ?thesis by (simp add: unmarshal_def decode_ErrorMessage_def error_step_def match_field_def)
qed

lemma mustJSON_eq: "mustJSON action body = bytes_of (env_text action body)"
  by (simp add: mustJSON_def envelope_bytes_eq)

lemma response_of_mustJSON:
  assumes "json_text body" "body \<noteq> []" "valid_utf8 action"
  shows "response_of (newFrame t n (mustJSON action body)) =
    (case unmarshal decode_ErrorMessage body of
       Inr e \<Rightarrow> if e \<noteq> [] then \<lparr>r_Action = action, r_Data = [], r_Err = Some (ServerError e)\<rparr>
              else \<lparr>r_Action = action, r_Data = body, r_Err = None\<rparr>
     | Inl _ \<Rightarrow> \<lparr>r_Action = action, r_Data = body, r_Err = None\<rparr>)"
proof -
  have "DecodeJSONMessage (Some (newFrame t n (mustJSON action body))) = Inr \<lparr>Action = action, Data = body\<rparr>"
    using decode_env_text [of body t n action] assms by (simp add: mustJSON_eq)
  with assms(2) show ?thesis by (simp add: response_of_def split: sum.split)
qed

section \<open>The legs of a call\<close>

lemma codec_read:
  assumes "0 < length p" "length p \<le> MaxStreamSize" "encodeMessage t n p th = Inr bufs"
  shows "DecodeStreamed \<lparr>rd_data = concat bufs, rd_end = e\<rparr> = (Inr (newFrame t n p), \<lparr>rd_data = [], rd_end = e\<rparr>)"
    and "FrameCodec_HandleRead conn \<lparr>rd_data = concat bufs, rd_end = e\<rparr> = (\<lparr>rd_data = [], rd_end = e\<rparr>, [CtxRead (newFrame t n p)])"
proof -
  show "DecodeStreamed \<lparr>rd_data = concat bufs, rd_end = e\<rparr> = (Inr (newFrame t n p), \<lparr>rd_data = [], rd_end = e\<rparr>)"
    using encodeMessage_decode [OF assms(1,3), where r = "\<lparr>rd_data = [], rd_end = e\<rparr>" and rest = "[]"] assms(2)
    by (simp add: prod_eq_iff)
  then show "FrameCodec_HandleRead conn \<lparr>rd_data = concat bufs, rd_end = e\<rparr> = (\<lparr>rd_data = [], rd_end = e\<rparr>, [CtxRead (newFrame t n p)])"
    by (simp add: FrameCodec_HandleRead_def DecodeStreamed_def)
qed

lemma codec_write:
  assumes "0 < length p"
  obtains bufs where "encodeMessage t n p th = Inr bufs"
    "FrameCodec_HandleWrite th (newFrame t n p) = [CtxWriteBytes (concat bufs)]"
proof -
  obtain bufs where b: "encodeMessage t n p th = Inr bufs" by (rule encodeMessage_Inr [OF assms])
  show thesis by (rule that [OF b]) (use b in \<open>simp add: FrameCodec_HandleWrite_def newFrame_def\<close>)
qed

lemma register_payload:
  assumes "register t action data c = (c', n, a, Inr bufs)" "data_text data = Some raw"
  shows "encodeMessage t n (bytes_of (env_text action raw)) (streamThreshold c) = Inr bufs"
  using assms by (auto simp: register_def EncodeJSON_eq newFrame_def Let_def split: sum.splits)

lemma resolve_registered:
  assumes "register t action data c = (c', n, a, res)" "StreamId (Header f) = n"
  shows "\<exists>d. resolvePending f c' = Some d \<and> chan_recv (chans d ! a) = Some (Some (response_of f))"
  using register_eq [OF assms(1)] assms(2)
  by (simp add: resolvePending_def chan_send_def make_chan_def chan_recv_def nth_append Let_def)

lemma HandleRead_request:
  assumes "\<not> requireHello p \<or> map_of (connTokens p) conn \<noteq> None"
    and "DecodeJSONMessage (Some (newFrame REQUEST n pl)) = Inr \<lparr>Action = action, Data = raw\<rparr>"
  shows "snd (HandleRead h e conn (MsgFrame (newFrame REQUEST n pl)) p) =
    (case h action raw of
       Inl err \<Rightarrow> [CtxWrite (Some (newFrame RESPONSE n (mustJSON action (marshal_ErrorMessage err))))]
     | Inr resp \<Rightarrow>
         (case json_Marshal resp of
            None \<Rightarrow> [CtxClose MarshalResponse]
          | Some body \<Rightarrow> [CtxWrite (Some (newFrame RESPONSE n (mustJSON action body)))]))"
proof -
  have t: "FrameHeader.FrameType (Header (newFrame REQUEST n pl)) = REQUEST" "StreamId (Header (newFrame REQUEST n pl)) = n"
    by (simp_all add: newFrame_def)
  have f: "requireHello (touchSession now conn p) = requireHello p" "connTokens (touchSession now conn p) = connTokens p" for now
    by (simp_all add: touchSession_def split: option.split)
  have d: "REQUEST \<noteq> HELLO" by (simp add: wire_defs)
  show ?thesis
    using assms by (auto simp: HandleRead_def Let_def dispatch_def t f d handleRequestFrame_def split: sum.split option.split)
qed

section \<open>The whole call\<close>

text \<open>What the caller gets for what the application answered.\<close>

definition expected :: "string \<Rightarrow> string + go_any \<Rightarrow> Response" where
  "expected action answer =
     (case answer of
        Inl err \<Rightarrow> \<lparr>r_Action = action, r_Data = [], r_Err = Some (ServerError (to_valid err))\<rparr>
      | Inr resp \<Rightarrow> \<lparr>r_Action = action, r_Data = the (json_Marshal resp), r_Err = None\<rparr>)"

definition reply_body :: "string + go_any \<Rightarrow> string" where
  "reply_body answer = (case answer of Inl err \<Rightarrow> marshal_ErrorMessage err | Inr resp \<Rightarrow> the (json_Marshal resp))"

text \<open>
  C16. A call end to end, fragmentation included: the bytes \<open>roundTrip\<close> registered and wrote are read by
  the server's codec as one request, which the handler answers with one frame; the bytes the codec
  writes for it are read by the client's loop as a response for the registered id; and what the call
  then receives is the action with exactly the data the application returned, or its error message.
  The data has to be one JSON value, both messages within \<open>MaxStreamSize\<close>, an error message
  not empty, and a successful body not an object with a non-empty \<open>error\<close>.
\<close>

theorem call_end_to_end:
  assumes "register REQUEST action data c = (c', n, a, Inr bufs)"
    and "data_text data = Some raw" "raw = [] \<or> json_text raw" "valid_utf8 action"
    and "length (env_text action raw) \<le> MaxStreamSize"
    and "\<not> requireHello p \<or> map_of (connTokens p) conn \<noteq> None"
    and "case h action raw of Inl err \<Rightarrow> to_valid err \<noteq> []
      | Inr resp \<Rightarrow> \<exists>body. json_Marshal resp = Some body \<and> body \<noteq> [] \<and> json_text body \<and>
          (\<forall>e. unmarshal decode_ErrorMessage body = Inr e \<longrightarrow> e = [])"
    and "length (env_text action (reply_body (h action raw))) \<le> MaxStreamSize"
  shows "\<exists>request response out d.
    FrameCodec_HandleRead conn \<lparr>rd_data = concat bufs, rd_end = end1\<rparr> = (\<lparr>rd_data = [], rd_end = end1\<rparr>, [CtxRead request]) \<and>
    snd (HandleRead h e conn (MsgFrame request) p) = [CtxWrite (Some response)] \<and>
    FrameCodec_HandleWrite th response = [CtxWriteBytes out] \<and>
    readLoop_iter \<lparr>rd_data = out, rd_end = end2\<rparr> = (ReadResolve response, \<lparr>rd_data = [], rd_end = end2\<rparr>) \<and>
    resolvePending response c' = Some d \<and>
    chan_recv (chans d ! a) = Some (Some (expected action (h action raw)))"
proof -
  let ?p = "bytes_of (env_text action raw)" and ?b = "reply_body (h action raw)"
  let ?q = "newFrame REQUEST n ?p" and ?r = "newFrame RESPONSE n (mustJSON action ?b)"
  have b: "json_text ?b" "?b \<noteq> []"
    using assms(7) by (auto simp: reply_body_def marshal_ErrorMessage_text split: sum.splits) (simp add: marshal_ErrorMessage_def)
  have 1: "FrameCodec_HandleRead conn \<lparr>rd_data = concat bufs, rd_end = end1\<rparr> = (\<lparr>rd_data = [], rd_end = end1\<rparr>, [CtxRead ?q])"
    using assms(5) by (intro codec_read(2) [OF _ _ register_payload [OF assms(1,2)]]) simp_all
  have "DecodeJSONMessage (Some ?q) = Inr \<lparr>Action = action, Data = raw\<rparr>"
    using decode_env_text [OF assms(3), of REQUEST n action] assms(4) by simp
  from HandleRead_request [OF assms(6) this, of h e] assms(7)
  have 2: "snd (HandleRead h e conn (MsgFrame ?q) p) = [CtxWrite (Some ?r)]"
    by (auto simp: reply_body_def split: sum.splits)
  have pos: "0 < length (mustJSON action ?b)" "length (mustJSON action ?b) \<le> MaxStreamSize"
    using assms(8) by (simp_all add: mustJSON_eq)
  obtain out where out: "encodeMessage RESPONSE n (mustJSON action ?b) th = Inr out"
    "FrameCodec_HandleWrite th ?r = [CtxWriteBytes (concat out)]" by (rule codec_write [OF pos(1)])
  have 3: "readLoop_iter \<lparr>rd_data = concat out, rd_end = end2\<rparr> = (ReadResolve ?r, \<lparr>rd_data = [], rd_end = end2\<rparr>)"
    using codec_read(1) [OF pos out(1), of end2] by (simp add: readLoop_iter_def newFrame_def)
  obtain d where d: "resolvePending ?r c' = Some d" "chan_recv (chans d ! a) = Some (Some (response_of ?r))"
    using resolve_registered [OF assms(1), of ?r] by (auto simp: newFrame_def)
  have "response_of ?r = expected action (h action raw)"
    unfolding response_of_mustJSON [OF b assms(4)]
    using assms(7) by (auto simp: unmarshal_ErrorMessage expected_def reply_body_def split: sum.splits)
  with 1 2 3 out(2) d show ?thesis by metis
qed

definition sample_clock :: env where
  "sample_clock = \<lparr>env_now = 0, env_rnd = None, env_topics = (\<lambda>ks. ks), env_conns = (\<lambda>ks. ks), env_write_ok = (\<lambda>_ _. True)\<rparr>"

theorem call_end_to_end_witness:
  "\<exists>c' a bufs request response out d. register REQUEST ''add'' (AnyRaw ''[1,2]'') NewClient = (c', 1, a, Inr bufs) \<and>
    FrameCodec_HandleRead 0 \<lparr>rd_data = concat bufs, rd_end = EOF\<rparr> = (\<lparr>rd_data = [], rd_end = EOF\<rparr>, [CtxRead request]) \<and>
    snd (HandleRead (\<lambda>_ _. Inr (AnyOther (Some ''3''))) sample_clock 0 (MsgFrame request) NewProtocolHandler) = [CtxWrite (Some response)] \<and>
    FrameCodec_HandleWrite defaultStreamThreshold response = [CtxWriteBytes out] \<and>
    resolvePending response c' = Some d \<and>
    chan_recv (chans d ! a) = Some (Some \<lparr>r_Action = ''add'', r_Data = ''3'', r_Err = None\<rparr>)"
proof -
  let ?h = "\<lambda>_ _. Inr (AnyOther (Some ''3'')) :: string + go_any"
  obtain bufs where bufs: "encodeMessage REQUEST 1 (bytes_of (env_text ''add'' ''[1,2]'')) defaultStreamThreshold = Inr bufs"
    by (rule encodeMessage_Inr [of "bytes_of (env_text ''add'' ''[1,2]'')"]) simp
  obtain c' where reg: "register REQUEST ''add'' (AnyRaw ''[1,2]'') NewClient = (c', 1, 0, Inr bufs)"
    using bufs by (simp add: register_def EncodeJSON_eq data_text_def newFrame_def NewClient_def Let_def)
  have d: "data_text (AnyRaw ''[1,2]'') = Some ''[1,2]''" by (simp add: data_text_def)
  have e: "unmarshal decode_ErrorMessage ''3'' = Inl UnmarshalTypeError" by code_simp
  have j: "''[1,2]'' = [] \<or> json_text ''[1,2]''" "valid_utf8 ''add''" "json_text ''3''"
    "\<forall>e. unmarshal decode_ErrorMessage ''3'' = Inr e \<longrightarrow> e = []"
    by (code_simp, code_simp, code_simp) (simp add: e)
  have "length (env_text ''add'' ''[1,2]'') = 29" "length (env_text ''add'' ''3'') = 25" by code_simp+
  then have l: "length (env_text ''add'' ''[1,2]'') \<le> MaxStreamSize" "length (env_text ''add'' (reply_body (?h ''add'' ''[1,2]''))) \<le> MaxStreamSize"
    by (simp_all add: MaxStreamSize_def reply_body_def json_Marshal_def)
  have s: "\<not> requireHello NewProtocolHandler \<or> map_of (connTokens NewProtocolHandler) 0 \<noteq> None" by (simp add: NewProtocolHandler_def)
  have b: "case ?h ''add'' ''[1,2]'' of Inl err \<Rightarrow> to_valid err \<noteq> []
      | Inr resp \<Rightarrow> \<exists>body. json_Marshal resp = Some body \<and> body \<noteq> [] \<and> json_text body \<and>
          (\<forall>e. unmarshal decode_ErrorMessage body = Inr e \<longrightarrow> e = [])"
    using j(3,4) by (simp add: json_Marshal_def)
  from call_end_to_end [OF reg d j(1,2) l(1) s b l(2), of EOF sample_clock defaultStreamThreshold EOF] reg show ?thesis
    by (auto simp: expected_def json_Marshal_def)
qed

end
