(* ===== verification/Resilient_Client.thy ===== *)
theory Resilient_Client
  imports Rpc_Client
begin

text \<open>
  The reconnecting client of \<open>pkg/proto/resilient.go\<close>: its options and backoff, the replay cursors
  with the set of publishes accepted beyond them, the reconciliation with the sequence a subscribe
  reports, and the life of the connections it dials. What the inner client and the network answer
  is an input of the definitions.
\<close>

section \<open>Options and backoff\<close>

text \<open>Durations are signed 64-bit nanoseconds.\<close>

type_synonym Duration = int64

record ResilientOptions =
  BackoffStart :: Duration
  BackoffMax :: Duration
  HandshakeTimeout :: Duration

definition backoffStart :: "ResilientOptions \<Rightarrow> Duration" where
  "backoffStart opts = (if sint (BackoffStart opts) > 0 then BackoffStart opts else 100 * 1000000)"

definition backoffMax :: "ResilientOptions \<Rightarrow> Duration" where
  "backoffMax opts = (if sint (BackoffMax opts) > 0 then BackoffMax opts else 5 * 1000000000)"

definition handshakeTimeout :: "ResilientOptions \<Rightarrow> Duration" where
  "handshakeTimeout opts = (if sint (HandshakeTimeout opts) > 0 then HandshakeTimeout opts else 5 * 1000000000)"

text \<open>The wait before the next attempt, as \<open>reconnectLoop\<close> updates it.\<close>

definition next_backoff :: "Duration \<Rightarrow> Duration \<Rightarrow> Duration" where
  "next_backoff limit backoff = (let b = backoff * 2 in if sint b > sint limit then limit else b)"

section \<open>State\<close>

text \<open>A nil map reads like an empty one, so the lazy initialisations leave no trace.\<close>

record resilient =
  rc_opts :: ResilientOptions
  rc_client :: "nat option"
  rc_token :: string
  subscribed :: "string list"
  cursors :: "(string, uint64) gomap"
  acceptedPublishes :: "(string, uint64 list) gomap"
  rc_closed :: bool

definition newResilientClient :: "ResilientOptions option \<Rightarrow> resilient" where
  "newResilientClient opts =
     \<lparr>rc_opts = (case opts of None \<Rightarrow> \<lparr>BackoffStart = 0, BackoffMax = 0, HandshakeTimeout = 0\<rparr> | Some o' \<Rightarrow> o'),
      rc_client = None, rc_token = [], subscribed = [], cursors = [], acceptedPublishes = [], rc_closed = False\<rparr>"

definition cursor_of :: "string \<Rightarrow> resilient \<Rightarrow> uint64" where
  "cursor_of topic rc = (case map_of (cursors rc) topic of None \<Rightarrow> 0 | Some s \<Rightarrow> s)"

definition accepted_of :: "string \<Rightarrow> resilient \<Rightarrow> uint64 list" where
  "accepted_of topic rc = (case map_of (acceptedPublishes rc) topic of None \<Rightarrow> [] | Some a \<Rightarrow> a)"

section \<open>Cursors\<close>

definition setPublishCursor :: "string \<Rightarrow> uint64 \<Rightarrow> resilient \<Rightarrow> resilient" where
  "setPublishCursor topic seq rc =
     (if seq > cursor_of topic rc then rc\<lparr>cursors := gput topic seq (cursors rc)\<rparr> else rc)"

definition shouldDeliverPublish :: "string \<Rightarrow> uint64 \<Rightarrow> resilient \<Rightarrow> bool" where
  "shouldDeliverPublish topic seq rc =
     (if seq \<le> cursor_of topic rc then False
      else if seq \<in> set (accepted_of topic rc) then False
      else True)"

text \<open>The loop that drains the accepted set into the contiguous prefix.\<close>

function drain :: "uint64 \<Rightarrow> uint64 list \<Rightarrow> uint64 \<times> uint64 list" where
  "drain cursor accepted =
     (if length accepted > 0 \<and> cursor + 1 \<in> set accepted
      then drain (cursor + 1) (removeAll (cursor + 1) accepted) else (cursor, accepted))"
  by pat_completeness auto
termination
  by (relation "measure (\<lambda>(_, accepted). length accepted)") (auto intro: length_removeAll_less)

declare drain.simps [simp del]

definition acknowledgePublish :: "string \<Rightarrow> uint64 \<Rightarrow> resilient \<Rightarrow> resilient" where
  "acknowledgePublish topic seq rc =
     (if seq \<le> cursor_of topic rc then rc
      else if seq \<noteq> cursor_of topic rc + 1
      then rc\<lparr>acceptedPublishes := gput topic (set_add seq (accepted_of topic rc)) (acceptedPublishes rc)\<rparr>
      else (let (cursor, accepted) = drain seq (accepted_of topic rc)
            in rc\<lparr>cursors := gput topic cursor (cursors rc),
                  acceptedPublishes := (if length accepted = 0 then gdel topic (acceptedPublishes rc)
                    else gput topic accepted (acceptedPublishes rc))\<rparr>))"

definition snapshotCursors :: "resilient \<Rightarrow> (string, uint64) gomap" where
  "snapshotCursors rc = cursors rc"

definition decodePublish :: "Frame option \<Rightarrow> (string \<times> uint64) option" where
  "decodePublish frame =
     (case frame of
        None \<Rightarrow> None
      | Some f \<Rightarrow>
          (if FrameHeader.FrameType (Header f) \<noteq> PUBLISH then None
           else case DecodeJSONMessage (Some f) of
                  Inl _ \<Rightarrow> None
                | Inr msg \<Rightarrow> Some (Action msg, ucast (StreamId (Header f)))))"

text \<open>
  The event handlers of the two constructors. The plain one moves the cursor and hands every frame
  on; the acknowledging one hands on what was not accepted before, and reports whether it did.
\<close>

definition plain_event :: "Frame \<Rightarrow> resilient \<Rightarrow> resilient" where
  "plain_event frame rc =
     (case decodePublish (Some frame) of None \<Rightarrow> rc | Some (topic, seq) \<Rightarrow> setPublishCursor topic seq rc)"

definition ack_event :: "(Frame \<Rightarrow> bool) \<Rightarrow> Frame \<Rightarrow> resilient \<Rightarrow> resilient \<times> bool" where
  "ack_event onAck frame rc =
     (case decodePublish (Some frame) of
        None \<Rightarrow> (rc, False)
      | Some (topic, seq) \<Rightarrow>
          (if \<not> shouldDeliverPublish topic seq rc then (rc, False)
           else if onAck frame then (acknowledgePublish topic seq rc, True) else (rc, True)))"

text \<open>The caller holds the lock.\<close>

definition alignReplayState :: "string \<Rightarrow> uint64 \<Rightarrow> resilient \<Rightarrow> resilient" where
  "alignReplayState topic lastSeq rc =
     (if lastSeq < cursor_of topic rc
      then rc\<lparr>cursors := gput topic lastSeq (cursors rc), acceptedPublishes := gdel topic (acceptedPublishes rc)\<rparr>
      else rc)"

section \<open>Methods\<close>

datatype rc_err = RcErrClosed | ErrNotConnected | RcCall call_err

definition rc_current :: "resilient \<Rightarrow> rc_err + nat" where
  "rc_current rc =
     (if rc_closed rc then Inl RcErrClosed
      else case rc_client rc of None \<Rightarrow> Inl ErrNotConnected | Some c \<Rightarrow> Inr c)"

text \<open>\<open>result\<close> is what the inner client's method returned; \<open>Call\<close> and \<open>Ping\<close> pass it on.\<close>

definition rc_Call :: "(call_err + 'a) \<Rightarrow> resilient \<Rightarrow> rc_err + 'a" where
  "rc_Call result rc =
     (case rc_current rc of Inl err \<Rightarrow> Inl err
      | Inr _ \<Rightarrow> (case result of Inl err \<Rightarrow> Inl (RcCall err) | Inr x \<Rightarrow> Inr x))"

definition rc_Subscribe :: "string \<Rightarrow> (call_err + SubscribeResponse) \<Rightarrow> resilient \<Rightarrow> resilient \<times> (rc_err + unit)" where
  "rc_Subscribe topic result rc =
     (case rc_current rc of
        Inl err \<Rightarrow> (rc, Inl err)
      | Inr _ \<Rightarrow>
          (case result of
             Inl err \<Rightarrow> (rc, Inl (RcCall err))
           | Inr sub \<Rightarrow> (alignReplayState topic (sr_LastSeq sub) (rc\<lparr>subscribed := set_add topic (subscribed rc)\<rparr>), Inr ())))"

definition rc_Unsubscribe :: "string \<Rightarrow> (call_err + unit) \<Rightarrow> resilient \<Rightarrow> resilient \<times> (rc_err + unit)" where
  "rc_Unsubscribe topic result rc =
     (case rc_current rc of
        Inl err \<Rightarrow> (rc, Inl err)
      | Inr _ \<Rightarrow>
          (case result of
             Inl err \<Rightarrow> (rc, Inl (RcCall err))
           | Inr _ \<Rightarrow>
               (rc\<lparr>subscribed := removeAll topic (subscribed rc), cursors := gdel topic (cursors rc),
                   acceptedPublishes := gdel topic (acceptedPublishes rc)\<rparr>, Inr ())))"

text \<open>\<open>Close\<close>'s locked section: the flag, and the client to close.\<close>

definition rc_Close :: "resilient \<Rightarrow> resilient \<times> nat option" where
  "rc_Close rc = (rc\<lparr>rc_closed := True\<rparr>, rc_client rc)"

text \<open>
  \<open>Ping\<close> on the current connection, and \<open>CloseGracefully\<close>: the client that gets the goodbye, then \<open>Close\<close>
  with whatever client is installed by then (\<open>rc'\<close> is the state at that moment).
\<close>

definition rc_Ping :: "call_err + Response \<Rightarrow> resilient \<Rightarrow> rc_err + unit" where
  "rc_Ping result rc =
     (case rc_current rc of Inl err \<Rightarrow> Inl err
      | Inr _ \<Rightarrow> (case Ping_finish result of Inl err \<Rightarrow> Inl (RcCall err) | Inr x \<Rightarrow> Inr x))"

definition rc_CloseGracefully :: "resilient \<Rightarrow> resilient \<Rightarrow> nat option \<times> resilient \<times> nat option" where
  "rc_CloseGracefully rc rc' = (rc_client rc, rc_Close rc')"

text \<open>
  \<open>swap\<close>'s locked section. \<open>Inl\<close>: closed meanwhile, the new client has to be closed. \<open>Inr\<close>: the
  replaced client, and the topics to subscribe again (in map order).
\<close>

definition rc_swap ::
  "(string list \<Rightarrow> string list) \<Rightarrow> nat \<Rightarrow> HandshakeResult \<Rightarrow> resilient \<Rightarrow> resilient \<times> (nat + nat option \<times> string list)" where
  "rc_swap it c res rc =
     (if rc_closed rc then (rc, Inl c)
      else (rc\<lparr>rc_client := Some c, rc_token := hr_Token res\<rparr>,
            Inr (rc_client rc, if hr_Resumed res then [] else it (subscribed rc))))"

text \<open>Subscribing again to one topic: a success aligns its replay state.\<close>

definition resubscribe_one :: "string \<Rightarrow> (call_err + SubscribeResponse) \<Rightarrow> resilient \<Rightarrow> resilient" where
  "resubscribe_one topic result rc =
     (case result of Inl _ \<Rightarrow> rc | Inr sub \<Rightarrow> alignReplayState topic (sr_LastSeq sub) rc)"

text \<open>What \<open>dialAndHandshake\<close> sends.\<close>

definition dial_request :: "resilient \<Rightarrow> HelloRequest" where
  "dial_request rc = handshake_request (rc_token rc) (snapshotCursors rc)"

section \<open>The life of connections\<close>

text \<open>
  The goroutines that handle connections: a \<open>Connect\<close> or a reconnect loop that dials (the flag says
  which), holds a dialed or handshaken client, has to close one or to subscribe again, or a watcher
  before and in its wait.
  \<open>live\<close> lists the clients that are open.
\<close>

datatype task =
    TDial bool
  | TShake nat bool
  | THave nat HandshakeResult bool
  | TCloseNew nat
  | TCloseOld nat "string list"
  | TResubscribe "string list"
  | TCloseFinal nat
  | TWatch
  | TAwait nat

record rc_sys =
  rcs :: resilient
  live :: "nat set"
  dialed :: nat
  tasks :: "task list"

text \<open>After a failed attempt a \<open>Connect\<close> returns and a reconnect loop tries again.\<close>

definition failed_attempt :: "bool \<Rightarrow> task list" where
  "failed_attempt connect = (if connect then [] else [TDial False])"

inductive rc_step :: "rc_sys \<Rightarrow> rc_sys \<Rightarrow> bool" where
  connect: "\<not> rc_closed (rcs S) \<Longrightarrow> rc_client (rcs S) = None \<Longrightarrow> rc_step S (S\<lparr>tasks := tasks S @ [TDial True]\<rparr>)"
| dial: "tasks S = ts @ TDial w # us \<Longrightarrow>
    rc_step S (S\<lparr>tasks := ts @ TShake (dialed S) w # us, dialed := Suc (dialed S), live := insert (dialed S) (live S)\<rparr>)"
| dial_fails: "tasks S = ts @ TDial w # us \<Longrightarrow> rc_step S (S\<lparr>tasks := ts @ failed_attempt w @ us\<rparr>)"
| give_up: "tasks S = ts @ TDial False # us \<Longrightarrow> rc_closed (rcs S) \<Longrightarrow> rc_step S (S\<lparr>tasks := ts @ us\<rparr>)"
| shaken: "tasks S = ts @ TShake c w # us \<Longrightarrow> rc_step S (S\<lparr>tasks := ts @ THave c res w # us\<rparr>)"
| shake_fails: "tasks S = ts @ TShake c w # us \<Longrightarrow>
    rc_step S (S\<lparr>tasks := ts @ failed_attempt w @ us, live := live S - {c}\<rparr>)"
| swap_closed: "tasks S = ts @ THave c res w # us \<Longrightarrow> rc_swap it c res (rcs S) = (rc, Inl d) \<Longrightarrow>
    rc_step S (S\<lparr>rcs := rc, tasks := ts @ TCloseNew d # us\<rparr>)"
| swap_first: "tasks S = ts @ THave c res w # us \<Longrightarrow> rc_swap it c res (rcs S) = (rc, Inr (None, topics)) \<Longrightarrow>
    rc_step S (S\<lparr>rcs := rc, tasks := ts @ TResubscribe topics # us\<rparr>)"
| swap: "tasks S = ts @ THave c res w # us \<Longrightarrow> rc_swap it c res (rcs S) = (rc, Inr (Some old, topics)) \<Longrightarrow>
    rc_step S (S\<lparr>rcs := rc, tasks := ts @ TCloseOld old topics # us\<rparr>)"
| close_new: "tasks S = ts @ TCloseNew c # us \<Longrightarrow> rc_step S (S\<lparr>tasks := ts @ TWatch # us, live := live S - {c}\<rparr>)"
| close_old: "tasks S = ts @ TCloseOld c topics # us \<Longrightarrow>
    rc_step S (S\<lparr>tasks := ts @ TResubscribe topics # us, live := live S - {c}\<rparr>)"
| resubscribed: "tasks S = ts @ TResubscribe (topic # topics) # us \<Longrightarrow>
    rc_step S (S\<lparr>rcs := resubscribe_one topic result (rcs S), tasks := ts @ TResubscribe topics # us\<rparr>)"
| swapped: "tasks S = ts @ TResubscribe [] # us \<Longrightarrow> rc_step S (S\<lparr>tasks := ts @ TWatch # us\<rparr>)"
| watch: "tasks S = ts @ TWatch # us \<Longrightarrow> \<not> rc_closed (rcs S) \<Longrightarrow> rc_client (rcs S) = Some c \<Longrightarrow>
    rc_step S (S\<lparr>tasks := ts @ TAwait c # us\<rparr>)"
| watch_ends: "tasks S = ts @ TWatch # us \<Longrightarrow> rc_closed (rcs S) \<or> rc_client (rcs S) = None \<Longrightarrow> rc_step S (S\<lparr>tasks := ts @ us\<rparr>)"
| dropped: "tasks S = ts @ TAwait c # us \<Longrightarrow> c \<notin> live S \<Longrightarrow> rc_step S (S\<lparr>tasks := ts @ TDial False # us\<rparr>)"
| await_ends: "tasks S = ts @ TAwait c # us \<Longrightarrow> rc_closed (rcs S) \<Longrightarrow> rc_step S (S\<lparr>tasks := ts @ us\<rparr>)"
| drop: "rc_step S (S\<lparr>live := live S - {c}\<rparr>)"
| rc_close: "rc_Close (rcs S) = (rc, Some c) \<Longrightarrow> rc_step S (S\<lparr>rcs := rc, tasks := tasks S @ [TCloseFinal c]\<rparr>)"
| rc_close_idle: "rc_Close (rcs S) = (rc, None) \<Longrightarrow> rc_step S (S\<lparr>rcs := rc\<rparr>)"
| close_final: "tasks S = ts @ TCloseFinal c # us \<Longrightarrow> rc_step S (S\<lparr>tasks := ts @ us, live := live S - {c}\<rparr>)"

definition rc_start :: "ResilientOptions option \<Rightarrow> rc_sys" where
  "rc_start opts = \<lparr>rcs = newResilientClient opts, live = {}, dialed = 0, tasks = []\<rparr>"

end
