(* ===== verification/Resilient_Replay.thy ===== *)
theory Resilient_Replay
  imports Resilient_Client Protocol_Serve
begin

text \<open>
  What the reconnecting client guarantees: its cursors and accepted sets represent the set of accepted
  publishes, so that every publish is accepted at most once; the replay of the server and those
  cursors fit together; and no connection outlives \<open>Close\<close>.
\<close>

section \<open>The set of accepted publishes\<close>

definition seen :: "resilient \<Rightarrow> string \<Rightarrow> uint64 set" where
  "seen rc t = {s. s \<le> cursor_of t rc} \<union> set (accepted_of t rc)"

text \<open>The accepted set lies strictly beyond the prefix and its successor.\<close>

definition gap_ok :: "uint64 \<Rightarrow> uint64 list \<Rightarrow> bool" where
  "gap_ok cursor accepted \<longleftrightarrow> (\<forall>s \<in> set accepted. cursor < s \<and> s \<noteq> cursor + 1)"

definition ack_inv :: "resilient \<Rightarrow> bool" where
  "ack_inv rc \<longleftrightarrow> (\<forall>t. gap_ok (cursor_of t rc) (accepted_of t rc))"

lemma shouldDeliver_seen: "shouldDeliverPublish t s rc \<longleftrightarrow> s \<notin> seen rc t"
  by (auto simp: shouldDeliverPublish_def seen_def)

lemma le_Suc_word: "c < s \<Longrightarrow> (x \<le> c + 1) = (x \<le> c \<or> x = c + (1 :: uint64))"
proof -
  assume "c < s"
  then have "c + 1 \<noteq> 0" by (metis add_diff_cancel_right' diff_0 leD word_n1_ge)
  then have "unat (c + 1) = Suc (unat c)" using unatSuc [of c] by (simp add: add.commute)
  then show ?thesis by (auto simp: word_le_nat_alt le_Suc_eq word_unat_eq_iff)
qed

lemma drain_spec:
  assumes "\<forall>s \<in> set accepted. cursor < s"
  shows "{s. s \<le> fst (drain cursor accepted)} \<union> set (snd (drain cursor accepted)) = {s. s \<le> cursor} \<union> set accepted"
    and "gap_ok (fst (drain cursor accepted)) (snd (drain cursor accepted))"
proof -
  have "{s. s \<le> fst (drain cursor accepted)} \<union> set (snd (drain cursor accepted)) = {s. s \<le> cursor} \<union> set accepted \<and>
      gap_ok (fst (drain cursor accepted)) (snd (drain cursor accepted))"
    using assms
  proof (induction cursor accepted rule: drain.induct)
    case (1 cursor accepted)
    show ?case
    proof (cases "length accepted > 0 \<and> cursor + 1 \<in> set accepted")
      case False
      then have "drain cursor accepted = (cursor, accepted)" by (subst drain.simps) auto
      with False 1(2) show ?thesis by (auto simp: gap_ok_def)
    next
      case True
      then have d: "drain cursor accepted = drain (cursor + 1) (removeAll (cursor + 1) accepted)"
        by (subst drain.simps) simp
      have lt: "cursor < cursor + 1" using True 1(2) by blast
      have "\<forall>s \<in> set (removeAll (cursor + 1) accepted). cursor + 1 < s"
        using 1(2) le_Suc_word [OF lt] by (auto simp: not_le [symmetric])
      from 1(1) [OF True this] show ?thesis
        unfolding d using True le_Suc_word [OF lt] by auto
    qed
  qed
  then show "{s. s \<le> fst (drain cursor accepted)} \<union> set (snd (drain cursor accepted)) = {s. s \<le> cursor} \<union> set accepted"
    "gap_ok (fst (drain cursor accepted)) (snd (drain cursor accepted))" by simp_all
qed

lemma views_put [simp]:
  "cursor_of t' (rc\<lparr>cursors := gput t s (cursors rc)\<rparr>) = (if t' = t then s else cursor_of t' rc)"
  "cursor_of t' (rc\<lparr>cursors := gput t s (cursors rc), acceptedPublishes := m\<rparr>) = (if t' = t then s else cursor_of t' rc)"
  "accepted_of t' (rc\<lparr>acceptedPublishes := gput t a (acceptedPublishes rc)\<rparr>) = (if t' = t then a else accepted_of t' rc)"
  "cursor_of t' (rc\<lparr>acceptedPublishes := m\<rparr>) = cursor_of t' rc"
  "accepted_of t' (rc\<lparr>cursors := x, acceptedPublishes := gput t a (acceptedPublishes rc)\<rparr>) = (if t' = t then a else accepted_of t' rc)"
  "accepted_of t' (rc\<lparr>cursors := x, acceptedPublishes := gdel t (acceptedPublishes rc)\<rparr>) = (if t' = t then [] else accepted_of t' rc)"
  by (simp_all add: cursor_of_def accepted_of_def)

lemma acknowledge_spec:
  assumes "ack_inv rc" "s \<notin> seen rc t"
  shows "seen (acknowledgePublish t s rc) t' = (if t' = t then insert s (seen rc t) else seen rc t')"
    and "ack_inv (acknowledgePublish t s rc)"
proof -
  let ?c = "cursor_of t rc" and ?a = "accepted_of t rc"
  have s: "\<not> s \<le> ?c" "s \<notin> set ?a" using assms(2) by (simp_all add: seen_def)
  have gap: "gap_ok (cursor_of x rc) (accepted_of x rc)" for x using assms(1) by (simp add: ack_inv_def)
  have both: "(\<forall>x. seen (acknowledgePublish t s rc) x = (if x = t then insert s (seen rc t) else seen rc x)) \<and>
      ack_inv (acknowledgePublish t s rc)"
  proof (cases "s = ?c + 1")
    case False
    then have "acknowledgePublish t s rc = rc\<lparr>acceptedPublishes := gput t (set_add s ?a) (acceptedPublishes rc)\<rparr>"
      using s by (simp add: acknowledgePublish_def)
    with False s gap show ?thesis by (auto simp: seen_def ack_inv_def gap_ok_def)
  next
    case True
    have lt: "?c < s" using s(1) by simp
    have le: "(x \<le> s) = (x \<le> ?c \<or> x = s)" for x using le_Suc_word [OF lt, of x] True by simp
    have beyond: "\<forall>x \<in> set ?a. s < x" using gap [of t] le s(2) True by (auto simp: gap_ok_def not_le [symmetric])
    obtain c' a' where d: "drain s ?a = (c', a')" by fastforce
    have spec: "{x. x \<le> c'} \<union> set a' = {x. x \<le> s} \<union> set ?a" "gap_ok c' a'" using drain_spec [OF beyond] d by simp_all
    have eq: "acknowledgePublish t s rc = rc\<lparr>cursors := gput t c' (cursors rc),
        acceptedPublishes := (if length a' = 0 then gdel t (acceptedPublishes rc) else gput t a' (acceptedPublishes rc))\<rparr>"
      using s True d by (simp add: acknowledgePublish_def)
    have v: "cursor_of x (acknowledgePublish t s rc) = (if x = t then c' else cursor_of x rc)"
      "accepted_of x (acknowledgePublish t s rc) = (if x = t then a' else accepted_of x rc)" for x
      unfolding eq by auto
    have "{x. x \<le> s} = insert s {x. x \<le> ?c}" using le by auto
    with spec have "{x. x \<le> c'} \<union> set a' = insert s (seen rc t)" by (auto simp: seen_def)
    then have "seen (acknowledgePublish t s rc) x = (if x = t then insert s (seen rc t) else seen rc x)" for x
      by (simp add: seen_def v)
    moreover have "ack_inv (acknowledgePublish t s rc)" using gap spec(2) by (simp add: ack_inv_def v)
    ultimately show ?thesis by blast
  qed
  then show "seen (acknowledgePublish t s rc) t' = (if t' = t then insert s (seen rc t) else seen rc t')"
    "ack_inv (acknowledgePublish t s rc)" by simp_all
qed

section \<open>Deliveries\<close>

text \<open>
  The frames that reach the acknowledging handler one after the other, with the (stateful) decision of
  the application to accept each; the log lists what was handed over, with the decision.
\<close>

fun ack_run :: "(Frame \<times> bool) list \<Rightarrow> resilient \<Rightarrow> resilient \<times> ((string \<times> uint64) \<times> bool) list" where
  "ack_run [] rc = (rc, [])"
| "ack_run ((f, ok) # fs) rc =
     (let (rc1, handed) = ack_event (\<lambda>_. ok) f rc; (rc2, log) = ack_run fs rc1
      in (rc2, (if handed then [(the (decodePublish (Some f)), ok)] else []) @ log))"

lemma ack_event_cases:
  obtains (skip) "ack_event (\<lambda>_. ok) f rc = (rc, False)"
      "decodePublish (Some f) = None \<or> (\<exists>t s. decodePublish (Some f) = Some (t, s) \<and> s \<in> seen rc t)"
  | (accept) t s where "decodePublish (Some f) = Some (t, s)" "s \<notin> seen rc t" ok
      "ack_event (\<lambda>_. ok) f rc = (acknowledgePublish t s rc, True)"
  | (reject) t s where "decodePublish (Some f) = Some (t, s)" "s \<notin> seen rc t" "\<not> ok"
      "ack_event (\<lambda>_. ok) f rc = (rc, True)"
proof (cases "decodePublish (Some f)")
  case None
  then show ?thesis by (intro skip) (simp_all add: ack_event_def)
next
  case (Some x)
  obtain t s where x: "x = (t, s)" by (cases x)
  show ?thesis
  proof (cases "s \<in> seen rc t")
    case True
    then show ?thesis using Some x by (intro skip) (simp_all add: ack_event_def shouldDeliver_seen)
  next
    case False
    then show ?thesis using Some x accept [of t s] reject [of t s]
      by (cases ok) (simp_all add: ack_event_def shouldDeliver_seen)
  qed
qed

abbreviation accepted_log :: "((string \<times> uint64) \<times> bool) list \<Rightarrow> (string \<times> uint64) list" where
  "accepted_log log \<equiv> map fst (filter snd log)"

lemma ack_run_spec:
  assumes "ack_inv rc" "ack_run fs rc = (rc', log)"
  shows "ack_inv rc'" and "seen rc' t = seen rc t \<union> {s. (t, s) \<in> set (accepted_log log)}"
    and "distinct (accepted_log log)" and "\<And>u. (u, ok) \<in> set log \<Longrightarrow> snd u \<notin> seen rc (fst u)"
proof -
  have "ack_inv rc' \<and> (\<forall>t. seen rc' t = seen rc t \<union> {s. (t, s) \<in> set (accepted_log log)}) \<and>
      distinct (accepted_log log) \<and> (\<forall>u ok. (u, ok) \<in> set log \<longrightarrow> snd u \<notin> seen rc (fst u))"
    using assms
  proof (induction fs arbitrary: rc rc' log)
    case (Cons fo fs)
    obtain f ok where fo: "fo = (f, ok)" by (cases fo)
    show ?case
    proof (cases rule: ack_event_cases [of ok f rc])
      case skip
      with Cons fo show ?thesis by simp
    next
      case (accept t s)
      obtain log' where log': "ack_run fs (acknowledgePublish t s rc) = (rc', log')" "log = ((t, s), ok) # log'"
        using Cons.prems(2) accept fo by (auto split: prod.splits)
      note sp = acknowledge_spec [OF Cons.prems(1) accept(2)]
      note IH = Cons.IH [OF sp(2) log'(1)]
      have ne: "u \<noteq> (t, s)" if "(u, ok') \<in> set log'" for u ok' using IH that sp(1) by fastforce
      have "(\<forall>x. seen rc' x = seen rc x \<union> {y. (x, y) \<in> set (accepted_log log)})"
        using IH sp(1) accept(3) by (auto simp: log'(2))
      moreover have "(t, s) \<notin> set (accepted_log log')" using ne by fastforce
      moreover have "snd u \<notin> seen rc (fst u)" if "(u, ok') \<in> set log'" for u ok'
      proof -
        have "snd u \<notin> seen (acknowledgePublish t s rc) (fst u)" using IH that by blast
        then show ?thesis unfolding sp(1) by (auto split: if_splits)
      qed
      ultimately show ?thesis using IH accept(2,3) log'(2) by auto
    next
      case (reject t s)
      obtain log' where log': "ack_run fs rc = (rc', log')" "log = ((t, s), ok) # log'"
        using Cons.prems(2) reject fo by (auto split: prod.splits)
      from Cons.IH [OF Cons.prems(1) log'(1)] reject log'(2) show ?thesis by auto
    qed
  qed simp
  then show "ack_inv rc'" "seen rc' t = seen rc t \<union> {s. (t, s) \<in> set (accepted_log log)}"
    "distinct (accepted_log log)" "\<And>u. (u, ok) \<in> set log \<Longrightarrow> snd u \<notin> seen rc (fst u)" by blast+
qed

lemma ack_inv_new: "ack_inv (newResilientClient opts)" "seen (newResilientClient opts) t = {0}"
  by (auto simp: ack_inv_def gap_ok_def newResilientClient_def cursor_of_def accepted_of_def seen_def)

section \<open>The server's replay and the client's cursors\<close>

text \<open>
  The cached publishes of the topics a session records, in the order of the replay, as the
  frames the client decodes. Bodies are JSON and topics are valid UTF-8.
\<close>

definition decodable :: "server \<Rightarrow> string \<Rightarrow> bool" where
  "decodable p t \<longleftrightarrow> valid_utf8 t \<and> (\<forall>c \<in> set (cache_of t p). \<exists>body. json_text body \<and>
     Encode (Some (publish_frame t body (cp_seq c))) = Inr (cp_buf c))"

definition frame_of :: "bytes \<Rightarrow> Frame" where
  "frame_of buf = (case DecodeStreamed \<lparr>rd_data = buf, rd_end = EOF\<rparr> of (Inr f, _) \<Rightarrow> f | (Inl _, _) \<Rightarrow> newFrame PING 0 [])"

lemma publish_frame_streamed:
  assumes "Encode (Some (publish_frame t body seq)) = Inr buf"
  shows "DecodeStreamed \<lparr>rd_data = buf, rd_end = e\<rparr> = (Inr (publish_frame t body seq), \<lparr>rd_data = [], rd_end = e\<rparr>)"
proof -
  have "Decode \<lparr>rd_data = buf, rd_end = e\<rparr> = (Inr (publish_frame t body seq), \<lparr>rd_data = [], rd_end = e\<rparr>)"
    using publish_frame_decodes [OF assms, where r = "\<lparr>rd_data = [], rd_end = e\<rparr>" and rest = "[]"] by simp
  then show ?thesis by (simp add: DecodeStreamed_def decodeStreamed_def Decode_def publish_frame_def newFrame_def)
qed

lemma decode_cached:
  assumes "decodable p t" "c \<in> set (cache_of t p)"
  shows "decodePublish (Some (frame_of (cp_buf c))) = Some (t, ucast (cp_seq c))"
proof -
  obtain body where b: "json_text body" "Encode (Some (publish_frame t body (cp_seq c))) = Inr (cp_buf c)"
    using assms unfolding decodable_def by blast
  have "frame_of (cp_buf c) = publish_frame t body (cp_seq c)"
    using publish_frame_streamed [OF b(2), of EOF] by (simp add: frame_of_def)
  moreover have "DecodeJSONMessage (Some (publish_frame t body (cp_seq c))) = Inr \<lparr>Action = t, Data = body\<rparr>"
    using decode_env_text [of body PUBLISH "cp_seq c" t] b(1) assms(1)
    by (simp add: publish_frame_def mustJSON_def envelope_bytes_eq decodable_def)
  ultimately show ?thesis by (simp add: decodePublish_def publish_frame_def newFrame_def)
qed

text \<open>The replayed publishes by topic and sequence.\<close>

definition replayed :: "(string list \<Rightarrow> string list) \<Rightarrow> session \<Rightarrow> (string, uint64) gomap \<Rightarrow> server \<Rightarrow> (string \<times> cachedPublish) list" where
  "replayed it s cur p = concat (map (\<lambda>t. map (Pair t)
     (filter (\<lambda>c. ucast (cp_seq c) > (case map_of cur t of None \<Rightarrow> 0 | Some x \<Rightarrow> x)) (cache_of t p))) (it (s_topics s)))"

lemma collectReplay_replayed: "collectReplay it s cur p = map (cp_buf \<circ> snd) (replayed it s cur p)"
  by (simp add: collectReplay_def replayed_def Let_def map_concat comp_def)

lemma map_decode_replayed:
  assumes "\<And>t. t \<in> set (it (s_topics s)) \<Longrightarrow> decodable p t" "x \<in> set (replayed it s cur p)"
  shows "decodePublish (Some (frame_of (cp_buf (snd x)))) = Some (fst x, ucast (cp_seq (snd x)))"
  using assms decode_cached by (fastforce simp: replayed_def)

text \<open>A handler that accepts everything sees what was not accepted before, once each.\<close>

lemma ack_run_accepting:
  assumes "ack_inv rc" "ack_run (map (\<lambda>f. (f, True)) fs) rc = (rc', log)"
    and "\<And>f. f \<in> set fs \<Longrightarrow> \<exists>t s. decodePublish (Some f) = Some (t, s)"
  shows "set (accepted_log log) = {(t, s). (\<exists>f \<in> set fs. decodePublish (Some f) = Some (t, s)) \<and> s \<notin> seen rc t}"
  using assms
proof (induction fs arbitrary: rc log)
  case (Cons f fs)
  obtain t s where f: "decodePublish (Some f) = Some (t, s)" using Cons.prems(3) [of f] by auto
  show ?case
  proof (cases "s \<in> seen rc t")
    case True
    then have "ack_event (\<lambda>_. True) f rc = (rc, False)" using f by (simp add: ack_event_def shouldDeliver_seen)
    with Cons.prems(2) have "ack_run (map (\<lambda>f. (f, True)) fs) rc = (rc', log)" by (simp split: prod.splits)
    from Cons.IH [OF Cons.prems(1) this] Cons.prems(3) f True show ?thesis by auto
  next
    case False
    then have "ack_event (\<lambda>_. True) f rc = (acknowledgePublish t s rc, True)"
      using f by (simp add: ack_event_def shouldDeliver_seen)
    then obtain log' where log': "ack_run (map (\<lambda>f. (f, True)) fs) (acknowledgePublish t s rc) = (rc', log')" "log = ((t, s), True) # log'"
      using Cons.prems(2) f by (auto split: prod.splits)
    note sp = acknowledge_spec [OF Cons.prems(1) False]
    have IH: "set (accepted_log log') = {(x, y). (\<exists>f \<in> set fs. decodePublish (Some f) = Some (x, y)) \<and> y \<notin> seen (acknowledgePublish t s rc) x}"
      using Cons.IH [OF sp(2) log'(1)] Cons.prems(3) by auto
    have "set (accepted_log log) = insert (t, s) (set (accepted_log log'))" by (simp add: log'(2))
    then show ?thesis unfolding IH sp(1) using f False by (auto split: if_splits)
  qed
qed simp

section \<open>No connection outlives Close\<close>

fun holds :: "task \<Rightarrow> nat set" where
  "holds (TShake c w) = {c}"
| "holds (THave c res w) = {c}"
| "holds (TCloseNew c) = {c}"
| "holds (TCloseOld c topics) = {c}"
| "holds (TCloseFinal c) = {c}"
| "holds _ = {}"

abbreviation held :: "task list \<Rightarrow> nat set" where
  "held ts \<equiv> \<Union> (holds ` set ts)"

text \<open>An open client is the installed one of a client that is not closed, or somebody has it in hand.\<close>

definition rc_inv :: "rc_sys \<Rightarrow> bool" where
  "rc_inv S \<longleftrightarrow> live S \<subseteq> held (tasks S) \<union> (if rc_closed (rcs S) then {} else set_option (rc_client (rcs S)))"

lemma align_fields [simp]:
  "rc_client (alignReplayState t n rc) = rc_client rc" "rc_closed (alignReplayState t n rc) = rc_closed rc"
  by (simp_all add: alignReplayState_def)

lemma resubscribe_fields [simp]:
  "rc_client (resubscribe_one t r rc) = rc_client rc" "rc_closed (resubscribe_one t r rc) = rc_closed rc"
  by (simp_all add: resubscribe_one_def split: sum.split)

lemma failed_attempt_held [simp]: "held (failed_attempt w) = {}"
  by (simp add: failed_attempt_def)

lemma rc_inv_step: "rc_step S S' \<Longrightarrow> rc_inv S \<Longrightarrow> rc_inv S'"
proof (induction rule: rc_step.induct)
  case (swap_closed S ts c res w us it rc d)
  then show ?case by (auto simp: rc_inv_def rc_swap_def split: if_splits)
next
  case (swap_first S ts c res w us it rc topics)
  then show ?case by (auto simp: rc_inv_def rc_swap_def split: if_splits)
next
  case (swap S ts c res w us it rc old topics)
  then show ?case by (auto simp: rc_inv_def rc_swap_def split: if_splits)
next
  case (rc_close S rc c)
  then show ?case by (auto simp: rc_inv_def rc_Close_def split: if_splits)
next
  case (rc_close_idle S rc)
  then show ?case by (auto simp: rc_inv_def rc_Close_def split: if_splits)
qed (auto simp: rc_inv_def failed_attempt_def split: if_splits)

lemma rc_inv_reachable: "rc_step\<^sup>*\<^sup>* (rc_start opts) S \<Longrightarrow> rc_inv S"
proof (induction rule: rtranclp_induct)
  case base
  show ?case by (simp add: rc_inv_def rc_start_def)
qed (rule rc_inv_step)

section \<open>Properties of the reconnecting client\<close>

text \<open>
  C23. Acknowledged deliveries are exactly once: whatever frames arrive, in whatever order and however
  often, with whatever decisions of the application, no publish is accepted twice; the cursor and the
  set beside it represent exactly the accepted publishes (and the sequence 0); and the cursor is
  the longest contiguous prefix of them, so a rejected publish stays beyond it.
\<close>

theorem ack_exactly_once:
  "let (rc, log) = ack_run fs (newResilientClient opts)
   in distinct (accepted_log log) \<and>
      (\<forall>t s. ((t, s) \<in> set (accepted_log log) \<or> s = 0) = (s \<le> cursor_of t rc \<or> s \<in> set (accepted_of t rc))) \<and>
      (\<forall>t. (t, cursor_of t rc + 1) \<notin> set (accepted_log log))"
proof -
  obtain rc log where r: "ack_run fs (newResilientClient opts) = (rc, log)" by fastforce
  note sp = ack_run_spec [OF ack_inv_new(1) r]
  have seen: "seen rc t = {0} \<union> {s. (t, s) \<in> set (accepted_log log)}" for t using sp(2) ack_inv_new(2) by simp
  have "((t, s) \<in> set (accepted_log log) \<or> s = 0) = (s \<le> cursor_of t rc \<or> s \<in> set (accepted_of t rc))" for t s
  proof -
    have "s \<in> seen rc t \<longleftrightarrow> (t, s) \<in> set (accepted_log log) \<or> s = 0" unfolding seen by blast
    then show ?thesis unfolding seen_def by blast
  qed
  moreover have "(t, cursor_of t rc + 1) \<notin> set (accepted_log log)" for t
  proof
    let ?n = "cursor_of t rc + 1"
    assume a: "(t, ?n) \<in> set (accepted_log log)"
    then have "((t, ?n), True) \<in> set log" by auto
    from sp(4) [OF this] have "?n \<noteq> 0" using ack_inv_new(2) by simp
    then have "\<not> ?n \<le> cursor_of t rc" using less_word_inc [of "cursor_of t rc" "cursor_of t rc"] by simp
    moreover have "?n \<in> seen rc t" using a seen [of t] by blast
    ultimately have "?n \<in> set (accepted_of t rc)" by (simp add: seen_def)
    then show False using sp(1) by (auto simp: ack_inv_def gap_ok_def)
  qed
  ultimately show ?thesis using r sp(3) by simp
qed

text \<open>
  C24. After a resume nothing is lost and nothing repeated: when a client with any delivery history
  presents its cursors, the server's replay brings an accepting handler exactly the cached publishes
  of the recorded topics that it had not accepted, each once, and afterwards all of them are accepted.
\<close>

theorem resume_replay_complete:
  assumes "order_ok it" and "\<And>t. t \<in> set (s_topics s) \<Longrightarrow> decodable p t"
    and "rc = fst (ack_run fs (newResilientClient opts))"
    and "ack_run (map (\<lambda>f. (f, True)) (map frame_of (collectReplay it s (snapshotCursors rc) p))) rc = (rc', log)"
  shows "distinct (accepted_log log) \<and>
    set (accepted_log log) = {(t, ucast (cp_seq c)) | t c. t \<in> set (s_topics s) \<and> c \<in> set (cache_of t p) \<and> ucast (cp_seq c) \<notin> seen rc t} \<and>
    (\<forall>t \<in> set (s_topics s). \<forall>c \<in> set (cache_of t p). ucast (cp_seq c) \<in> seen rc' t)"
proof -
  have inv: "ack_inv rc" using ack_run_spec(1) [OF ack_inv_new(1)] assms(3) by (metis prod.collapse)
  let ?R = "replayed it s (snapshotCursors rc) p"
  have dec: "decodePublish (Some (frame_of (cp_buf (snd x)))) = Some (fst x, ucast (cp_seq (snd x)))" if "x \<in> set ?R" for x
    using map_decode_replayed [OF _ that] assms(2) order_ok_set [OF assms(1)] by simp
  have run: "ack_run (map (\<lambda>f. (f, True)) (map (frame_of \<circ> cp_buf \<circ> snd) ?R)) rc = (rc', log)"
    using assms(4) by (simp add: collectReplay_replayed comp_def)
  have R: "x \<in> set ?R \<longleftrightarrow> fst x \<in> set (s_topics s) \<and> snd x \<in> set (cache_of (fst x) p) \<and> ucast (cp_seq (snd x)) > cursor_of (fst x) rc" for x
    using order_ok_set [OF assms(1), of "s_topics s"]
    by (cases x) (auto simp: replayed_def snapshotCursors_def cursor_of_def)
  have log: "set (accepted_log log) =
      {(t, n). (\<exists>f \<in> set (map (frame_of \<circ> cp_buf \<circ> snd) ?R). decodePublish (Some f) = Some (t, n)) \<and> n \<notin> seen rc t}"
    by (rule ack_run_accepting [OF inv run]) (use dec in auto)
  have frames: "(\<exists>f \<in> set (map (frame_of \<circ> cp_buf \<circ> snd) ?R). decodePublish (Some f) = Some (t, n)) \<longleftrightarrow>
      (\<exists>c. (t, c) \<in> set ?R \<and> n = ucast (cp_seq c))" for t n
    using dec by force
  have new: "(t, c) \<in> set ?R" if "t \<in> set (s_topics s)" "c \<in> set (cache_of t p)" "ucast (cp_seq c) \<notin> seen rc t" for t c
    using that by (simp add: R seen_def not_le)
  have 1: "set (accepted_log log) = {(t, ucast (cp_seq c)) | t c. t \<in> set (s_topics s) \<and> c \<in> set (cache_of t p) \<and> ucast (cp_seq c) \<notin> seen rc t}"
    unfolding log frames using new R by fastforce
  note sp = ack_run_spec [OF inv run]
  have "ucast (cp_seq c) \<in> seen rc' t" if "t \<in> set (s_topics s)" "c \<in> set (cache_of t p)" for t c
    using that 1 sp(2) [of t] by blast
  with 1 sp(3) show ?thesis by blast
qed

theorem resume_replay_complete_witness:
  "\<exists>rc' log. ack_run (map (\<lambda>f. (f, True)) (map frame_of (collectReplay (\<lambda>ks. ks) \<lparr>s_conn = 1, s_topics = [''t''], s_lastSeen = 0\<rparr>
      (snapshotCursors (newResilientClient None)) sample_published))) (newResilientClient None) = (rc', log) \<and>
    set (accepted_log log) = {(''t'', 1)} \<and> 1 \<in> seen rc' ''t''"
proof -
  let ?s = "\<lparr>s_conn = 1, s_topics = [''t''], s_lastSeen = 0\<rparr>" and ?rc = "newResilientClient None"
  have cache: "cache_of ''t'' sample_published = [\<lparr>cp_seq = 1, cp_buf = sample_buf\<rparr>]"
    by (simp add: sample_published_eq cache_of_def)
  have "valid_utf8 ''t''" "json_text ''5''" by code_simp+
  then have "decodable sample_published ''t''" using sample_encode by (auto simp: decodable_def cache)
  then have d: "\<And>t. t \<in> set (s_topics ?s) \<Longrightarrow> decodable sample_published t" by simp
  have rc: "?rc = fst (ack_run [] (newResilientClient None))" by simp
  obtain rc' log where run: "ack_run (map (\<lambda>f. (f, True)) (map frame_of (collectReplay (\<lambda>ks. ks) ?s
      (snapshotCursors ?rc) sample_published))) ?rc = (rc', log)" by fastforce
  have "(1 :: uint64) \<notin> seen ?rc ''t''" using ack_inv_new(2) by simp
  with resume_replay_complete [OF order_ok_id d rc run] run show ?thesis by (auto simp: cache)
qed

text \<open>
  C25. No connection outlives \<open>Close\<close>: under every interleaving of \<open>Connect\<close>, reconnect loops, watchers,
  dropped connections and \<open>Close\<close>, once the client is closed every open connection is in the hands
  of a goroutine that will close it or give it up, and when there is none left, no connection is open.
\<close>

theorem no_connection_outlives_close:
  assumes "rc_step\<^sup>*\<^sup>* (rc_start opts) S" and "rc_closed (rcs S)"
  shows "live S \<subseteq> held (tasks S) \<and> (tasks S = [] \<longrightarrow> live S = {})"
  using rc_inv_reachable [OF assms(1)] assms(2) by (auto simp: rc_inv_def)

theorem no_connection_outlives_close_witness:
  "\<exists>S. rc_step\<^sup>*\<^sup>* (rc_start None) S \<and> rc_closed (rcs S) \<and> dialed S = 1 \<and> tasks S = [] \<and> live S = {}"
proof -
  let ?rc = "newResilientClient None" and ?res = "agreed_of (1, (0, []), [], False)"
  let ?cl = "?rc\<lparr>rc_closed := True\<rparr>"
  define S where "S rc l n ts = \<lparr>rcs = rc, live = l, dialed = n, tasks = ts\<rparr>" for rc l n ts
  have fresh: "\<not> rc_closed ?rc" "rc_client ?rc = None" by (simp_all add: newResilientClient_def)
  have 1: "rc_step (rc_start None) (S ?rc {} 0 [TDial True])"
    using rc_step.connect [of "rc_start None"] fresh by (simp add: rc_start_def S_def)
  have 2: "rc_step (S ?rc {} 0 [TDial True]) (S ?rc {0} 1 [TShake 0 True])"
    using rc_step.dial [of "S ?rc {} 0 [TDial True]" "[]" True "[]"] by (simp add: S_def)
  have 3: "rc_step (S ?rc {0} 1 [TShake 0 True]) (S ?rc {0} 1 [THave 0 ?res True])"
    using rc_step.shaken [of "S ?rc {0} 1 [TShake 0 True]" "[]" 0 True "[]" ?res] by (simp add: S_def)
  have 4: "rc_step (S ?rc {0} 1 [THave 0 ?res True]) (S ?cl {0} 1 [THave 0 ?res True])"
    using rc_step.rc_close_idle [of "S ?rc {0} 1 [THave 0 ?res True]" ?cl] fresh by (simp add: S_def rc_Close_def)
  have 5: "rc_step (S ?cl {0} 1 [THave 0 ?res True]) (S ?cl {0} 1 [TCloseNew 0])"
    using rc_step.swap_closed [of "S ?cl {0} 1 [THave 0 ?res True]" "[]" 0 ?res True "[]" "\<lambda>ks. ks" ?cl 0] by (simp add: S_def rc_swap_def)
  have 6: "rc_step (S ?cl {0} 1 [TCloseNew 0]) (S ?cl {} 1 [TWatch])"
    using rc_step.close_new [of "S ?cl {0} 1 [TCloseNew 0]" "[]" 0 "[]"] by (simp add: S_def)
  have 7: "rc_step (S ?cl {} 1 [TWatch]) (S ?cl {} 1 [])"
    using rc_step.watch_ends [of "S ?cl {} 1 [TWatch]" "[]" "[]"] by (simp add: S_def)
  have r: "rc_step\<^sup>*\<^sup>* (rc_start None) (S ?cl {} 1 [])"
    using 1 2 3 4 5 6 7 by (meson converse_rtranclp_into_rtranclp rtranclp.rtrancl_refl)
  have "rc_closed (rcs (S ?cl {} 1 []))" by (simp add: S_def)
  from no_connection_outlives_close [OF r this] r this show ?thesis by (auto simp: S_def)
qed

end
