(* ===== verification/Buffer_Pool.thy ===== *)
theory Buffer_Pool
  imports Stream_Codec
begin

text \<open>
  The buffer pool of \<open>pkg/proto/pool.go\<close> and the pooled half of \<open>pkg/proto/stream.go\<close>. Arrays and cells are
  heap objects, a slice is an array with a length (all slices here start at the array's
  beginning), and the pool keeps, for each size class, the cells that wait to be used again. The
  backend is an interface in the code and a pair of functions here; \<open>pool_contract\<close> states what its
  users rely on, the encoder's lemmas are proved from it, and \<open>syncPoolBackend\<close> provides it
  whatever its \<open>sync.Pool\<close>s return.
\<close>

section \<open>Size classes\<close>

definition payloadClasses :: "nat list" where
  "payloadClasses = [256, 1024, 4 * 1024, 16 * 1024, 64 * 1024, 256 * 1024, 1048576]"

fun first_class :: "nat \<Rightarrow> nat list \<Rightarrow> nat \<Rightarrow> nat option" where
  "first_class i [] sz = None"
| "first_class i (c # cs) sz = (if sz \<le> c then Some i else first_class (Suc i) cs sz)"

definition classIndexForSize :: "nat \<Rightarrow> nat option" where
  "classIndexForSize sz = (if sz = 0 then None else first_class 0 payloadClasses sz)"

fun last_class :: "nat \<Rightarrow> nat list \<Rightarrow> nat \<Rightarrow> nat option \<Rightarrow> nat option" where
  "last_class i [] n idx = idx"
| "last_class i (c # cs) n idx = (if c > n then idx else last_class (Suc i) cs n (Some i))"

definition classIndexForCap :: "nat \<Rightarrow> nat option" where
  "classIndexForCap n =
     (if n < payloadClasses ! 0 \<or> n > payloadClasses ! (length payloadClasses - 1) then None
      else last_class 0 payloadClasses n None)"

section \<open>Heap and backend\<close>

type_synonym slice = "nat \<times> nat"

record heap =
  arrs :: "bytes list"
  cells :: "nat list"
  pools :: "nat list list"

definition slice_bytes :: "heap \<Rightarrow> slice \<Rightarrow> bytes" where
  "slice_bytes h s = take (snd s) (arrs h ! fst s)"

record poolBackend =
  getPayload :: "nat \<Rightarrow> heap \<Rightarrow> nat \<times> heap"
  putPayload :: "nat \<Rightarrow> nat \<Rightarrow> heap \<Rightarrow> heap"

text \<open>
  \<open>sync.Pool.Get\<close> may return any stored value or none: \<open>pick\<close> selects a position. A cell below
  the capacity of the class is dropped.
\<close>

definition sync_getPayload :: "(nat \<Rightarrow> heap \<Rightarrow> nat option) \<Rightarrow> nat \<Rightarrow> heap \<Rightarrow> nat \<times> heap" where
  "sync_getPayload pick idx h =
     (let fresh = (\<lambda>h. (length (cells h),
            h\<lparr>arrs := arrs h @ [replicate (payloadClasses ! idx) 0], cells := cells h @ [length (arrs h)]\<rparr>))
      in case pick idx h of
           None \<Rightarrow> fresh h
         | Some k \<Rightarrow>
             (if k < length (pools h ! idx) then
                (let c = pools h ! idx ! k;
                     h' = h\<lparr>pools := (pools h)[idx := take k (pools h ! idx) @ drop (Suc k) (pools h ! idx)]\<rparr>
                 in if length (arrs h ! (cells h ! c)) \<ge> payloadClasses ! idx then (c, h') else fresh h')
              else fresh h))"

definition sync_putPayload :: "nat \<Rightarrow> nat \<Rightarrow> heap \<Rightarrow> heap" where
  "sync_putPayload idx c h = h\<lparr>pools := (pools h)[idx := c # pools h ! idx]\<rparr>"

definition syncPoolBackend :: "(nat \<Rightarrow> heap \<Rightarrow> nat option) \<Rightarrow> poolBackend" where
  "syncPoolBackend pick = \<lparr>getPayload = sync_getPayload pick, putPayload = sync_putPayload\<rparr>"

section \<open>Recycling\<close>

definition putPayloadArray :: "poolBackend \<Rightarrow> nat \<Rightarrow> nat option \<Rightarrow> heap \<Rightarrow> heap" where
  "putPayloadArray b a cell h =
     (case classIndexForCap (length (arrs h ! a)) of
        None \<Rightarrow> h
      | Some idx \<Rightarrow>
          (case cell of
             None \<Rightarrow> putPayload b idx (length (cells h)) (h\<lparr>cells := cells h @ [a]\<rparr>)
           | Some c \<Rightarrow> putPayload b idx c h))"

definition sameBacking :: "slice \<Rightarrow> slice \<Rightarrow> bool" where
  "sameBacking x y \<longleftrightarrow> snd x > 0 \<and> snd y > 0 \<and> fst x = fst y"

text \<open>A nil payload is \<open>None\<close>; its capacity is below every class, so it is not kept.\<close>

definition releasePayload :: "poolBackend \<Rightarrow> slice option \<Rightarrow> nat option \<Rightarrow> heap \<Rightarrow> heap" where
  "releasePayload b payload cell h =
     (case cell of
        None \<Rightarrow> (case payload of None \<Rightarrow> h | Some s \<Rightarrow> putPayloadArray b (fst s) None h)
      | Some c \<Rightarrow>
          (let full = (cells h ! c, length (arrs h ! (cells h ! c)))
           in case payload of
                None \<Rightarrow> putPayloadArray b (fst full) (Some c) h
              | Some s \<Rightarrow>
                  (if sameBacking s full then putPayloadArray b (fst s) (Some c) h
                   else putPayloadArray b (fst s) None (putPayloadArray b (fst full) (Some c) h))))"

text \<open>A frame object with its pool plumbing.\<close>

record pframe =
  pf_Header :: FrameHeader
  pf_Payload :: "slice option"
  pf_fromPool :: bool
  pf_released :: bool
  pf_cell :: "nat option"

definition zero_header :: FrameHeader where
  "zero_header = \<lparr>FrameType = 0, Flags = 0, StreamId = 0, Length = 0\<rparr>"

definition acquireFrame :: "pframe \<Rightarrow> pframe" where
  "acquireFrame f = f\<lparr>pf_fromPool := True, pf_released := False\<rparr>"

definition acquirePayload :: "poolBackend \<Rightarrow> pframe \<Rightarrow> nat \<Rightarrow> heap \<Rightarrow> (pframe \<times> heap) option" where
  "acquirePayload b f sz h =
     (case classIndexForSize sz of
        None \<Rightarrow> None
      | Some idx \<Rightarrow>
          (let (c, h') = getPayload b idx h
           in Some (f\<lparr>pf_cell := Some c, pf_Payload := Some (cells h' ! c, sz)\<rparr>, h')))"

definition release :: "poolBackend \<Rightarrow> pframe \<Rightarrow> heap \<Rightarrow> pframe \<times> heap" where
  "release b f h =
     (if \<not> pf_fromPool f \<or> pf_released f then (f, h)
      else (f\<lparr>pf_released := True, pf_fromPool := False, pf_Header := zero_header, pf_Payload := None, pf_cell := None\<rparr>,
            releasePayload b (pf_Payload f) (pf_cell f) h))"

section \<open>Pooled encoding\<close>

definition write_frame :: "FrameType \<Rightarrow> uint32 \<Rightarrow> bytes \<Rightarrow> uint8 \<Rightarrow> bytes \<Rightarrow> bytes" where
  "write_frame t streamId payload flags buf =
     (case EncodeHeaderTo buf \<lparr>FrameType = t, Flags = flags, StreamId = streamId, Length = word_of_nat (length payload)\<rparr> of
        None \<Rightarrow> buf
      | Some buf' \<Rightarrow> copy_after_header buf' payload)"

definition encodeFrameInto_pooled ::
  "poolBackend \<Rightarrow> FrameType \<Rightarrow> uint32 \<Rightarrow> bytes \<Rightarrow> uint8 \<Rightarrow> heap \<Rightarrow> (slice \<times> nat option) \<times> heap" where
  "encodeFrameInto_pooled b t streamId payload flags h =
     (let total = HeaderSize + length payload
      in case classIndexForSize total of
           Some idx \<Rightarrow>
             (let (c, h') = getPayload b idx h;
                  a = cells h' ! c;
                  buf = write_frame t streamId payload flags (take total (arrs h' ! a))
              in (((a, total), Some c), h'\<lparr>arrs := (arrs h')[a := buf @ drop total (arrs h' ! a)]\<rparr>))
         | None \<Rightarrow>
             (((length (arrs h), total), None),
              h\<lparr>arrs := arrs h @ [write_frame t streamId payload flags (replicate total 0)]\<rparr>))"

definition encodeFrameBuffered ::
  "poolBackend \<Rightarrow> FrameType \<Rightarrow> uint32 \<Rightarrow> bytes \<Rightarrow> uint8 \<Rightarrow> heap \<Rightarrow> (proto_err + slice \<times> nat option) \<times> heap" where
  "encodeFrameBuffered b t streamId payload flags h =
     (if length payload = 0 then (Inl ErrEmptyFrame, h)
      else if length payload > MaxFrameSize then (Inl (ErrFrameTooLarge (int (length payload)) (int MaxFrameSize)), h)
      else apfst Inr (encodeFrameInto_pooled b t streamId payload flags h))"

text \<open>The fragment loop, with the buffers and their cells in order.\<close>

function encode_fragments_pooled ::
  "poolBackend \<Rightarrow> FrameType \<Rightarrow> uint32 \<Rightarrow> bytes \<Rightarrow> nat \<Rightarrow> nat \<Rightarrow> heap \<Rightarrow> (slice \<times> nat option) list \<times> heap" where
  "encode_fragments_pooled b t streamId payload threshold offset h =
     (if offset < length payload \<and> 0 < threshold
      then let stop = (if offset + threshold > length payload then length payload else offset + threshold);
               flags = (if stop < length payload then FlagMore else 0);
               (x, h1) = encodeFrameInto_pooled b t streamId (take (stop - offset) (drop offset payload)) flags h;
               (xs, h2) = encode_fragments_pooled b t streamId payload threshold stop h1
           in (x # xs, h2)
      else ([], h))"
  by pat_completeness auto
termination
  by (relation "measure (\<lambda>(_, _, _, payload, _, offset, _). length payload - offset)") auto

declare encode_fragments_pooled.simps [simp del]

record encodedMessage =
  em_buf :: "(slice \<times> nat option) option"
  em_bufs :: "(slice \<times> nat option) list"

definition encodeMessage_pooled ::
  "poolBackend \<Rightarrow> FrameType \<Rightarrow> uint32 \<Rightarrow> bytes \<Rightarrow> int \<Rightarrow> heap \<Rightarrow> (proto_err + encodedMessage) \<times> heap" where
  "encodeMessage_pooled b t streamId payload threshold h =
     (let th = clamp_threshold threshold
      in if length payload \<le> th
         then (case encodeFrameBuffered b t streamId payload 0 h of
                 (Inl e, h') \<Rightarrow> (Inl e, h')
               | (Inr x, h') \<Rightarrow> (Inr \<lparr>em_buf = Some x, em_bufs = []\<rparr>, h'))
         else (let (xs, h') = encode_fragments_pooled b t streamId payload th 0 h
               in (Inr \<lparr>em_buf = None, em_bufs = xs\<rparr>, h')))"

definition em_buffers :: "encodedMessage \<Rightarrow> (slice \<times> nat option) list" where
  "em_buffers msg = (case em_buf msg of Some x \<Rightarrow> [x] | None \<Rightarrow> em_bufs msg)"

definition release_cell :: "poolBackend \<Rightarrow> slice \<times> nat option \<Rightarrow> heap \<Rightarrow> heap" where
  "release_cell b x h = (case snd x of None \<Rightarrow> h | Some c \<Rightarrow> putPayloadArray b (fst (fst x)) (Some c) h)"

definition em_release :: "poolBackend \<Rightarrow> encodedMessage \<Rightarrow> heap \<Rightarrow> encodedMessage \<times> heap" where
  "em_release b msg h =
     (case em_buf msg of
        Some x \<Rightarrow> (msg\<lparr>em_buf := None\<rparr>, putPayloadArray b (fst (fst x)) (snd x) h)
      | None \<Rightarrow> (msg\<lparr>em_bufs := []\<rparr>, fold (release_cell b) (em_bufs msg) h))"

section \<open>The contract of a backend\<close>

text \<open>The arrays that wait in the pool; no array waits twice.\<close>

definition free :: "heap \<Rightarrow> nat list" where
  "free h = map (\<lambda>c. cells h ! c) (concat (pools h))"

definition heap_wf :: "heap \<Rightarrow> bool" where
  "heap_wf h \<longleftrightarrow> length (pools h) = length payloadClasses \<and> distinct (free h) \<and>
     (\<forall>c \<in> set (concat (pools h)). c < length (cells h)) \<and> (\<forall>a \<in> set (cells h). a < length (arrs h))"

text \<open>The later heap has every object of the earlier one, and changed no array outside the pool.\<close>

definition grows :: "heap \<Rightarrow> heap \<Rightarrow> bool" where
  "grows h h' \<longleftrightarrow> (\<exists>zs. cells h' = cells h @ zs) \<and> length (arrs h) \<le> length (arrs h') \<and> set (free h') \<subseteq> set (free h) \<and>
     (\<forall>a < length (arrs h). a \<notin> set (free h) \<longrightarrow> arrs h' ! a = arrs h ! a)"

text \<open>An array that was taken out of the pool or is new.\<close>

definition taken :: "heap \<Rightarrow> heap \<Rightarrow> nat \<Rightarrow> bool" where
  "taken h h' a \<longleftrightarrow> a < length (arrs h') \<and> a \<notin> set (free h') \<and> (a \<in> set (free h) \<or> length (arrs h) \<le> a)"

locale pool_contract =
  fixes b :: poolBackend
  assumes get_ok: "heap_wf h \<Longrightarrow> idx < length payloadClasses \<Longrightarrow> getPayload b idx h = (c, h') \<Longrightarrow>
      heap_wf h' \<and> grows h h' \<and> c < length (cells h') \<and> taken h h' (cells h' ! c) \<and>
      payloadClasses ! idx \<le> length (arrs h' ! (cells h' ! c))"
    and put_ok: "heap_wf h \<Longrightarrow> idx < length payloadClasses \<Longrightarrow> c < length (cells h) \<Longrightarrow> cells h ! c \<notin> set (free h) \<Longrightarrow>
      heap_wf (putPayload b idx c h) \<and> set (free (putPayload b idx c h)) \<subseteq> insert (cells h ! c) (set (free h)) \<and>
      arrs (putPayload b idx c h) = arrs h \<and> cells (putPayload b idx c h) = cells h"

lemma grows_refl [simp]: "grows h h"
  by (simp add: grows_def)

lemma growsD:
  assumes "grows h h'"
  shows "length (arrs h) \<le> length (arrs h')" "set (free h') \<subseteq> set (free h)"
    "a < length (arrs h) \<Longrightarrow> a \<notin> set (free h) \<Longrightarrow> arrs h' ! a = arrs h ! a"
    "c < length (cells h) \<Longrightarrow> cells h' ! c = cells h ! c" "length (cells h) \<le> length (cells h')"
  using assms by (auto simp: grows_def nth_append)

lemma grows_trans:
  assumes "grows h h'" "grows h' h''" shows "grows h h''"
proof -
  have "\<exists>zs. cells h'' = cells h @ zs" using assms by (auto simp: grows_def)
  moreover have "arrs h'' ! a = arrs h ! a" if "a < length (arrs h)" "a \<notin> set (free h)" for a
  proof -
    have "a < length (arrs h')" "a \<notin> set (free h')" using that growsD(1,2) [OF assms(1)] by auto
    then show ?thesis using growsD(3) [OF assms(1) that] growsD(3) [OF assms(2)] by simp
  qed
  ultimately show ?thesis
    using growsD(1,2) [OF assms(1)] growsD(1,2) [OF assms(2)] unfolding grows_def by auto
qed

lemma first_class_bounds:
  "first_class i cs sz = Some idx \<Longrightarrow> i \<le> idx \<and> idx < i + length cs \<and> sz \<le> cs ! (idx - i)"
proof (induction cs arbitrary: i)
  case (Cons c cs)
  show ?case
  proof (cases "sz \<le> c")
    case False
    with Cons.prems Cons.IH [of "Suc i"] have IH: "Suc i \<le> idx \<and> idx < Suc i + length cs \<and> sz \<le> cs ! (idx - Suc i)" by simp
    then have "idx - i = Suc (idx - Suc i)" by arith
    with IH show ?thesis by simp
  qed (use Cons in simp)
qed simp

lemma classIndexForSize_bounds:
  "classIndexForSize sz = Some idx \<Longrightarrow> idx < length payloadClasses \<and> sz \<le> payloadClasses ! idx"
  using first_class_bounds [of 0 payloadClasses sz idx] by (simp add: classIndexForSize_def split: if_splits)

lemma last_class_bounds:
  "last_class i cs n acc = Some idx \<Longrightarrow> acc = Some idx \<or> idx < i + length cs"
proof (induction cs arbitrary: i acc)
  case (Cons c cs)
  then show ?case by (cases "c > n") force+
qed simp

lemma classIndexForCap_bounds: "classIndexForCap n = Some idx \<Longrightarrow> idx < length payloadClasses"
  using last_class_bounds [of 0 payloadClasses n None idx] by (simp add: classIndexForCap_def split: if_splits)

lemma write_frame_eq:
  assumes "length buf = HeaderSize + length payload"
  shows "write_frame t sid payload fl buf = encodeFrameInto t sid payload fl"
proof -
  have "take (length payload) (drop HeaderSize buf) = drop HeaderSize buf" using assms by simp
  then show ?thesis
    using assms by (simp add: write_frame_def encodeFrameInto_def Let_def EncodeHeaderTo_Some copy_after_header_def)
qed

section \<open>Encoding under the contract\<close>

lemma taken_grows: "grows h1 h2 \<Longrightarrow> taken h1 h2 a \<Longrightarrow> grows h h1 \<Longrightarrow> taken h h2 a"
  using growsD(1,2) [of h h1] by (auto simp: taken_def)

lemma taken_later: "taken h h' a \<Longrightarrow> grows h' h'' \<Longrightarrow> taken h h'' a"
  using growsD(1,2) [of h' h''] by (auto simp: taken_def)

text \<open>Writing into a taken array changes nothing else.\<close>

lemma write_taken:
  assumes "heap_wf h'" "grows h h'" "taken h h' a"
  shows "heap_wf (h'\<lparr>arrs := (arrs h')[a := x]\<rparr>)" "grows h (h'\<lparr>arrs := (arrs h')[a := x]\<rparr>)"
    "taken h (h'\<lparr>arrs := (arrs h')[a := x]\<rparr>) a" "arrs (h'\<lparr>arrs := (arrs h')[a := x]\<rparr>) ! a = x"
proof -
  have f: "free (h'\<lparr>arrs := (arrs h')[a := x]\<rparr>) = free h'" by (simp add: free_def)
  have "a \<noteq> y" if "y < length (arrs h)" "y \<notin> set (free h)" for y using assms(3) that by (auto simp: taken_def)
  then show "grows h (h'\<lparr>arrs := (arrs h')[a := x]\<rparr>)" using assms(2) by (simp add: grows_def f)
  show "heap_wf (h'\<lparr>arrs := (arrs h')[a := x]\<rparr>)" using assms(1) by (simp add: heap_wf_def f)
  show "taken h (h'\<lparr>arrs := (arrs h')[a := x]\<rparr>) a" "arrs (h'\<lparr>arrs := (arrs h')[a := x]\<rparr>) ! a = x"
    using assms(3) by (simp_all add: taken_def f)
qed

text \<open>What an encoded buffer is: its bytes, and that it is exclusively ours.\<close>

definition buf_ok :: "heap \<Rightarrow> heap \<Rightarrow> slice \<times> nat option \<Rightarrow> bytes \<Rightarrow> bool" where
  "buf_ok h h' x bs \<longleftrightarrow> slice_bytes h' (fst x) = bs \<and> taken h h' (fst (fst x)) \<and>
     (case snd x of None \<Rightarrow> True | Some c \<Rightarrow> c < length (cells h') \<and> cells h' ! c = fst (fst x))"

lemma buf_ok_later:
  assumes "buf_ok h h' x bs" "grows h' h''" "grows h h'"
  shows "buf_ok h h'' x bs"
proof -
  have t: "taken h h' (fst (fst x))" using assms(1) by (simp add: buf_ok_def)
  then have "arrs h'' ! fst (fst x) = arrs h' ! fst (fst x)"
    using growsD(3) [OF assms(2)] by (simp add: taken_def)
  with assms(1) taken_later [OF t assms(2)] growsD(4,5) [OF assms(2)] show ?thesis
    by (auto simp: buf_ok_def slice_bytes_def split: option.splits)
qed

lemma buf_ok_earlier: "grows h h1 \<Longrightarrow> grows h1 h2 \<Longrightarrow> buf_ok h1 h2 x bs \<Longrightarrow> buf_ok h h2 x bs"
  using taken_grows [of h1 h2 _ h] by (auto simp: buf_ok_def)

text \<open>A list of buffers: each as it should be, on arrays of their own.\<close>

definition bufs_ok :: "heap \<Rightarrow> heap \<Rightarrow> (slice \<times> nat option) list \<Rightarrow> bytes list \<Rightarrow> bool" where
  "bufs_ok h h' xs bss \<longleftrightarrow> list_all2 (buf_ok h h') xs bss \<and> distinct (map (fst \<circ> fst) xs)"

lemma bufs_ok_Cons:
  assumes "grows h h1" "buf_ok h h1 x bs" "grows h1 h2" "bufs_ok h1 h2 xs bss"
  shows "bufs_ok h h2 (x # xs) (bs # bss)"
proof -
  have "list_all2 (buf_ok h h2) xs bss"
    using assms(4) buf_ok_earlier [OF assms(1,3)] by (auto simp: bufs_ok_def elim: list_all2_mono)
  moreover have "buf_ok h h2 x bs" using assms(2,3,1) by (rule buf_ok_later)
  moreover have "fst (fst y) \<noteq> fst (fst x)" if "y \<in> set xs" for y
  proof -
    from that obtain i where i: "i < length xs" "y = xs ! i" by (auto simp: in_set_conv_nth)
    then have "buf_ok h1 h2 y (bss ! i)" using assms(4) list_all2_nthD [of "buf_ok h1 h2" xs bss i]
      by (simp add: bufs_ok_def)
    then have "taken h1 h2 (fst (fst y))" by (simp add: buf_ok_def)
    moreover have "taken h h1 (fst (fst x))" using assms(2) by (simp add: buf_ok_def)
    ultimately show ?thesis by (auto simp: taken_def)
  qed
  ultimately show ?thesis using assms(4) by (force simp: bufs_ok_def)
qed

context pool_contract
begin

lemma encodeFrameInto_spec:
  assumes "heap_wf h" "encodeFrameInto_pooled b t sid p fl h = (x, h')"
  shows "heap_wf h' \<and> grows h h' \<and> buf_ok h h' x (encodeFrameInto t sid p fl)"
proof (cases "classIndexForSize (HeaderSize + length p)")
  case (Some idx)
  obtain c h1 where g: "getPayload b idx h = (c, h1)" by fastforce
  note bounds = classIndexForSize_bounds [OF Some]
  have k: "heap_wf h1" "grows h h1" "c < length (cells h1)" "taken h h1 (cells h1 ! c)"
    "payloadClasses ! idx \<le> length (arrs h1 ! (cells h1 ! c))"
    using get_ok [OF assms(1) _ g] bounds by blast+
  let ?a = "cells h1 ! c" and ?n = "HeaderSize + length p"
  have len: "length (take ?n (arrs h1 ! ?a)) = ?n" using k(5) bounds by simp
  let ?new = "encodeFrameInto t sid p fl @ drop ?n (arrs h1 ! ?a)"
  have x: "x = ((?a, ?n), Some c)" "h' = h1\<lparr>arrs := (arrs h1)[?a := ?new]\<rparr>"
    using assms(2) Some g write_frame_eq [OF len] by (simp_all add: encodeFrameInto_pooled_def Let_def)
  have "length (encodeFrameInto t sid p fl) = ?n" by simp
  then have "slice_bytes h' (?a, ?n) = encodeFrameInto t sid p fl"
    using write_taken(4) [OF k(1,2,4), of ?new] by (simp add: slice_bytes_def x(2))
  with write_taken(1-3) [OF k(1,2,4), of ?new] k(3) show ?thesis by (simp add: buf_ok_def x)
next
  case None
  let ?n = "HeaderSize + length p"
  have x: "x = ((length (arrs h), ?n), None)" "h' = h\<lparr>arrs := arrs h @ [encodeFrameInto t sid p fl]\<rparr>"
    using assms(2) None by (simp_all add: encodeFrameInto_pooled_def write_frame_eq Let_def)
  have f: "free h' = free h" by (simp add: x free_def)
  have "a < length (arrs h)" if "a \<in> set (free h)" for a
    using assms(1) that by (fastforce simp: heap_wf_def free_def)
  then have "taken h h' (length (arrs h))" using f by (auto simp: taken_def x)
  moreover have "heap_wf h'" using assms(1) f by (auto simp: heap_wf_def x(2) free_def)
  moreover have "grows h h'" using f by (simp add: grows_def x(2) nth_append)
  ultimately show ?thesis by (simp add: buf_ok_def x slice_bytes_def)
qed

lemma encode_fragments_spec:
  assumes "heap_wf h" "encode_fragments_pooled b t sid p th off h = (xs, h')"
  shows "heap_wf h' \<and> grows h h' \<and> bufs_ok h h' xs (encode_fragments t sid p th off)"
  using assms
proof (induction "length p - off" arbitrary: off h xs h' rule: less_induct)
  case less
  show ?case
  proof (cases "off < length p \<and> 0 < th")
    case False
    have "encode_fragments_pooled b t sid p th off h = ([], h)"
      using False by (subst encode_fragments_pooled.simps) auto
    moreover have "encode_fragments t sid p th off = []" using False by (subst encode_fragments.simps) auto
    ultimately show ?thesis using less.prems by (simp add: bufs_ok_def)
  next
    case True
    define stop where "stop = (if off + th > length p then length p else off + th)"
    define fl where "fl = (if stop < length p then FlagMore else 0)"
    define chunk where "chunk = take (stop - off) (drop off p)"
    obtain x h1 where x: "encodeFrameInto_pooled b t sid chunk fl h = (x, h1)" by fastforce
    obtain ys h2 where ys: "encode_fragments_pooled b t sid p th stop h1 = (ys, h2)" by fastforce
    have e: "encode_fragments t sid p th off = encodeFrameInto t sid chunk fl # encode_fragments t sid p th stop"
      using True by (subst encode_fragments.simps) (simp add: stop_def fl_def chunk_def Let_def)
    have "encode_fragments_pooled b t sid p th off h = (x # ys, h2)"
      using True x ys by (subst encode_fragments_pooled.simps)
        (simp add: stop_def [symmetric] fl_def [symmetric] chunk_def [symmetric] Let_def)
    with less.prems(2) have r: "xs = x # ys" "h' = h2" by simp_all
    note 1 = encodeFrameInto_spec [OF less.prems(1) x]
    have "length p - stop < length p - off" using True by (auto simp: stop_def)
    from less.hyps [OF this _ ys] 1 have 2: "heap_wf h2 \<and> grows h1 h2 \<and> bufs_ok h1 h2 ys (encode_fragments t sid p th stop)"
      by blast
    have "bufs_ok h h2 (x # ys) (encodeFrameInto t sid chunk fl # encode_fragments t sid p th stop)"
      using 1 2 by (intro bufs_ok_Cons [of h h1]) blast+
    moreover have "grows h h2" using 1 2 grows_trans by blast
    ultimately show ?thesis using 2 unfolding r e by blast
  qed
qed

lemma encodeMessage_spec:
  assumes "heap_wf h" "encodeMessage_pooled b t sid p th h = (res, h')"
  shows "heap_wf h' \<and> grows h h' \<and>
    (case (encodeMessage t sid p th, res) of
       (Inl e, Inl e') \<Rightarrow> e = e'
     | (Inr bss, Inr msg) \<Rightarrow> bufs_ok h h' (em_buffers msg) bss \<and> (em_buf msg = None \<or> em_bufs msg = [])
     | _ \<Rightarrow> False)"
proof (cases "length p \<le> clamp_threshold th")
  case False
  obtain xs h1 where x: "encode_fragments_pooled b t sid p (clamp_threshold th) 0 h = (xs, h1)" by fastforce
  from encode_fragments_spec [OF assms(1) x] assms(2) False x show ?thesis
    by (auto simp: encodeMessage_pooled_def encodeMessage_def em_buffers_def Let_def)
next
  case True
  then have le: "length p \<le> MaxFrameSize" using clamp_threshold_bounds(2) [of th] by linarith
  show ?thesis
  proof (cases "length p = 0")
    case True
    with assms \<open>length p \<le> clamp_threshold th\<close> show ?thesis
      by (auto simp: encodeMessage_pooled_def encodeMessage_def encodeFrameBuffered_def Encode_def newFrame_def Let_def)
  next
    case False
    obtain x h1 where x: "encodeFrameInto_pooled b t sid p 0 h = (x, h1)" by fastforce
    have "encodeMessage t sid p th = Inr [encodeFrameInto t sid p 0]"
      using False \<open>length p \<le> clamp_threshold th\<close> by (intro encodeMessage_small) simp_all
    with encodeFrameInto_spec [OF assms(1) x] assms(2) False le x \<open>length p \<le> clamp_threshold th\<close> show ?thesis
      by (auto simp: encodeMessage_pooled_def encodeFrameBuffered_def em_buffers_def bufs_ok_def Let_def)
  qed
qed

text \<open>Returning an array of one's own keeps the pool in order.\<close>

lemma putPayloadArray_spec:
  assumes "heap_wf h" "a < length (arrs h)" "a \<notin> set (free h)"
    and "case cell of None \<Rightarrow> True | Some c \<Rightarrow> c < length (cells h) \<and> cells h ! c = a"
  shows "heap_wf (putPayloadArray b a cell h) \<and> set (free (putPayloadArray b a cell h)) \<subseteq> insert a (set (free h)) \<and>
    arrs (putPayloadArray b a cell h) = arrs h \<and> (\<exists>zs. cells (putPayloadArray b a cell h) = cells h @ zs)"
proof (cases "classIndexForCap (length (arrs h ! a))")
  case None
  then show ?thesis using assms(1) by (auto simp: putPayloadArray_def)
next
  case (Some idx)
  note idx = classIndexForCap_bounds [OF Some]
  show ?thesis
  proof (cases cell)
    case (Some c)
    with assms(4) have c: "c < length (cells h)" "cells h ! c = a" by simp_all
    with put_ok [OF assms(1) idx c(1)] assms(3) Some \<open>classIndexForCap _ = Some idx\<close> show ?thesis
      by (simp add: putPayloadArray_def)
  next
    case None
    let ?h = "h\<lparr>cells := cells h @ [a]\<rparr>"
    have cs: "\<And>c. c \<in> set (concat (pools h)) \<Longrightarrow> c < length (cells h)" using assms(1) unfolding heap_wf_def by blast
    then have f: "free ?h = free h" by (auto simp: free_def nth_append)
    have "heap_wf ?h" using assms(1,2) f by (auto simp: heap_wf_def less_SucI)
    from put_ok [OF this idx, of "length (cells h)"] assms(3) f None Some show ?thesis
      by (simp add: putPayloadArray_def)
  qed
qed

lemma release_cells_spec:
  assumes "heap_wf h" "distinct (map (fst \<circ> fst) xs)"
    and "\<And>x. x \<in> set xs \<Longrightarrow> fst (fst x) < length (arrs h) \<and> fst (fst x) \<notin> set (free h) \<and>
      (case snd x of None \<Rightarrow> True | Some c \<Rightarrow> c < length (cells h) \<and> cells h ! c = fst (fst x))"
  shows "heap_wf (fold (release_cell b) xs h) \<and> arrs (fold (release_cell b) xs h) = arrs h \<and>
    set (free (fold (release_cell b) xs h)) \<subseteq> set (free h) \<union> (fst \<circ> fst) ` set xs"
  using assms
proof (induction xs arbitrary: h)
  case (Cons x xs)
  let ?a = "fst (fst x)" and ?h = "release_cell b x h"
  have x: "?a < length (arrs h)" "?a \<notin> set (free h)"
    "case snd x of None \<Rightarrow> True | Some c \<Rightarrow> c < length (cells h) \<and> cells h ! c = ?a"
    using Cons.prems(3) [of x] by simp_all
  have h: "heap_wf ?h \<and> set (free ?h) \<subseteq> insert ?a (set (free h)) \<and> arrs ?h = arrs h \<and> (\<exists>zs. cells ?h = cells h @ zs)"
    using putPayloadArray_spec [OF Cons.prems(1) x] Cons.prems(1)
    by (auto simp: release_cell_def split: option.split)
  have "fst (fst y) < length (arrs ?h) \<and> fst (fst y) \<notin> set (free ?h) \<and>
      (case snd y of None \<Rightarrow> True | Some c \<Rightarrow> c < length (cells ?h) \<and> cells ?h ! c = fst (fst y))" if "y \<in> set xs" for y
  proof -
    have "fst (fst y) \<noteq> ?a" using Cons.prems(2) that by (force simp: image_iff)
    with Cons.prems(3) [of y] that h show ?thesis by (auto simp: nth_append split: option.splits)
  qed
  from Cons.IH [OF _ _ this] h Cons.prems(2) show ?case by auto
qed simp

lemma em_release_spec:
  assumes "heap_wf h'" "bufs_ok h h' (em_buffers msg) bss" "em_buf msg = None \<or> em_bufs msg = []"
  shows "heap_wf (snd (em_release b msg h')) \<and> arrs (snd (em_release b msg h')) = arrs h' \<and>
    em_release b (fst (em_release b msg h')) (snd (em_release b msg h')) = (fst (em_release b msg h'), snd (em_release b msg h'))"
proof -
  have x: "fst (fst x) < length (arrs h') \<and> fst (fst x) \<notin> set (free h') \<and>
      (case snd x of None \<Rightarrow> True | Some c \<Rightarrow> c < length (cells h') \<and> cells h' ! c = fst (fst x))"
    if "x \<in> set (em_buffers msg)" for x
  proof -
    from that obtain i where i: "i < length (em_buffers msg)" "x = em_buffers msg ! i" by (auto simp: in_set_conv_nth)
    then have "buf_ok h h' x (bss ! i)" using assms(2) list_all2_nthD [of "buf_ok h h'" "em_buffers msg" bss i]
      by (simp add: bufs_ok_def)
    then show ?thesis by (auto simp: buf_ok_def taken_def split: option.splits)
  qed
  show ?thesis
  proof (cases "em_buf msg")
    case None
    then have b: "em_buffers msg = em_bufs msg" by (simp add: em_buffers_def)
    from release_cells_spec [OF assms(1), of "em_bufs msg"] x assms(2) None show ?thesis
      by (simp add: b em_release_def bufs_ok_def)
  next
    case (Some y)
    then have b: "em_buffers msg = [y]" by (simp add: em_buffers_def)
    from Some assms(3) have "em_bufs msg = []" by simp
    then have "msg\<lparr>em_buf := None, em_bufs := []\<rparr> = msg\<lparr>em_buf := None\<rparr>" by (cases msg) simp
    with putPayloadArray_spec [OF assms(1), of "fst (fst y)" "snd y"] x [of y] Some \<open>em_bufs msg = []\<close> show ?thesis
      by (simp add: b em_release_def)
  qed
qed

end

section \<open>The production backend\<close>

lemma free_cells: "heap_wf h \<Longrightarrow> idx < length (pools h) \<Longrightarrow> c \<in> set (pools h ! idx) \<Longrightarrow> c < length (cells h)"
  by (auto simp: heap_wf_def)

lemma free_lt: "heap_wf h \<Longrightarrow> a \<in> set (free h) \<Longrightarrow> a < length (arrs h)"
  by (fastforce simp: heap_wf_def free_def)

lemma free_update:
  assumes "idx < length (pools h)"
  shows "mset (free (h\<lparr>pools := (pools h)[idx := cs]\<rparr>)) + image_mset ((!) (cells h)) (mset (pools h ! idx)) =
    mset (free h) + image_mset ((!) (cells h)) (mset cs)"
proof -
  have "mset (concat ((pools h)[idx := cs])) + mset (pools h ! idx) = mset (concat (pools h)) + mset cs"
    using assms by (simp add: upd_conv_take_nth_drop) (subst (4) id_take_nth_drop [OF assms], simp)
  then have "image_mset ((!) (cells h)) (mset (concat ((pools h)[idx := cs])) + mset (pools h ! idx)) =
      image_mset ((!) (cells h)) (mset (concat (pools h)) + mset cs)" by (simp only:)
  then show ?thesis by (simp add: free_def)
qed

lemma fresh_cell:
  assumes "heap_wf h" and h'_def: "h' = h\<lparr>arrs := arrs h @ [x], cells := cells h @ [length (arrs h)]\<rparr>"
  shows "heap_wf h' \<and> grows h h' \<and> length (cells h) < length (cells h') \<and> taken h h' (cells h' ! length (cells h)) \<and>
    arrs h' ! (cells h' ! length (cells h)) = x"
proof -
  have "\<And>c. c \<in> set (concat (pools h)) \<Longrightarrow> c < length (cells h)" using assms(1) unfolding heap_wf_def by blast
  then have f: "free h' = free h" by (auto simp: free_def nth_append h'_def)
  have "heap_wf h'" using assms(1) f by (auto simp: heap_wf_def h'_def less_SucI)
  moreover have "grows h h'" using f by (simp add: grows_def h'_def nth_append)
  moreover have "taken h h' (length (arrs h))" using free_lt [OF assms(1)] f by (auto simp: taken_def h'_def)
  ultimately show ?thesis by (simp add: h'_def)
qed

lemma unpool_cell:
  assumes "heap_wf h" "idx < length (pools h)" "k < length (pools h ! idx)"
    and c_def: "c = pools h ! idx ! k"
    and h'_def: "h' = h\<lparr>pools := (pools h)[idx := take k (pools h ! idx) @ drop (Suc k) (pools h ! idx)]\<rparr>"
  shows "heap_wf h' \<and> grows h h' \<and> c < length (cells h') \<and> taken h h' (cells h' ! c)"
proof -
  let ?cs = "take k (pools h ! idx) @ drop (Suc k) (pools h ! idx)"
  have m: "mset (pools h ! idx) = add_mset c (mset ?cs)"
    by (subst id_take_nth_drop [OF assms(3)]) (simp add: c_def)
  have free: "mset (free h) = add_mset (cells h ! c) (mset (free h'))"
    using free_update [OF assms(2), of ?cs] by (simp add: m h'_def)
  then have perm: "mset (free h) = mset (cells h ! c # free h')" by simp
  have d: "distinct (free h')" "cells h ! c \<notin> set (free h')"
    using mset_eq_imp_distinct_iff [OF perm] assms(1) by (simp_all add: heap_wf_def)
  have sub: "set (free h') \<subseteq> set (free h)" and mem: "cells h ! c \<in> set (free h)"
    using mset_eq_setD [OF perm] by auto
  have c: "c < length (cells h)" using free_cells [OF assms(1,2)] assms(3) by (simp add: c_def)
  have "set (concat (pools h')) \<subseteq> set (concat (pools h))"
    using assms(2) set_update_subset_insert [of "pools h" idx ?cs] by (fastforce simp: h'_def dest: in_set_takeD in_set_dropD)
  then have "heap_wf h'" using assms(1) d by (auto simp: heap_wf_def h'_def)
  moreover have "grows h h'" using sub by (simp add: grows_def h'_def)
  moreover have "taken h h' (cells h ! c)" using d mem free_lt [OF assms(1) mem] by (simp add: taken_def h'_def)
  ultimately show ?thesis using c by (simp add: h'_def)
qed

lemma sync_get_ok:
  assumes "heap_wf h" "idx < length payloadClasses" "sync_getPayload pick idx h = (c, h')"
  shows "heap_wf h' \<and> grows h h' \<and> c < length (cells h') \<and> taken h h' (cells h' ! c) \<and>
    payloadClasses ! idx \<le> length (arrs h' ! (cells h' ! c))"
proof -
  let ?new = "\<lambda>h. h\<lparr>arrs := arrs h @ [replicate (payloadClasses ! idx) 0], cells := cells h @ [length (arrs h)]\<rparr>"
  have fresh: ?thesis if "heap_wf g" "grows h g" "c = length (cells g)" "h' = ?new g" for g
    using fresh_cell [OF that(1), of "?new g" "replicate (payloadClasses ! idx) 0"] that(2-4)
      grows_trans [OF that(2), of h'] taken_grows [of g h' "cells h' ! c" h] by simp
  have len: "length (pools h) = length payloadClasses" using assms(1) by (simp add: heap_wf_def)
  show ?thesis
  proof (cases "\<exists>k. pick idx h = Some k \<and> k < length (pools h ! idx)")
    case False
    then have "c = length (cells h)" "h' = ?new h"
      using assms(3) by (auto simp: sync_getPayload_def Let_def split: option.splits if_splits)
    with fresh [of h] assms(1) show ?thesis by simp
  next
    case True
    then obtain k where k: "pick idx h = Some k" "k < length (pools h ! idx)" by blast
    define d where "d = pools h ! idx ! k"
    define g where "g = h\<lparr>pools := (pools h)[idx := take k (pools h ! idx) @ drop (Suc k) (pools h ! idx)]\<rparr>"
    have u: "heap_wf g \<and> grows h g \<and> d < length (cells g) \<and> taken h g (cells g ! d)"
      using assms(2) len k(2) by (intro unpool_cell [OF assms(1) _ _ d_def g_def]) simp_all
    show ?thesis
    proof (cases "payloadClasses ! idx \<le> length (arrs h ! (cells h ! d))")
      case True
      with assms(3) k have "c = d" "h' = g" by (simp_all add: sync_getPayload_def Let_def d_def g_def)
      with u True show ?thesis by (simp add: g_def)
    next
      case False
      with assms(3) k have "c = length (cells g)" "h' = ?new g" by (simp_all add: sync_getPayload_def Let_def d_def g_def)
      with fresh [of g] u show ?thesis by blast
    qed
  qed
qed

lemma sync_put_ok:
  assumes "heap_wf h" "idx < length payloadClasses" "c < length (cells h)" "cells h ! c \<notin> set (free h)"
  shows "heap_wf (sync_putPayload idx c h) \<and> set (free (sync_putPayload idx c h)) \<subseteq> insert (cells h ! c) (set (free h)) \<and>
    arrs (sync_putPayload idx c h) = arrs h \<and> cells (sync_putPayload idx c h) = cells h"
proof -
  let ?h = "sync_putPayload idx c h"
  have idx: "idx < length (pools h)" using assms(1,2) by (simp add: heap_wf_def)
  have perm: "mset (free ?h) = mset (cells h ! c # free h)"
    using free_update [OF idx, of "c # pools h ! idx"] by (simp add: sync_putPayload_def)
  have d: "distinct (free ?h)" using mset_eq_imp_distinct_iff [OF perm] assms(1,4) by (simp add: heap_wf_def)
  have "set (concat (pools ?h)) \<subseteq> insert c (set (concat (pools h)))"
    using idx set_update_subset_insert [of "pools h" idx "c # pools h ! idx"] by (fastforce simp: sync_putPayload_def)
  with assms(1,3) d have "heap_wf ?h" by (auto simp: heap_wf_def sync_putPayload_def)
  with mset_eq_setD [OF perm] show ?thesis by (auto simp: sync_putPayload_def)
qed

interpretation sync: pool_contract "syncPoolBackend pick" for pick
  by unfold_locales (simp_all add: syncPoolBackend_def sync_get_ok sync_put_ok)

section \<open>Properties of the pool\<close>

text \<open>
  C7. Encoding through the pool, whatever the pools return: it fails exactly when the pool-free encoder
  fails and with the same error, and otherwise puts exactly its bytes into buffers whose arrays are
  pairwise different, inside the heap and not in the pool, and leaves every array that somebody else
  holds alone. Releasing the message keeps every array in the pool at most once, and
  releasing it again does nothing.
\<close>

theorem pooled_message_lifecycle:
  assumes "heap_wf h" and "encodeMessage_pooled (syncPoolBackend pick) t sid p th h = (res, h')"
  shows "(\<forall>a < length (arrs h). a \<notin> set (free h) \<longrightarrow> arrs h' ! a = arrs h ! a) \<and>
    (case res of
       Inl e \<Rightarrow> encodeMessage t sid p th = Inl e
     | Inr msg \<Rightarrow>
         encodeMessage t sid p th = Inr (map (slice_bytes h' \<circ> fst) (em_buffers msg)) \<and>
         distinct (map (fst \<circ> fst) (em_buffers msg)) \<and>
         (\<forall>x \<in> set (em_buffers msg). fst (fst x) < length (arrs h') \<and> fst (fst x) \<notin> set (free h')) \<and>
         (\<forall>msg' h''. em_release (syncPoolBackend pick) msg h' = (msg', h'') \<longrightarrow>
            heap_wf h'' \<and> arrs h'' = arrs h' \<and> em_release (syncPoolBackend pick) msg' h'' = (msg', h'')))"
proof -
  note sp = sync.encodeMessage_spec [OF assms]
  have frame: "\<forall>a < length (arrs h). a \<notin> set (free h) \<longrightarrow> arrs h' ! a = arrs h ! a" using sp by (simp add: grows_def)
  show ?thesis
  proof (cases res)
    case (Inl e)
    with sp frame show ?thesis by (auto split: sum.splits)
  next
    case (Inr msg)
    with sp obtain bss where plain: "encodeMessage t sid p th = Inr bss" and ok: "bufs_ok h h' (em_buffers msg) bss"
      and one: "em_buf msg = None \<or> em_bufs msg = []" and wf: "heap_wf h'"
      by (auto split: sum.splits)
    have each: "i < length (em_buffers msg) \<Longrightarrow> buf_ok h h' (em_buffers msg ! i) (bss ! i)" for i
      using ok list_all2_nthD [of "buf_ok h h'" "em_buffers msg" bss i] by (simp add: bufs_ok_def)
    have "length bss = length (em_buffers msg)" using ok by (auto simp: bufs_ok_def dest: list_all2_lengthD)
    then have "bss = map (slice_bytes h' \<circ> fst) (em_buffers msg)"
      using each by (intro nth_equalityI) (simp_all add: buf_ok_def)
    with plain have bytes: "encodeMessage t sid p th = Inr (map (slice_bytes h' \<circ> fst) (em_buffers msg))" by simp
    have own: "\<forall>x \<in> set (em_buffers msg). fst (fst x) < length (arrs h') \<and> fst (fst x) \<notin> set (free h')"
    proof
      fix x assume "x \<in> set (em_buffers msg)"
      then obtain i where "i < length (em_buffers msg)" "x = em_buffers msg ! i" by (auto simp: in_set_conv_nth)
      with each [of i] show "fst (fst x) < length (arrs h') \<and> fst (fst x) \<notin> set (free h')" by (simp add: buf_ok_def taken_def)
    qed
    have again: "\<forall>msg' h''. em_release (syncPoolBackend pick) msg h' = (msg', h'') \<longrightarrow>
        heap_wf h'' \<and> arrs h'' = arrs h' \<and> em_release (syncPoolBackend pick) msg' h'' = (msg', h'')"
    proof (intro allI impI)
      fix msg' h'' assume "em_release (syncPoolBackend pick) msg h' = (msg', h'')"
      with sync.em_release_spec [OF wf ok one, of pick]
      show "heap_wf h'' \<and> arrs h'' = arrs h' \<and> em_release (syncPoolBackend pick) msg' h'' = (msg', h'')" by simp
    qed
    have own2: "distinct (map (fst \<circ> fst) (em_buffers msg))" using ok by (simp add: bufs_ok_def)
    show ?thesis unfolding Inr sum.case by (rule conjI [OF frame conjI [OF bytes conjI [OF own2 conjI [OF own again]]]])
  qed
qed

theorem pooled_message_lifecycle_witness:
  "\<exists>msg h'. encodeMessage_pooled (syncPoolBackend (\<lambda>_ _. Some 0)) PING 7 [1, 2, 3] 100
      \<lparr>arrs = [], cells = [], pools = replicate 7 []\<rparr> = (Inr msg, h') \<and>
    encodeMessage PING 7 [1, 2, 3] 100 = Inr (map (slice_bytes h' \<circ> fst) (em_buffers msg))"
proof -
  let ?h = "\<lparr>arrs = [], cells = [], pools = replicate 7 []\<rparr>"
  have wf: "heap_wf ?h" by (simp add: heap_wf_def free_def payloadClasses_def)
  obtain res h' where r: "encodeMessage_pooled (syncPoolBackend (\<lambda>_ _. Some 0)) PING 7 [1, 2, 3] 100 ?h = (res, h')" by fastforce
  have "encodeMessage PING 7 [1, 2, 3] 100 \<noteq> Inl e" for e
    using encodeMessage_Inr [of "[1, 2, 3]" PING 7 100] by fastforce
  with pooled_message_lifecycle [OF wf r] r show ?thesis by (auto split: sum.splits)
qed

end
