(* ===== verification/Reactor_Model.thy ===== *)
theory Reactor_Model
  imports Balancer_List
begin

text \<open>
  The reactor of \<open>pkg/reactor\<close>: options, connection registry, workers with their connection queue,
  connection handlers, dispatch, the accept loop and the staged shutdown. Every critical section and
  every atomic or channel operation is a function on the state, and \<open>re_step\<close> interleaves those of the
  accept loop and other callers of \<open>Dispatch\<close>, of the worker loops, of the connection handlers and of
  shutdown. Connections are numbers; what a handler's pipeline does between two sections is not
  restricted. The atomic counters are unbounded integers.
\<close>

section \<open>Options\<close>

record ServerOptions =
  Multicore :: bool
  NumWorkers :: int
  Listener :: string
  LockThread :: bool
  IdleTimeout :: int

definition NewServerOptions :: ServerOptions where
  "NewServerOptions =
     \<lparr>Multicore = False, NumWorkers = 0, Listener = ''127.0.0.1:8080'', LockThread = False, IdleTimeout = 0\<rparr>"

definition normalise_workers :: "nat \<Rightarrow> ServerOptions \<Rightarrow> ServerOptions" where
  "normalise_workers ncpu opts =
     (if NumWorkers opts \<le> 0 \<or> NumWorkers opts > int ncpu \<or> Multicore opts
      then opts\<lparr>NumWorkers := int ncpu\<rparr> else opts)"

definition GetNumWorkers :: "nat \<Rightarrow> ServerOptions \<Rightarrow> int \<times> ServerOptions" where
  "GetNumWorkers ncpu opts = (let o' = normalise_workers ncpu opts in (NumWorkers o', o'))"

definition GetListener :: "ServerOptions \<Rightarrow> string \<times> ServerOptions" where
  "GetListener opts =
     (let o' = (if Listener opts = '''' then opts\<lparr>Listener := ''127.0.0.1:8080''\<rparr> else opts) in (Listener o', o'))"

lemma GetNumWorkers_range:
  "0 < ncpu \<Longrightarrow> 1 \<le> fst (GetNumWorkers ncpu opts) \<and> fst (GetNumWorkers ncpu opts) \<le> int ncpu"
  by (auto simp: GetNumWorkers_def normalise_workers_def Let_def)

section \<open>Connections and the registry\<close>

text \<open>
  \<open>raw_closed\<close> holds the connections whose \<open>net.Conn\<close> is closed, \<open>lc_closed\<close> those whose
  \<open>lifecycleConn\<close> has its flag set. Closing a closed \<open>net.Conn\<close> is an error.
\<close>

record sockets =
  raw_closed :: "nat set"
  lc_closed :: "nat set"

definition raw_Close :: "nat \<Rightarrow> sockets \<Rightarrow> bool \<times> sockets" where
  "raw_Close c k = (c \<notin> raw_closed k, k\<lparr>raw_closed := insert c (raw_closed k)\<rparr>)"

definition lifecycleConn_Close :: "nat \<Rightarrow> sockets \<Rightarrow> bool \<times> sockets" where
  "lifecycleConn_Close c k =
     (if c \<in> lc_closed k then (True, k) else raw_Close c (k\<lparr>lc_closed := insert c (lc_closed k)\<rparr>))"

record ConnectionRegistry =
  conns :: "nat list"
  reg_closed :: bool

definition NewConnectionRegistry :: ConnectionRegistry where
  "NewConnectionRegistry = \<lparr>conns = [], reg_closed = False\<rparr>"

definition registry_Add :: "nat \<Rightarrow> ConnectionRegistry \<Rightarrow> bool \<times> ConnectionRegistry" where
  "registry_Add c r = (if reg_closed r then (False, r) else (True, r\<lparr>conns := List.insert c (conns r)\<rparr>))"

definition registry_Remove :: "nat \<Rightarrow> ConnectionRegistry \<Rightarrow> ConnectionRegistry" where
  "registry_Remove c r = r\<lparr>conns := removeAll c (conns r)\<rparr>"

definition registry_Len :: "ConnectionRegistry \<Rightarrow> nat" where
  "registry_Len r = length (conns r)"

fun close_each :: "nat list \<Rightarrow> sockets \<Rightarrow> nat \<times> sockets" where
  "close_each [] k = (0, k)"
| "close_each (c # cs) k =
     (let (ok, k1) = lifecycleConn_Close c k; (n, k2) = close_each cs k1
      in (if ok then Suc n else n, k2))"

definition registry_CloseAll :: "ConnectionRegistry \<Rightarrow> sockets \<Rightarrow> nat \<times> ConnectionRegistry \<times> sockets" where
  "registry_CloseAll r k =
     (let (n, k') = close_each (conns r) k in (n, r\<lparr>conns := [], reg_closed := True\<rparr>, k'))"

section \<open>Workers and handlers\<close>

text \<open>
  Where the loop of a worker stands: before \<open>Run\<close>, at its select, with a connection taken from the
  queue, registered, counted in \<open>active\<close>, counted in the worker, rejected by the registry, in
  \<open>closePending\<close>, or returned; the flag tells whether a rejection made it leave.
\<close>

datatype loop_pc =
    LNew | LSelect | LGot nat | LAdded nat | LStarted nat | LCounted nat | LRejected nat
  | LPending bool | LExited bool

record Worker = backend +
  newCh :: "nat list"
  wcount :: int
  ctx_done :: bool
  loop :: loop_pc

text \<open>
  Where \<open>handleConnection\<close> stands: in the initializer, in the read loop, or before one of the
  sections that undo its registration; the flag tells whether the initializer failed.
\<close>

datatype handler_pc =
    HInit | HRead | HClose bool | HRemove bool | HInactive | HCount bool | HFinish bool | HDone

text \<open>A call of \<open>AddConn\<close>: the connection, the worker, and whether the send has happened.\<close>

type_synonym add_call = "nat \<times> string \<times> bool"
type_synonym handler_run = "nat \<times> string \<times> handler_pc"

datatype stage = Serving | ListenerClosed | Swept | Cancelled | Returned bool

record Reactor =
  workers :: "Worker list"
  registry :: ConnectionRegistry
  sockets :: sockets
  active :: int
  handlers :: "handler_run multiset"
  adds :: "add_call multiset"
  known :: "nat set"
  stage :: stage
  crashed :: bool

definition newCh_cap :: nat where
  "newCh_cap = 100"

definition NewWorker :: "nat \<Rightarrow> Worker" where
  "NewWorker i = \<lparr>Id = ''worker:'' @ itoa i, newCh = [], wcount = 0, ctx_done = False, loop = LNew\<rparr>"

text \<open>
  The loop of \<open>NewWorkerGroup\<close> that registers the workers in the balancer; the first error ends it.
\<close>

fun register_workers ::
  "('s \<Rightarrow> Worker \<Rightarrow> 's \<times> 'e option) \<Rightarrow> nat \<Rightarrow> nat \<Rightarrow> 's \<Rightarrow> 'e + 's" where
  "register_workers reg i 0 s = Inr s"
| "register_workers reg i (Suc n) s =
     (case reg s (NewWorker i) of
        (s', Some e) \<Rightarrow> Inl e
      | (s', None) \<Rightarrow> register_workers reg (Suc i) n s')"

definition NewWorkerGroup ::
  "nat \<Rightarrow> ServerOptions \<Rightarrow> ('s \<Rightarrow> Worker \<Rightarrow> 's \<times> 'e option) \<Rightarrow> 's \<Rightarrow> 'e + 's" where
  "NewWorkerGroup ncpu opts reg s =
     register_workers reg 0 (nat (NumWorkers (normalise_workers ncpu opts))) s"

definition initial_reactor :: "Worker list \<Rightarrow> Reactor" where
  "initial_reactor ws =
     \<lparr>workers = ws, registry = NewConnectionRegistry, sockets = \<lparr>raw_closed = {}, lc_closed = {}\<rparr>,
      active = 0, handlers = {#}, adds = {#}, known = {}, stage = Serving, crashed = False\<rparr>"

text \<open>
  \<open>NewReactor\<close>: the answers of \<open>url.Parse\<close>, \<open>net.Listen\<close> and \<open>NewWorkerGroup\<close> are arguments. The result
  comes with the state of the listener: never bound, or whether it is open.
\<close>

datatype 'e setup_err = BadOptions | ParseErr | ListenErr | GroupErr 'e

definition NewReactor ::
  "ServerOptions option \<Rightarrow> (string \<Rightarrow> (string \<times> string) option) \<Rightarrow> (string \<times> string \<Rightarrow> bool) \<Rightarrow>
   (ServerOptions \<Rightarrow> 'e + Worker list) \<Rightarrow> ('e setup_err + Reactor) \<times> bool option" where
  "NewReactor opts parse listen grp =
     (case opts of
        None \<Rightarrow> (Inl BadOptions, None)
      | Some so \<Rightarrow>
          (case parse (Listener so) of
             None \<Rightarrow> (Inl ParseErr, None)
           | Some addr \<Rightarrow>
               (if \<not> listen addr then (Inl ListenErr, None)
                else case grp so of
                       Inl e \<Rightarrow> (Inl (GroupErr e), Some False)
                     | Inr ws \<Rightarrow> (Inr (initial_reactor ws), Some True))))"

lemma NewReactor_listener:
  "snd (NewReactor opts parse listen grp) = Some True \<longleftrightarrow> (\<exists>r. fst (NewReactor opts parse listen grp) = Inr r)"
  by (auto simp: NewReactor_def split: option.splits sum.splits)

definition TotalCount :: "Reactor \<Rightarrow> int" where
  "TotalCount s = sum_list (map wcount (workers s))"

section \<open>The sections\<close>

definition close_raw :: "nat \<Rightarrow> Reactor \<Rightarrow> Reactor" where
  "close_raw c s = s\<lparr>sockets := snd (raw_Close c (sockets s))\<rparr>"

definition close_lc :: "nat \<Rightarrow> Reactor \<Rightarrow> Reactor" where
  "close_lc c s = s\<lparr>sockets := snd (lifecycleConn_Close c (sockets s))\<rparr>"

text \<open>
  \<open>Dispatch\<close>, given what the balancer answered: an error, no worker, or a worker, whose \<open>AddConn\<close> is
  then called.
\<close>

definition Dispatch :: "nat \<Rightarrow> bal_err + Worker option \<Rightarrow> Reactor \<Rightarrow> Reactor" where
  "Dispatch c answer s =
     (let s' = s\<lparr>known := insert c (known s)\<rparr> in
      case answer of
        Inl e \<Rightarrow> close_raw c s'
      | Inr None \<Rightarrow> close_raw c s'
      | Inr (Some w) \<Rightarrow> s'\<lparr>adds := add_mset (c, Id w, False) (adds s)\<rparr>)"

text \<open>
  The two selects of \<open>AddConn\<close>. The send blocks while the queue is full; after it, or instead of it, a
  cancelled worker makes the call close the connection and fail (\<open>Some True\<close>), and after the send a
  worker that is not cancelled lets it succeed (\<open>Some False\<close>).
\<close>

definition AddConn_send :: "nat \<Rightarrow> Worker \<Rightarrow> Worker option" where
  "AddConn_send c w = (if length (newCh w) < newCh_cap then Some (w\<lparr>newCh := newCh w @ [c]\<rparr>) else None)"

definition AddConn_check :: "bool \<Rightarrow> Worker \<Rightarrow> bool option" where
  "AddConn_check sent w = (if ctx_done w then Some True else if sent then Some False else None)"

text \<open>One round of \<open>closePending\<close>: the connection it closes, or the return of the worker loop.\<close>

definition closePending :: "bool \<Rightarrow> Worker \<Rightarrow> nat option \<times> Worker" where
  "closePending rej w =
     (case newCh w of
        c # q \<Rightarrow> (Some c, w\<lparr>newCh := q\<rparr>)
      | [] \<Rightarrow> (None, w\<lparr>loop := LExited rej\<rparr>))"

text \<open>
  The worker loop at \<open>registry.Add\<close>, and a handler's sections after it ended.
\<close>

definition loop_register :: "nat \<Rightarrow> ConnectionRegistry \<Rightarrow> loop_pc \<times> ConnectionRegistry" where
  "loop_register c r = (case registry_Add c r of (True, r') \<Rightarrow> (LAdded c, r') | (False, r') \<Rightarrow> (LRejected c, r'))"

fun handler_next :: "handler_pc \<Rightarrow> handler_pc" where
  "handler_next (HClose f) = HRemove f"
| "handler_next (HRemove f) = (if f then HCount f else HInactive)"
| "handler_next HInactive = HCount False"
| "handler_next (HCount f) = HFinish f"
| "handler_next (HFinish f) = HDone"
| "handler_next pc = pc"

fun handler_section :: "nat \<Rightarrow> handler_pc \<Rightarrow> Reactor \<Rightarrow> Reactor" where
  "handler_section c (HClose f) s = close_lc c s"
| "handler_section c (HRemove f) s = s\<lparr>registry := registry_Remove c (registry s)\<rparr>"
| "handler_section c (HFinish f) s = s\<lparr>active := active s - 1, crashed := crashed s \<or> f\<rparr>"
| "handler_section c pc s = s"

definition bump :: "string \<Rightarrow> int \<Rightarrow> Worker list \<Rightarrow> Worker list" where
  "bump i d ws = map (\<lambda>w. if Id w = i then w\<lparr>wcount := wcount w + d\<rparr> else w) ws"

definition cancel_all :: "Worker list \<Rightarrow> Worker list" where
  "cancel_all ws = map (\<lambda>w. w\<lparr>ctx_done := True\<rparr>) ws"

definition shutdown_sweep :: "Reactor \<Rightarrow> Reactor" where
  "shutdown_sweep s =
     (let (n, r, k) = registry_CloseAll (registry s) (sockets s) in s\<lparr>registry := r, sockets := k, stage := Swept\<rparr>)"

text \<open>
  The group's \<open>Stop\<close> cancels every worker its balancer lists; \<open>Worker.Stop\<close> one of them. \<open>Register\<close> is
  \<open>Dispatch\<close> with its error reported to the listener, \<open>Next\<close> the balancer's answer for the empty key.
\<close>

definition Worker_Stop :: "Worker \<Rightarrow> Worker" where
  "Worker_Stop w = w\<lparr>ctx_done := True\<rparr>"

definition WorkerGroup_Stop :: "Worker list \<Rightarrow> Worker list" where
  "WorkerGroup_Stop ws = map Worker_Stop ws"

definition Reactor_Register :: "nat \<Rightarrow> bal_err + Worker option \<Rightarrow> Reactor \<Rightarrow> Reactor \<times> bool" where
  "Reactor_Register c answer s = (Dispatch c answer s, (case answer of Inr (Some w) \<Rightarrow> False | _ \<Rightarrow> True))"

definition Reactor_Next :: "bal_err + Worker option \<Rightarrow> Worker option" where
  "Reactor_Next answer = (case answer of Inl err \<Rightarrow> None | Inr w \<Rightarrow> w)"

definition Worker_Count :: "Worker \<Rightarrow> int" where
  "Worker_Count w = wcount w"

lemma WorkerGroup_Stop_cancels: "WorkerGroup_Stop ws = cancel_all ws"
  by (simp add: WorkerGroup_Stop_def cancel_all_def Worker_Stop_def)

definition Reactor_Stop :: "Reactor \<Rightarrow> Reactor" where
  "Reactor_Stop s = s\<lparr>workers := cancel_all (workers s)\<rparr>"

text \<open>\<open>AwaitDone\<close>: whatever the number of polls, the answer is whether the last load was zero.\<close>

definition AwaitDone :: "int \<Rightarrow> bool" where
  "AwaitDone act \<longleftrightarrow> act = 0"

section \<open>The accept loop\<close>

datatype accept_result = Accepted nat | AcceptErr bool

datatype accept_next = StopQuiet | StopReport | RetryAfter nat | Serve nat

text \<open>
  One iteration after \<open>Accept\<close> returned, with the delay in milliseconds; \<open>AcceptErr True\<close> is
  \<open>net.ErrClosed\<close>.
\<close>

definition next_delay :: "nat \<Rightarrow> nat" where
  "next_delay d = (if d = 0 then 5 else if d * 2 > 1000 then 1000 else d * 2)"

definition accept_iter :: "bool \<Rightarrow> bool \<Rightarrow> nat \<Rightarrow> accept_result \<Rightarrow> accept_next" where
  "accept_iter stopping cancelled d res =
     (case res of
        Accepted c \<Rightarrow> Serve c
      | AcceptErr closed \<Rightarrow>
          (if stopping then StopQuiet
           else if cancelled then StopQuiet
           else if closed then StopReport
           else RetryAfter (next_delay d)))"

text \<open>
  The loop over its iterations: whether the context is done before \<open>Accept\<close>, whether the reactor is
  stopping and the context done after it, and what \<open>Accept\<close> returned.
\<close>

fun accept_loop :: "nat \<Rightarrow> (bool \<times> bool \<times> bool \<times> accept_result) list \<Rightarrow> accept_next list" where
  "accept_loop d [] = []"
| "accept_loop d ((cancelled_before, stopping, cancelled, r) # rs) =
     (if cancelled_before then [StopQuiet]
      else case accept_iter stopping cancelled d r of
             Serve c \<Rightarrow> Serve c # accept_loop 0 rs
           | RetryAfter d' \<Rightarrow> RetryAfter d' # accept_loop d' rs
           | stop \<Rightarrow> [stop])"

text \<open>While \<open>Accept\<close> keeps failing the waits double from 5 ms and are capped at one second.\<close>

lemma accept_loop_delays:
  assumes "k < n"
  shows "accept_loop 0 (replicate n (False, False, False, AcceptErr False)) ! k = RetryAfter (min 1000 (5 * 2 ^ k))"
proof -
  let ?fail = "(False, False, False, AcceptErr False)"
  have gen: "accept_loop (min 1000 (5 * 2 ^ j)) (replicate n ?fail) ! k = RetryAfter (min 1000 (5 * 2 ^ (Suc j + k)))"
    if "k < n" for j k n
    using that
  proof (induction n arbitrary: j k)
    case (Suc n)
    have "next_delay (min 1000 (5 * 2 ^ j)) = min 1000 (5 * 2 ^ Suc j)"
      by (auto simp: next_delay_def min_def)
    with Suc.prems Suc.IH [of _ "Suc j"] show ?case by (cases k) (simp_all add: accept_iter_def)
  qed simp
  show ?thesis
  proof (cases n)
    case (Suc m)
    then have "accept_loop 0 (replicate n ?fail) = RetryAfter 5 # accept_loop (min 1000 (5 * 2 ^ 0)) (replicate m ?fail)"
      by (simp add: accept_iter_def next_delay_def)
    with assms Suc gen [of _ m 0] show ?thesis by (cases k) auto
  qed (use assms in simp)
qed

section \<open>Interleaving\<close>

text \<open>
  \<open>re_step\<close>: one section of one goroutine. Any connection not seen before may be dispatched at any time
  (the accept loop may hold one when the listener closes, and \<open>Register\<close> is public), with any answer
  of the balancer that names a worker of the group or fails. \<open>cancel\<close> is \<open>Worker.Stop\<close>,
  \<open>stop\<close> is \<open>Reactor.Stop\<close> and \<open>unregister\<close> the public \<open>Unregister\<close>. A failed initializer ends in a panic that
  takes the program down, after which nothing runs.
\<close>

inductive re_step :: "Reactor \<Rightarrow> Reactor \<Rightarrow> bool" where
  dispatch:
    "\<not> crashed s \<Longrightarrow> c \<notin> known s \<Longrightarrow> c \<notin> raw_closed (sockets s) \<Longrightarrow>
     (case answer of Inr (Some w) \<Rightarrow> w \<in> set (workers s) | _ \<Rightarrow> True) \<Longrightarrow>
     re_step s (Dispatch c answer s)"
| add_send:
    "\<not> crashed s \<Longrightarrow> adds s = add_mset (c, i, False) A \<Longrightarrow> workers s = us @ w # vs \<Longrightarrow> Id w = i \<Longrightarrow>
     AddConn_send c w = Some w' \<Longrightarrow>
     re_step s (s\<lparr>adds := add_mset (c, i, True) A, workers := us @ w' # vs\<rparr>)"
| add_stopped:
    "\<not> crashed s \<Longrightarrow> adds s = add_mset (c, i, sent) A \<Longrightarrow> w \<in> set (workers s) \<Longrightarrow> Id w = i \<Longrightarrow>
     AddConn_check sent w = Some True \<Longrightarrow>
     re_step s (close_raw c (s\<lparr>adds := A\<rparr>))"
| add_return:
    "\<not> crashed s \<Longrightarrow> adds s = add_mset (c, i, sent) A \<Longrightarrow> w \<in> set (workers s) \<Longrightarrow> Id w = i \<Longrightarrow>
     AddConn_check sent w = Some False \<Longrightarrow>
     re_step s (s\<lparr>adds := A\<rparr>)"
| loop_run:
    "\<not> crashed s \<Longrightarrow> workers s = us @ w # vs \<Longrightarrow> loop w = LNew \<Longrightarrow>
     re_step s (s\<lparr>workers := us @ w\<lparr>loop := LSelect\<rparr> # vs\<rparr>)"
| loop_receive:
    "\<not> crashed s \<Longrightarrow> workers s = us @ w # vs \<Longrightarrow> loop w = LSelect \<Longrightarrow> newCh w = c # q \<Longrightarrow>
     re_step s (s\<lparr>workers := us @ w\<lparr>loop := LGot c, newCh := q\<rparr> # vs\<rparr>)"
| loop_cancelled:
    "\<not> crashed s \<Longrightarrow> workers s = us @ w # vs \<Longrightarrow> loop w = LSelect \<Longrightarrow> ctx_done w \<Longrightarrow>
     re_step s (s\<lparr>workers := us @ w\<lparr>loop := LPending False\<rparr> # vs\<rparr>)"
| loop_registry:
    "\<not> crashed s \<Longrightarrow> workers s = us @ w # vs \<Longrightarrow> loop w = LGot c \<Longrightarrow> loop_register c (registry s) = (pc, r) \<Longrightarrow>
     re_step s (s\<lparr>workers := us @ w\<lparr>loop := pc\<rparr> # vs, registry := r\<rparr>)"
| loop_rejected:
    "\<not> crashed s \<Longrightarrow> workers s = us @ w # vs \<Longrightarrow> loop w = LRejected c \<Longrightarrow>
     re_step s (close_raw c (s\<lparr>workers := us @ w\<lparr>loop := LPending True\<rparr> # vs\<rparr>))"
| loop_started:
    "\<not> crashed s \<Longrightarrow> workers s = us @ w # vs \<Longrightarrow> loop w = LAdded c \<Longrightarrow>
     re_step s (s\<lparr>workers := us @ w\<lparr>loop := LStarted c\<rparr> # vs, active := active s + 1\<rparr>)"
| loop_counted:
    "\<not> crashed s \<Longrightarrow> workers s = us @ w # vs \<Longrightarrow> loop w = LStarted c \<Longrightarrow>
     re_step s (s\<lparr>workers := us @ w\<lparr>loop := LCounted c, wcount := wcount w + 1\<rparr> # vs\<rparr>)"
| loop_spawn:
    "\<not> crashed s \<Longrightarrow> workers s = us @ w # vs \<Longrightarrow> loop w = LCounted c \<Longrightarrow>
     re_step s (s\<lparr>workers := us @ w\<lparr>loop := LSelect\<rparr> # vs, handlers := add_mset (c, Id w, HInit) (handlers s)\<rparr>)"
| pending_close:
    "\<not> crashed s \<Longrightarrow> workers s = us @ w # vs \<Longrightarrow> loop w = LPending rej \<Longrightarrow> closePending rej w = (Some c, w') \<Longrightarrow>
     re_step s (close_raw c (s\<lparr>workers := us @ w' # vs\<rparr>))"
| pending_return:
    "\<not> crashed s \<Longrightarrow> workers s = us @ w # vs \<Longrightarrow> loop w = LPending rej \<Longrightarrow> closePending rej w = (None, w') \<Longrightarrow>
     re_step s (s\<lparr>workers := us @ w' # vs\<rparr>)"
| handler_init:
    "\<not> crashed s \<Longrightarrow> handlers s = add_mset (c, i, HInit) H \<Longrightarrow> pc \<in> {HRead, HClose True} \<Longrightarrow>
     re_step s (s\<lparr>handlers := add_mset (c, i, pc) H\<rparr>)"
| handler_closes:
    "\<not> crashed s \<Longrightarrow> (c, i, HRead) \<in># handlers s \<Longrightarrow> re_step s (close_lc c s)"
| handler_returns:
    "\<not> crashed s \<Longrightarrow> handlers s = add_mset (c, i, HRead) H \<Longrightarrow>
     re_step s (s\<lparr>handlers := add_mset (c, i, HClose False) H\<rparr>)"
| handler_undo:
    "\<not> crashed s \<Longrightarrow> handlers s = add_mset (c, i, pc) H \<Longrightarrow> pc \<notin> {HInit, HRead, HDone} \<Longrightarrow>
     (\<forall>f. pc \<noteq> HCount f) \<Longrightarrow>
     re_step s ((handler_section c pc s)\<lparr>handlers := add_mset (c, i, handler_next pc) H\<rparr>)"
| handler_uncount:
    "\<not> crashed s \<Longrightarrow> handlers s = add_mset (c, i, HCount f) H \<Longrightarrow>
     re_step s (s\<lparr>workers := bump i (- 1) (workers s), handlers := add_mset (c, i, HFinish f) H\<rparr>)"
| unregister:
    "\<not> crashed s \<Longrightarrow> c \<in> known s \<Longrightarrow> re_step s (close_raw c s)"
| cancel:
    "\<not> crashed s \<Longrightarrow> workers s = us @ w # vs \<Longrightarrow>
     re_step s (s\<lparr>workers := us @ w\<lparr>ctx_done := True\<rparr> # vs\<rparr>)"
| stop:
    "\<not> crashed s \<Longrightarrow> re_step s (Reactor_Stop s)"
| shutdown_listener:
    "\<not> crashed s \<Longrightarrow> stage s = Serving \<Longrightarrow> re_step s (s\<lparr>stage := ListenerClosed\<rparr>)"
| shutdown_sweep:
    "\<not> crashed s \<Longrightarrow> stage s = ListenerClosed \<Longrightarrow> re_step s (shutdown_sweep s)"
| shutdown_cancel:
    "\<not> crashed s \<Longrightarrow> stage s = Swept \<Longrightarrow> re_step s ((Reactor_Stop s)\<lparr>stage := Cancelled\<rparr>)"
| shutdown_await:
    "\<not> crashed s \<Longrightarrow> stage s = Cancelled \<Longrightarrow> re_step s (s\<lparr>stage := Returned (AwaitDone (active s))\<rparr>)"

inductive re_reach :: "nat \<Rightarrow> Reactor \<Rightarrow> bool" for n where
  start: "re_reach n (initial_reactor (map NewWorker [0..<n]))"
| step: "re_reach n s \<Longrightarrow> re_step s s' \<Longrightarrow> re_reach n s'"

inductive_cases re_stepE: "re_step s s'"

section \<open>The stages of shutdown\<close>

text \<open>The stages in their order; the final one comes with the answer of \<open>AwaitDone\<close>.\<close>

fun stage_rank :: "stage \<Rightarrow> nat" where
  "stage_rank Serving = 0"
| "stage_rank ListenerClosed = 1"
| "stage_rank Swept = 2"
| "stage_rank Cancelled = 3"
| "stage_rank (Returned ok) = (if ok then 5 else 4)"

lemma stage_rank_inject: "stage_rank a = stage_rank b \<longleftrightarrow> a = b"
  by (cases a; cases b) (auto split: if_splits)

instantiation stage :: linorder
begin

definition less_eq_stage :: "stage \<Rightarrow> stage \<Rightarrow> bool" where
  "less_eq_stage a b \<longleftrightarrow> stage_rank a \<le> stage_rank b"

definition less_stage :: "stage \<Rightarrow> stage \<Rightarrow> bool" where
  "less_stage a b \<longleftrightarrow> stage_rank a < stage_rank b"

instance
  by standard (auto simp: less_eq_stage_def less_stage_def stage_rank_inject)

end

lemma stage_sections [simp]:
  "stage (Dispatch c answer s) = stage s" "stage (close_raw c s) = stage s" "stage (close_lc c s) = stage s"
  "stage (Reactor_Stop s) = stage s" "stage (handler_section c pc s) = stage s" "stage (shutdown_sweep s) = Swept"
  "crashed (Dispatch c answer s) = crashed s"
  by (auto simp: Dispatch_def close_raw_def close_lc_def Reactor_Stop_def shutdown_sweep_def Let_def case_prod_beta
      split: sum.splits option.splits handler_pc.splits)
    (cases pc; simp add: close_lc_def)

text \<open>Shutdown only moves forward, and nothing runs after a crash.\<close>

lemma stage_forward: "re_step s s' \<Longrightarrow> stage s \<le> stage s'"
  by (erule re_stepE) (auto simp: less_eq_stage_def)

lemma crashed_stuck: "crashed s \<Longrightarrow> \<not> re_step s s'"
  by (auto elim: re_stepE)

lemma registry_sections:
  "reg_closed (registry (Dispatch c answer s)) = reg_closed (registry s)"
  "reg_closed (registry (close_raw c s)) = reg_closed (registry s)"
  "reg_closed (registry (close_lc c s)) = reg_closed (registry s)"
  "reg_closed (registry (Reactor_Stop s)) = reg_closed (registry s)"
  "reg_closed (registry (shutdown_sweep s))"
  "reg_closed (registry (handler_section c pc s)) = reg_closed (registry s)"
  by (auto simp: Dispatch_def close_raw_def close_lc_def Reactor_Stop_def shutdown_sweep_def registry_CloseAll_def Let_def
      case_prod_beta split: sum.splits option.splits)
    (cases pc; simp add: close_lc_def registry_Remove_def)+

text \<open>The registry refuses connections exactly from the sweep on.\<close>

lemma reg_closed_stage: "re_reach n s \<Longrightarrow> reg_closed (registry s) \<longleftrightarrow> Swept \<le> stage s"
proof (induction rule: re_reach.induct)
  case start
  show ?case by (simp add: initial_reactor_def NewConnectionRegistry_def less_eq_stage_def)
next
  case (step s s')
  from step(2,3) show ?case
  proof cases
    case (loop_registry us w vs c pc r)
    with step(3) show ?thesis by (auto simp: loop_register_def registry_Add_def split: if_splits)
  qed (auto simp: registry_sections less_eq_stage_def)
qed

end
