(* ===== verification/Reactor_Safety.thy ===== *)
theory Reactor_Safety
  imports Reactor_Model
begin

text \<open>
  What the interleavings of \<open>re_step\<close> preserve: every connection handed to the reactor is in one place
  only or closed, a connection with a handler is known to the registry or closed, the two counters
  count the handlers, and a worker that stopped because it was cancelled leaves nothing open behind.
\<close>

section \<open>Where connections are\<close>

fun loop_conn :: "loop_pc \<Rightarrow> nat list" where
  "loop_conn (LGot c) = [c]"
| "loop_conn (LAdded c) = [c]"
| "loop_conn (LStarted c) = [c]"
| "loop_conn (LCounted c) = [c]"
| "loop_conn (LRejected c) = [c]"
| "loop_conn pc = []"

definition worker_places :: "Worker \<Rightarrow> nat multiset" where
  "worker_places w = mset (newCh w) + mset (loop_conn (loop w))"

definition places :: "Reactor \<Rightarrow> nat multiset" where
  "places s = image_mset fst (filter_mset (\<lambda>a. \<not> snd (snd a)) (adds s))
     + sum_list (map worker_places (workers s)) + image_mset fst (handlers s)"

lemma worker_places_simps [simp]:
  "worker_places (w\<lparr>wcount := n\<rparr>) = worker_places w"
  "worker_places (w\<lparr>ctx_done := b\<rparr>) = worker_places w"
  "worker_places (w\<lparr>newCh := q\<rparr>) = mset q + mset (loop_conn (loop w))"
  "worker_places (w\<lparr>loop := pc\<rparr>) = mset (newCh w) + mset (loop_conn pc)"
  by (simp_all add: worker_places_def)

lemma sum_places_map:
  "(\<And>w. worker_places (f w) = worker_places w) \<Longrightarrow>
     sum_list (map worker_places (map f ws)) = sum_list (map worker_places ws)"
  by (induction ws) auto

lemma bump_places [simp]: "sum_list (map worker_places (bump i d ws)) = sum_list (map worker_places ws)"
  unfolding bump_def by (rule sum_places_map) auto

lemma cancel_places [simp]: "sum_list (map worker_places (cancel_all ws)) = sum_list (map worker_places ws)"
  unfolding cancel_all_def by (rule sum_places_map) auto

lemma AddConn_send_Some: "AddConn_send c w = Some w' \<longleftrightarrow> length (newCh w) < newCh_cap \<and> w' = w\<lparr>newCh := newCh w @ [c]\<rparr>"
  by (auto simp: AddConn_send_def)

lemma closePending_iff:
  "closePending rej w = (Some c, w') \<longleftrightarrow> (\<exists>q. newCh w = c # q \<and> w' = w\<lparr>newCh := q\<rparr>)"
  "closePending rej w = (None, w') \<longleftrightarrow> newCh w = [] \<and> w' = w\<lparr>loop := LExited rej\<rparr>"
  by (auto simp: closePending_def split: list.splits)

lemma AddConn_check_iff:
  "AddConn_check sent w = Some True \<longleftrightarrow> ctx_done w" "AddConn_check sent w = Some False \<longleftrightarrow> sent \<and> \<not> ctx_done w"
  by (auto simp: AddConn_check_def)

lemmas section_iffs = AddConn_send_Some closePending_iff AddConn_check_iff

lemma raw_Close_simps [simp]:
  "raw_closed (snd (raw_Close c k)) = insert c (raw_closed k)" "lc_closed (snd (raw_Close c k)) = lc_closed k"
  by (simp_all add: raw_Close_def)

lemma lifecycleConn_Close_simps:
  "raw_closed k \<subseteq> raw_closed (snd (lifecycleConn_Close c k))"
  "lc_closed (snd (lifecycleConn_Close c k)) = insert c (lc_closed k)"
  "lc_closed k \<subseteq> raw_closed k \<Longrightarrow> raw_closed (snd (lifecycleConn_Close c k)) = insert c (raw_closed k)"
  by (auto simp: lifecycleConn_Close_def)

lemma close_simps [simp]:
  "workers (close_raw c s) = workers s" "registry (close_raw c s) = registry s" "active (close_raw c s) = active s"
  "handlers (close_raw c s) = handlers s" "adds (close_raw c s) = adds s" "known (close_raw c s) = known s"
  "raw_closed (sockets (close_raw c s)) = insert c (raw_closed (sockets s))"
  "lc_closed (sockets (close_raw c s)) = lc_closed (sockets s)"
  "workers (close_lc c s) = workers s" "registry (close_lc c s) = registry s" "active (close_lc c s) = active s"
  "handlers (close_lc c s) = handlers s" "adds (close_lc c s) = adds s" "known (close_lc c s) = known s"
  "lc_closed (sockets (close_lc c s)) = insert c (lc_closed (sockets s))"
  by (simp_all add: close_raw_def close_lc_def lifecycleConn_Close_simps)

lemma handler_section_simps [simp]:
  "workers (handler_section c pc s) = workers s" "adds (handler_section c pc s) = adds s"
  "known (handler_section c pc s) = known s"
  by (induction c pc s rule: handler_section.induct) simp_all

lemma close_each_closed:
  "raw_closed k \<subseteq> raw_closed (snd (close_each cs k)) \<and> lc_closed (snd (close_each cs k)) = lc_closed k \<union> set cs \<and>
   (lc_closed k \<subseteq> raw_closed k \<longrightarrow> lc_closed (snd (close_each cs k)) \<subseteq> raw_closed (snd (close_each cs k)))"
proof (induction cs arbitrary: k)
  case (Cons c cs)
  let ?k = "snd (lifecycleConn_Close c k)"
  have e: "snd (close_each (c # cs) k) = snd (close_each cs ?k)"
    by (simp add: case_prod_beta Let_def)
  show ?case
    unfolding e using Cons.IH [of ?k] lifecycleConn_Close_simps [where k = k and c = c] by auto
qed simp

lemma Reactor_Stop_simps [simp]:
  "workers (Reactor_Stop s) = cancel_all (workers s)" "registry (Reactor_Stop s) = registry s"
  "sockets (Reactor_Stop s) = sockets s" "active (Reactor_Stop s) = active s" "handlers (Reactor_Stop s) = handlers s"
  "adds (Reactor_Stop s) = adds s" "known (Reactor_Stop s) = known s"
  by (simp_all add: Reactor_Stop_def)

lemma shutdown_sweep_simps [simp]:
  "workers (shutdown_sweep s) = workers s" "active (shutdown_sweep s) = active s"
  "handlers (shutdown_sweep s) = handlers s" "adds (shutdown_sweep s) = adds s" "known (shutdown_sweep s) = known s"
  "conns (registry (shutdown_sweep s)) = []" "reg_closed (registry (shutdown_sweep s))"
  "sockets (shutdown_sweep s) = snd (close_each (conns (registry s)) (sockets s))"
  by (simp_all add: shutdown_sweep_def registry_CloseAll_def case_prod_beta Let_def)

text \<open>Closed connections stay closed, and the flag of a \<open>lifecycleConn\<close> implies that it is closed.\<close>

lemma raw_closed_mono: "re_step s s' \<Longrightarrow> raw_closed (sockets s) \<subseteq> raw_closed (sockets s')"
proof (induction rule: re_step.induct)
  case (dispatch s c answer)
  then show ?case by (auto simp: Dispatch_def Let_def split: sum.splits option.splits)
next
  case (handler_closes s c i)
  then show ?case using lifecycleConn_Close_simps(1) by (auto simp: close_lc_def)
next
  case (handler_undo s c i pc H)
  then show ?case using lifecycleConn_Close_simps(1) by (cases pc) (auto simp: close_lc_def)
next
  case (shutdown_sweep s)
  then show ?case using close_each_closed [of "sockets s" "conns (registry s)"] by simp
qed auto

lemma lc_closed_raw:
  "re_step s s' \<Longrightarrow> lc_closed (sockets s) \<subseteq> raw_closed (sockets s) \<Longrightarrow> lc_closed (sockets s') \<subseteq> raw_closed (sockets s')"
proof (induction rule: re_step.induct)
  case (dispatch s c answer)
  then show ?case by (auto simp: Dispatch_def Let_def split: sum.splits option.splits)
next
  case (handler_closes s c i)
  then show ?case by (auto simp: close_lc_def lifecycleConn_Close_simps)
next
  case (handler_undo s c i pc H)
  then show ?case by (cases pc) (auto simp: close_lc_def lifecycleConn_Close_simps)
next
  case (shutdown_sweep s)
  then show ?case using close_each_closed [of "sockets s" "conns (registry s)"] by auto
qed auto

text \<open>A step moves connections, puts a new one somewhere, or drops one that is closed.\<close>

definition moves :: "Reactor \<Rightarrow> Reactor \<Rightarrow> bool" where
  "moves s s' \<longleftrightarrow>
     (known s' = known s \<and> (places s' = places s \<or> (\<exists>c. places s = add_mset c (places s') \<and> c \<in> raw_closed (sockets s')))) \<or>
     (\<exists>c. c \<notin> known s \<and> known s' = insert c (known s) \<and>
        (places s' = add_mset c (places s) \<or> places s' = places s \<and> c \<in> raw_closed (sockets s')))"

lemma step_moves: "re_step s s' \<Longrightarrow> moves s s'"
proof (induction rule: re_step.induct)
  case (dispatch s c answer)
  then show ?case by (auto simp: moves_def places_def Dispatch_def Let_def split: sum.splits option.splits)
next
  case (add_stopped s c i sent A w)
  then show ?case by (cases sent) (auto simp: moves_def places_def)
next
  case (loop_registry s us w vs c pc r)
  then have "mset (loop_conn pc) = {#c#}"
    by (auto simp: loop_register_def registry_Add_def split: if_splits)
  with loop_registry show ?case by (simp add: moves_def places_def worker_places_def)
qed (auto simp: moves_def places_def worker_places_def section_iffs)

definition one_place :: "Reactor \<Rightarrow> bool" where
  "one_place s \<longleftrightarrow> (\<forall>c. count (places s) c \<le> 1) \<and> set_mset (places s) \<subseteq> known s \<and>
     known s \<subseteq> raw_closed (sockets s) \<union> set_mset (places s)"

lemma one_place_step:
  assumes "re_step s s'" and "one_place s"
  shows "one_place s'"
proof -
  note mono = raw_closed_mono [OF assms(1)]
  from step_moves [OF assms(1)] consider
    (same) "known s' = known s" "places s' = places s"
  | (drop) c where "known s' = known s" "places s = add_mset c (places s')" "c \<in> raw_closed (sockets s')"
  | (new) c where "c \<notin> known s" "known s' = insert c (known s)" "places s' = add_mset c (places s)"
  | (refused) c where "known s' = insert c (known s)" "places s' = places s" "c \<in> raw_closed (sockets s')"
    by (auto simp: moves_def)
  then show ?thesis
  proof cases
    case (drop c)
    have "count (places s') d \<le> 1" for d
      using assms(2) drop(2) unfolding one_place_def by (metis count_add_mset le_SucE le_Suc_eq nat_le_linear not_less_eq_eq)
    with drop assms(2) mono show ?thesis by (auto simp: one_place_def)
  next
    case (new c)
    have "count (places s) c = 0" using new(1) assms(2) by (auto simp: one_place_def count_eq_zero_iff)
    then have "count (places s') d \<le> 1" for d
      using assms(2) new(3) by (auto simp: one_place_def)
    with new assms(2) mono show ?thesis by (auto simp: one_place_def)
  qed (use assms(2) mono in \<open>auto simp: one_place_def\<close>)
qed

section \<open>The registry gate\<close>

text \<open>
  \<open>tracked\<close>: the registry knows the connection, or it has swept and closed it. This is what the loop
  establishes before it starts a handler, and the handler gives up in \<open>Remove\<close>.
\<close>

definition tracked :: "Reactor \<Rightarrow> nat \<Rightarrow> bool" where
  "tracked s c \<longleftrightarrow> (if reg_closed (registry s) then c \<in> lc_closed (sockets s) else c \<in> set (conns (registry s)))"

fun loop_holds :: "loop_pc \<Rightarrow> nat option" where
  "loop_holds (LAdded c) = Some c"
| "loop_holds (LStarted c) = Some c"
| "loop_holds (LCounted c) = Some c"
| "loop_holds pc = None"

fun holding :: "handler_pc \<Rightarrow> bool" where
  "holding HInit = True"
| "holding HRead = True"
| "holding (HClose f) = True"
| "holding (HRemove f) = True"
| "holding pc = False"

fun past_close :: "handler_pc \<Rightarrow> bool" where
  "past_close HInit = False"
| "past_close HRead = False"
| "past_close (HClose f) = False"
| "past_close pc = True"

definition gate :: "Reactor \<Rightarrow> bool" where
  "gate s \<longleftrightarrow> (\<forall>w \<in> set (workers s). \<forall>c. loop_holds (loop w) = Some c \<longrightarrow> tracked s c) \<and>
     (\<forall>h \<in># handlers s. holding (snd (snd h)) \<longrightarrow> tracked s (fst h)) \<and>
     (\<forall>h \<in># handlers s. past_close (snd (snd h)) \<longrightarrow> fst h \<in> lc_closed (sockets s))"

lemma loop_holds_conn: "loop_holds pc = Some c \<Longrightarrow> loop_conn pc = [c]"
  by (cases pc) auto

lemma tracked_step:
  assumes "tracked s c"
    and "lc_closed (sockets s) \<subseteq> lc_closed (sockets s')"
    and "reg_closed (registry s') = reg_closed (registry s)"
    and "set (conns (registry s)) \<subseteq> set (conns (registry s'))"
  shows "tracked s' c"
  using assms by (auto simp: tracked_def split: if_splits)

lemma gate_mono:
  assumes "gate s"
    and "\<And>c. tracked s c \<Longrightarrow> tracked s' c" and "lc_closed (sockets s) \<subseteq> lc_closed (sockets s')"
    and "\<And>w c. w \<in> set (workers s') \<Longrightarrow> loop_holds (loop w) = Some c \<Longrightarrow>
      (\<exists>w \<in> set (workers s). loop_holds (loop w) = Some c) \<or> tracked s' c"
    and "\<And>c i pc. (c, i, pc) \<in># handlers s' \<Longrightarrow> (\<exists>i pc'. (c, i, pc') \<in># handlers s \<and>
      (holding pc \<longrightarrow> holding pc') \<and> (past_close pc \<longrightarrow> past_close pc')) \<or>
      (holding pc \<longrightarrow> tracked s' c) \<and> (past_close pc \<longrightarrow> c \<in> lc_closed (sockets s'))"
  shows "gate s'"
  unfolding gate_def
proof (intro conjI ballI impI allI)
  fix w c assume "w \<in> set (workers s')" "loop_holds (loop w) = Some c"
  with assms(1,2,4) show "tracked s' c" by (fastforce simp: gate_def)
next
  fix h assume h: "h \<in># handlers s'" "holding (snd (snd h))"
  obtain c i pc where [simp]: "h = (c, i, pc)" by (cases h)
  from assms(5) [of c i pc] h assms(1,2) show "tracked s' (fst h)" by (fastforce simp: gate_def)
next
  fix h assume h: "h \<in># handlers s'" "past_close (snd (snd h))"
  obtain c i pc where [simp]: "h = (c, i, pc)" by (cases h)
  from assms(5) [of c i pc] h assms(1,3) show "fst h \<in> lc_closed (sockets s')" by (fastforce simp: gate_def)
qed

text \<open>A connection with a handler is nowhere else.\<close>

lemma handler_unique:
  assumes "one_place s" and "handlers s = add_mset (c, i, pc) H"
  shows "h \<in># H \<Longrightarrow> fst h \<noteq> c" and "w \<in> set (workers s) \<Longrightarrow> loop_holds (loop w) \<noteq> Some c"
proof -
  have one: "count (places s) c \<le> 1" using assms(1) by (simp add: one_place_def)
  show "fst h \<noteq> c" if "h \<in># H"
  proof
    assume "fst h = c"
    with that have "c \<in># image_mset fst H" by force
    then have "0 < count (image_mset fst H) c" by simp
    with one assms(2) show False by (simp add: places_def)
  qed
  show "loop_holds (loop w) \<noteq> Some c" if w: "w \<in> set (workers s)"
  proof
    assume "loop_holds (loop w) = Some c"
    then have "c \<in># worker_places w" by (auto simp: worker_places_def dest: loop_holds_conn)
    moreover obtain us vs where "workers s = us @ w # vs" using split_list [OF w] by blast
    ultimately have "0 < count (sum_list (map worker_places (workers s))) c" by auto
    with one assms(2) show False by (simp add: places_def)
  qed
qed

lemma tracked_simps [simp]:
  "tracked (s\<lparr>workers := ws\<rparr>) = tracked s" "tracked (s\<lparr>handlers := H\<rparr>) = tracked s" "tracked (s\<lparr>adds := A\<rparr>) = tracked s"
  "tracked (s\<lparr>active := n\<rparr>) = tracked s" "tracked (s\<lparr>known := K\<rparr>) = tracked s" "tracked (s\<lparr>stage := g\<rparr>) = tracked s"
  "tracked (s\<lparr>crashed := b\<rparr>) = tracked s" "tracked (close_raw c s) = tracked s"
  by (auto simp: tracked_def fun_eq_iff)

lemma tracked_close_lc: "tracked s d \<Longrightarrow> tracked (close_lc c s) d"
  by (rule tracked_step) auto

lemma gate_cancel: "gate s \<Longrightarrow> gate (Reactor_Stop s)"
  unfolding Reactor_Stop_def by (auto simp: gate_def cancel_all_def)

lemma gate_step: "re_step s s' \<Longrightarrow> gate s \<Longrightarrow> one_place s \<Longrightarrow> gate s'"
proof (induction rule: re_step.induct)
  case (dispatch s c answer)
  then show ?case
    by (auto simp: gate_def Dispatch_def Let_def split: sum.splits option.splits)
next
  case (loop_registry s us w vs c pc r)
  let ?s = "s\<lparr>workers := us @ w\<lparr>loop := pc\<rparr> # vs, registry := r\<rparr>"
  have t: "tracked s d \<Longrightarrow> tracked ?s d" for d
    using loop_registry(4) by (auto simp: tracked_def loop_register_def registry_Add_def split: if_splits)
  have n: "loop_holds pc = Some d \<Longrightarrow> tracked ?s d" for d
    using loop_registry(4) by (auto simp: tracked_def loop_register_def registry_Add_def split: if_splits)
  show ?case
  proof (rule gate_mono [OF loop_registry.prems(1) t])
    fix v d assume "v \<in> set (workers ?s)" "loop_holds (loop v) = Some d"
    then show "(\<exists>w \<in> set (workers s). loop_holds (loop w) = Some d) \<or> tracked ?s d"
      using loop_registry(2) n [of d] by auto
  qed auto
next
  case (handler_init s c i H pc)
  then show ?case by (auto simp: gate_def)
next
  case (handler_closes s c i)
  then show ?case by (auto simp: gate_def tracked_close_lc)
next
  case (handler_undo s c i pc H)
  note u = handler_unique [OF handler_undo.prems(2) handler_undo(2)]
  show ?case
  proof (cases pc)
    case (HClose f)
    with handler_undo show ?thesis by (auto simp: gate_def tracked_close_lc)
  next
    case (HRemove f)
    let ?s = "s\<lparr>registry := registry_Remove c (registry s)\<rparr>"
    have t: "tracked s d \<Longrightarrow> d \<noteq> c \<Longrightarrow> tracked ?s d" for d
      by (auto simp: tracked_def registry_Remove_def split: if_splits)
    have "tracked ?s d" if "w \<in> set (workers s)" "loop_holds (loop w) = Some d" for w d
    proof -
      have "d \<noteq> c" using u(2) [OF that(1)] that(2) by auto
      with t that handler_undo.prems(1) show ?thesis by (auto simp: gate_def)
    qed
    moreover have "tracked ?s (fst h)" if "h \<in># H" "holding (snd (snd h))" for h
      using t [OF _ u(1) [OF that(1)]] that handler_undo.prems(1) handler_undo(2) by (auto simp: gate_def)
    ultimately show ?thesis
      using handler_undo HRemove by (auto simp: gate_def)
  qed (use handler_undo in \<open>auto simp: gate_def\<close>)
next
  case (handler_uncount s c i f H)
  have "\<exists>w' \<in> set (workers s). loop w' = loop w" if "w \<in> set (bump i (- 1) (workers s))" for w
    using that by (auto simp: bump_def)
  with handler_uncount show ?case by (fastforce simp: gate_def)
next
  case (shutdown_sweep s)
  have "tracked s d \<Longrightarrow> tracked (shutdown_sweep s) d" for d
    using close_each_closed [of "sockets s" "conns (registry s)"] by (auto simp: tracked_def split: if_splits)
  moreover have "lc_closed (sockets s) \<subseteq> lc_closed (sockets (shutdown_sweep s))"
    using close_each_closed [of "sockets s" "conns (registry s)"] by simp
  ultimately show ?case using shutdown_sweep.prems(1) by (auto simp: gate_def)
next
  case (stop s)
  then show ?case by (simp add: gate_cancel)
next
  case (shutdown_cancel s)
  then show ?case using gate_cancel [of s] by (simp add: gate_def)
qed (auto simp: gate_def section_iffs)

section \<open>The counters\<close>

fun starting :: "loop_pc \<Rightarrow> bool" where
  "starting (LStarted c) = True"
| "starting (LCounted c) = True"
| "starting pc = False"

fun counting :: "loop_pc \<Rightarrow> bool" where
  "counting (LCounted c) = True"
| "counting pc = False"

fun counted :: "handler_pc \<Rightarrow> bool" where
  "counted (HFinish f) = False"
| "counted HDone = False"
| "counted pc = True"

text \<open>The handlers that run, and those counted by a worker.\<close>

definition running :: "Reactor \<Rightarrow> handler_run multiset" where
  "running s = filter_mset (\<lambda>h. snd (snd h) \<noteq> HDone) (handlers s)"

definition counted_by :: "string \<Rightarrow> Reactor \<Rightarrow> handler_run multiset" where
  "counted_by i s = filter_mset (\<lambda>h. fst (snd h) = i \<and> counted (snd (snd h))) (handlers s)"

definition counts :: "Reactor \<Rightarrow> bool" where
  "counts s \<longleftrightarrow>
     active s = int (size (running s)) + int (length (filter (\<lambda>w. starting (loop w)) (workers s))) \<and>
     (\<forall>w \<in> set (workers s). wcount w = int (size (counted_by (Id w) s)) + (if counting (loop w) then 1 else 0))"

definition ids_ok :: "Reactor \<Rightarrow> bool" where
  "ids_ok s \<longleftrightarrow> distinct (ids (workers s))"

lemma other_id: "ids_ok s \<Longrightarrow> workers s = us @ w # vs \<Longrightarrow> v \<in> set us \<union> set vs \<Longrightarrow> Id v \<noteq> Id w"
  by (auto simp: ids_ok_def rev_image_eqI)

lemma bump_ids [simp]: "ids (bump i d ws) = ids ws"
  by (induction ws) (auto simp: bump_def)

lemma cancel_all_ids [simp]: "ids (cancel_all ws) = ids ws"
  by (induction ws) (auto simp: cancel_all_def)

lemma ids_step: "re_step s s' \<Longrightarrow> ids (workers s') = ids (workers s)"
  by (induction rule: re_step.induct) (auto simp: Dispatch_def Let_def section_iffs split: sum.splits option.splits)

lemma starting_map:
  "length (filter (\<lambda>w. starting (loop w)) (bump i d ws)) = length (filter (\<lambda>w. starting (loop w)) ws)"
  "length (filter (\<lambda>w. starting (loop w)) (cancel_all ws)) = length (filter (\<lambda>w. starting (loop w)) ws)"
  by (induction ws) (auto simp: bump_def cancel_all_def)

lemma running_simps [simp]:
  "running (s\<lparr>workers := ws\<rparr>) = running s" "running (s\<lparr>registry := r\<rparr>) = running s" "running (s\<lparr>sockets := k\<rparr>) = running s"
  "running (s\<lparr>active := n\<rparr>) = running s" "running (s\<lparr>adds := A\<rparr>) = running s" "running (s\<lparr>known := K\<rparr>) = running s"
  "running (s\<lparr>stage := g\<rparr>) = running s" "running (s\<lparr>crashed := b\<rparr>) = running s"
  "counted_by i (s\<lparr>workers := ws\<rparr>) = counted_by i s" "counted_by i (s\<lparr>registry := r\<rparr>) = counted_by i s"
  "counted_by i (s\<lparr>sockets := k\<rparr>) = counted_by i s" "counted_by i (s\<lparr>active := n\<rparr>) = counted_by i s"
  "counted_by i (s\<lparr>adds := A\<rparr>) = counted_by i s" "counted_by i (s\<lparr>known := K\<rparr>) = counted_by i s"
  "counted_by i (s\<lparr>stage := g\<rparr>) = counted_by i s" "counted_by i (s\<lparr>crashed := b\<rparr>) = counted_by i s"
  by (simp_all add: running_def counted_by_def)

lemma counts_cong:
  assumes "counts s" and "handlers s' = handlers s" and "workers s' = workers s" and "active s' = active s"
  shows "counts s'"
  using assms by (simp add: counts_def running_def counted_by_def)

lemma counts_cancel: "counts s \<Longrightarrow> counts (Reactor_Stop s)"
  unfolding Reactor_Stop_def
  by (simp add: counts_def starting_map) (auto simp: cancel_all_def)

lemma counts_step: "re_step s s' \<Longrightarrow> counts s \<Longrightarrow> ids_ok s \<Longrightarrow> counts s'"
proof (induction rule: re_step.induct)
  case (dispatch s c answer)
  then show ?case
    by (intro counts_cong [OF dispatch.prems(1)]) (auto simp: Dispatch_def Let_def split: sum.splits option.splits)
next
  case (loop_registry s us w vs c pc r)
  then have "\<not> starting pc \<and> \<not> counting pc"
    by (auto simp: loop_register_def registry_Add_def split: if_splits)
  with loop_registry show ?case by (auto simp: counts_def running_def counted_by_def)
next
  case (loop_spawn s us w vs c)
  have "\<forall>v \<in> set us \<union> set vs. Id w \<noteq> Id v"
    using other_id [OF loop_spawn.prems(2) loop_spawn(2)] by metis
  with loop_spawn show ?case by (auto simp: counts_def running_def counted_by_def)
next
  case (handler_undo s c i pc H)
  then show ?case
    by (cases pc) (auto simp: counts_def running_def counted_by_def close_lc_def)
next
  case (handler_uncount s c i f H)
  then have "wcount v = int (size (counted_by (Id v) (s\<lparr>handlers := add_mset (c, i, HFinish f) H\<rparr>))) +
      (if counting (loop v) then 1 else 0)" if "v \<in> set (bump i (- 1) (workers s))" for v
    using that by (auto simp: counts_def counted_by_def bump_def)
  with handler_uncount show ?case
    by (simp add: counts_def running_def counted_by_def starting_map)
next
  case (stop s)
  then show ?case by (simp add: counts_cancel)
next
  case (shutdown_cancel s)
  then show ?case using counts_cancel [of s] by (simp add: counts_def)
qed (auto simp: counts_def running_def counted_by_def section_iffs)

section \<open>Workers that left\<close>

definition clean_worker :: "Reactor \<Rightarrow> Worker \<Rightarrow> bool" where
  "clean_worker s w \<longleftrightarrow>
     (loop w \<in> {LPending False, LExited False} \<longrightarrow> ctx_done w) \<and>
     (loop w = LExited False \<longrightarrow>
        (\<forall>c \<in> set (newCh w). c \<in> raw_closed (sockets s) \<or> (c, Id w, True) \<in># adds s)) \<and>
     ((\<exists>c. loop w = LRejected c) \<or> loop w \<in> {LPending True, LExited True} \<longrightarrow> reg_closed (registry s))"

definition left_clean :: "Reactor \<Rightarrow> bool" where
  "left_clean s \<longleftrightarrow> (\<forall>w \<in> set (workers s). clean_worker s w)"

lemma clean_worker_cong:
  assumes "clean_worker s w" and "loop v = loop w" and "newCh v = newCh w" and "Id v = Id w"
    and "ctx_done w \<Longrightarrow> ctx_done v" and "raw_closed (sockets s) \<subseteq> raw_closed (sockets s')"
    and "adds s' = adds s" and "registry s' = registry s"
  shows "clean_worker s' v"
  using assms unfolding clean_worker_def by auto

lemma worker_by_id: "ids_ok s \<Longrightarrow> v \<in> set (workers s) \<Longrightarrow> w \<in> set (workers s) \<Longrightarrow> Id v = Id w \<Longrightarrow> v = w"
  by (auto simp: ids_ok_def distinct_map inj_on_def)

lemma left_clean_mono:
  assumes "left_clean s" and "raw_closed (sockets s) \<subseteq> raw_closed (sockets s')"
    and "workers s' = workers s" and "adds s \<subseteq># adds s'" and "reg_closed (registry s) \<Longrightarrow> reg_closed (registry s')"
  shows "left_clean s'"
  using assms(1,2,5) mset_subset_eqD [OF assms(4)] unfolding left_clean_def clean_worker_def assms(3) by blast

lemma left_clean_cancel:
  assumes "left_clean s"
  shows "left_clean (Reactor_Stop s)"
proof -
  have "clean_worker (Reactor_Stop s) (w\<lparr>ctx_done := True\<rparr>)" if "w \<in> set (workers s)" for w
  proof -
    have "clean_worker s w" using that assms by (simp add: left_clean_def)
    then show ?thesis by (rule clean_worker_cong) auto
  qed
  then show ?thesis by (auto simp: left_clean_def cancel_all_def)
qed

lemma left_clean_step: "re_step s s' \<Longrightarrow> left_clean s \<Longrightarrow> ids_ok s \<Longrightarrow> left_clean s'"
proof (induction rule: re_step.induct)
  case (dispatch s c answer)
  then show ?case
    by (intro left_clean_mono [OF dispatch.prems(1)]) (auto simp: Dispatch_def Let_def split: sum.splits option.splits)
next
  case (add_send s c i A us w vs w')
  have w': "w' = w\<lparr>newCh := newCh w @ [c]\<rparr>" using add_send(5) by (simp add: section_iffs)
  show ?case
    using add_send.prems(1) [unfolded left_clean_def clean_worker_def add_send(2,3)] add_send(4)
    unfolding left_clean_def clean_worker_def w' by auto
next
  case (add_stopped s c i sent A w)
  then show ?case by (fastforce simp: left_clean_def clean_worker_def section_iffs)
next
  case (add_return s c i sent A w)
  then have "Id v \<noteq> i" if "v \<in> set (workers s)" "loop v = LExited False" for v
    using worker_by_id [OF add_return.prems(2), of v w] that by (auto simp: left_clean_def clean_worker_def section_iffs)
  with add_return show ?case by (fastforce simp: left_clean_def clean_worker_def section_iffs)
next
  case (loop_registry s us w vs c pc r)
  then show ?case by (auto simp: left_clean_def clean_worker_def loop_register_def registry_Add_def split: if_splits)
next
  case (handler_closes s c i)
  then show ?case
    by (intro left_clean_mono [OF handler_closes.prems(1)]) (auto simp: close_lc_def lifecycleConn_Close_def)
next
  case (handler_undo s c i pc H)
  then show ?case
    by (intro left_clean_mono [OF handler_undo.prems(1)]; cases pc)
      (auto simp: close_lc_def lifecycleConn_Close_def registry_Remove_def)
next
  case (handler_uncount s c i f H)
  have "clean_worker (s\<lparr>workers := bump i (- 1) (workers s), handlers := add_mset (c, i, HFinish f) H\<rparr>) v"
    if v: "v \<in> set (bump i (- 1) (workers s))" for v
  proof -
    obtain w where w: "w \<in> set (workers s)" "loop v = loop w" "newCh v = newCh w" "Id v = Id w" "ctx_done v = ctx_done w"
      using v by (auto simp: bump_def)
    then have "clean_worker s w" using handler_uncount.prems(1) by (simp add: left_clean_def)
    then show ?thesis by (rule clean_worker_cong) (use w in auto)
  qed
  then show ?case by (simp add: left_clean_def)
next
  case (shutdown_sweep s)
  then show ?case
    using close_each_closed [of "sockets s" "conns (registry s)"]
    by (intro left_clean_mono [OF shutdown_sweep.prems(1)]) simp_all
next
  case (stop s)
  then show ?case by (simp add: left_clean_cancel)
next
  case (shutdown_cancel s)
  then show ?case
    by (intro left_clean_mono [OF left_clean_cancel [OF shutdown_cancel.prems(1)]]) simp_all
qed (auto simp: left_clean_def clean_worker_def section_iffs)

section \<open>Reachable states\<close>

lemma NewWorker_ids: "distinct (ids (map NewWorker [0..<n]))"
  by (auto simp: distinct_map inj_on_def NewWorker_def)

text \<open>
  With the default balancer \<open>NewWorkerGroup\<close> registers as many workers as the options ask for, none of
  them dropped for a repeated identifier; these are the workers a run starts with.
\<close>

lemma NewWorkerGroup_default:
  "NewWorkerGroup ncpu opts (\<lambda>s w. (Adaptive_Register s w, None)) [] =
     Inr (map NewWorker [0..<nat (NumWorkers (normalise_workers ncpu opts))])"
proof -
  have "register_workers (\<lambda>s w. (Adaptive_Register s w, None)) i n (map NewWorker [0..<i]) = Inr (map NewWorker [0..<i + n])"
    for i n
  proof (induction n arbitrary: i)
    case (Suc n)
    have "\<not> has_id (Id (NewWorker i)) (map NewWorker [0..<i])"
      by (auto simp: has_id_iff NewWorker_def)
    then have "Adaptive_Register (map NewWorker [0..<i]) (NewWorker i) = map NewWorker [0..<Suc i]"
      by (simp add: Adaptive_Register_def register_id_def)
    with Suc [of "Suc i"] show ?case by simp
  qed simp
  from this [of 0] show ?thesis by (simp add: NewWorkerGroup_def)
qed

lemma re_reach_inv:
  assumes "re_reach n s"
  shows "ids_ok s \<and> one_place s \<and> lc_closed (sockets s) \<subseteq> raw_closed (sockets s) \<and> gate s \<and> counts s \<and> left_clean s"
  using assms
proof (induction rule: re_reach.induct)
  case start
  have "sum_list (map worker_places (map NewWorker xs)) = {#}" for xs
    by (induction xs) (auto simp: worker_places_def NewWorker_def)
  then show ?case
    using NewWorker_ids [of n]
    by (auto simp: ids_ok_def one_place_def places_def gate_def counts_def left_clean_def clean_worker_def initial_reactor_def
        running_def counted_by_def NewWorker_def)
next
  case (step s s')
  then have "ids_ok s'" using ids_step [OF step(2)] by (simp add: ids_ok_def)
  with step show ?case
    by (simp add: one_place_step lc_closed_raw gate_step counts_step left_clean_step)
qed

text \<open>
  C26. The promise of the registry gate. In every state the reactor can reach after the sweep of
  shutdown, the connection of every handler that still runs is closed, so its read returns. Once the
  worker loops have returned and no \<open>AddConn\<close> is under way, every connection ever handed to the
  reactor is closed, with one exception: one left in the queue of a worker that returned because the
  registry had rejected a connection.
\<close>

theorem shutdown_closes_connections:
  assumes "re_reach n s" and "reg_closed (registry s)"
  shows "(\<forall>h \<in># running s. fst h \<in> lc_closed (sockets s) \<and> fst h \<in> raw_closed (sockets s)) \<and>
    (adds s = {#} \<and> (\<forall>w \<in> set (workers s). \<exists>rej. loop w = LExited rej) \<longrightarrow>
      (\<forall>c \<in> known s. c \<in> raw_closed (sockets s) \<or>
        (\<exists>w \<in> set (workers s). loop w = LExited True \<and> c \<in> set (newCh w))))"
proof -
  have inv: "one_place s" "lc_closed (sockets s) \<subseteq> raw_closed (sockets s)" "gate s" "left_clean s"
    using re_reach_inv [OF assms(1)] by simp_all
  have h: "fst h \<in> lc_closed (sockets s)" if "h \<in># handlers s" for h
  proof (cases "holding (snd (snd h))")
    case True
    with that inv(3) assms(2) show ?thesis by (auto simp: gate_def tracked_def)
  next
    case False
    then have "past_close (snd (snd h))" by (cases "snd (snd h)") auto
    with that inv(3) show ?thesis by (auto simp: gate_def)
  qed
  have q: "c \<in> raw_closed (sockets s) \<or> (\<exists>w \<in> set (workers s). loop w = LExited True \<and> c \<in> set (newCh w))"
    if ad: "adds s = {#}" and ex: "\<forall>w \<in> set (workers s). \<exists>rej. loop w = LExited rej" and kn: "c \<in> known s" for c
  proof (cases "c \<in> raw_closed (sockets s)")
    case False
    with inv(1) kn have "c \<in># places s" by (auto simp: one_place_def)
    moreover have "c \<notin># image_mset fst (handlers s)" using h inv(2) False by fastforce
    ultimately obtain w where w: "w \<in> set (workers s)" "c \<in># worker_places w"
      using ad unfolding places_def by auto
    then obtain rej where rej: "loop w = LExited rej" using ex by blast
    with w(2) have "c \<in> set (newCh w)" by (simp add: worker_places_def)
    moreover have "clean_worker s w" using inv(4) w(1) by (simp add: left_clean_def)
    ultimately show ?thesis using rej w(1) ad False by (cases rej) (auto simp: clean_worker_def)
  qed simp
  show ?thesis using h inv(2) q by (auto simp: running_def)
qed

lemma sum_counted_by_le:
  "distinct is \<Longrightarrow> sum_list (map (\<lambda>i. int (size (filter_mset (\<lambda>h. f h = i \<and> P h) M))) is) \<le> int (size (filter_mset P M))"
proof (induction M)
  case (add x M)
  have "sum_list (map (\<lambda>i. int (size (filter_mset (\<lambda>h. f h = i \<and> P h) (add_mset x M)))) is) =
      sum_list (map (\<lambda>i. int (size (filter_mset (\<lambda>h. f h = i \<and> P h) M))) is) +
      (if P x then sum_list (map (\<lambda>i. if f x = i then 1 else 0) is) else 0)"
    by (induction "is") auto
  moreover have "distinct is \<Longrightarrow> sum_list (map (\<lambda>i. if f x = i then 1 else (0 :: int)) is) \<le> 1"
  proof (induction "is")
    case (Cons j js)
    have "f x \<notin> set js \<Longrightarrow> sum_list (map (\<lambda>i. if f x = i then 1 else (0 :: int)) js) = 0"
      by (induction js) auto
    with Cons show ?case by auto
  qed simp
  ultimately show ?case using add by (cases "P x") auto
qed simp

text \<open>
  C27. The counters. In every reachable state \<open>active\<close> counts exactly the handlers that have not
  finished and those a worker loop is about to start, the count of a worker exactly its handlers that
  have not given up their count, and the total the drain watches lies between zero and \<open>active\<close>: when
  \<open>AwaitDone\<close> reports success no handler is running.
\<close>

theorem handler_counts_exact:
  assumes "re_reach n s"
  shows "active s = int (size (running s)) + int (length (filter (\<lambda>w. starting (loop w)) (workers s))) \<and>
    (\<forall>w \<in> set (workers s). wcount w = int (size (counted_by (Id w) s)) + (if counting (loop w) then 1 else 0)) \<and>
    0 \<le> TotalCount s \<and> TotalCount s \<le> active s \<and>
    (AwaitDone (active s) \<longrightarrow> running s = {#} \<and> TotalCount s = 0)"
proof -
  have c: "counts s" and i: "distinct (ids (workers s))"
    using re_reach_inv [OF assms] by (simp_all add: ids_ok_def)
  have "wcount w = int (size (counted_by (Id w) s)) + (if counting (loop w) then 1 else 0)" if "w \<in> set (workers s)" for w
    using c that by (simp add: counts_def)
  then have t: "TotalCount s = sum_list (map (\<lambda>w. int (size (counted_by (Id w) s)) + (if counting (loop w) then 1 else 0)) (workers s))"
    by (simp add: TotalCount_def cong: map_cong)
  have "sum_list (map (\<lambda>w. int (size (counted_by (Id w) s)) + (if counting (loop w) then 1 else 0)) ws) =
      sum_list (map (\<lambda>i. int (size (counted_by i s))) (ids ws)) + int (length (filter (\<lambda>w. counting (loop w)) ws))" for ws :: "Worker list"
    by (induction ws) auto
  with t have t2: "TotalCount s = sum_list (map (\<lambda>i. int (size (counted_by i s))) (ids (workers s))) +
      int (length (filter (\<lambda>w. counting (loop w)) (workers s)))" by simp
  have a: "size (filter_mset (\<lambda>h. counted (snd (snd h))) (handlers s)) \<le> size (running s)"
    unfolding running_def by (intro size_mset_mono filter_mset_mono_strong) auto
  have b: "length (filter (\<lambda>w. counting (loop w)) ws) \<le> length (filter (\<lambda>w. starting (loop w)) ws)" for ws :: "Worker list"
  proof (induction ws)
    case (Cons w ws)
    then show ?case by (cases "loop w") auto
  qed simp
  have d: "sum_list (map (\<lambda>i. int (size (counted_by i s))) (ids (workers s))) \<le>
      int (size (filter_mset (\<lambda>h. counted (snd (snd h))) (handlers s)))"
    unfolding counted_by_def by (rule sum_counted_by_le [OF i])
  have act: "active s = int (size (running s)) + int (length (filter (\<lambda>w. starting (loop w)) (workers s)))"
    using c by (simp add: counts_def)
  then have "active s = 0 \<Longrightarrow> size (running s) = 0" by linarith
  moreover from act a b [of "workers s"] d t2 have "TotalCount s \<le> active s" by linarith
  moreover have "0 \<le> TotalCount s" unfolding t2 by (auto intro!: add_nonneg_nonneg sum_list_nonneg)
  ultimately show ?thesis using c by (auto simp: counts_def AwaitDone_def)
qed

section \<open>Runs of a reactor with one worker\<close>

text \<open>States of a reactor with a single worker, and the steps the runs below take.\<close>

definition snap_worker :: "loop_pc \<Rightarrow> nat list \<Rightarrow> int \<Rightarrow> bool \<Rightarrow> Worker" where
  "snap_worker pc q cnt dn = \<lparr>Id = Id (NewWorker 0), newCh = q, wcount = cnt, ctx_done = dn, loop = pc\<rparr>"

definition snap ::
  "loop_pc \<Rightarrow> nat list \<Rightarrow> int \<Rightarrow> bool \<Rightarrow> ConnectionRegistry \<Rightarrow> nat set \<Rightarrow> nat set \<Rightarrow> int \<Rightarrow>
   handler_run multiset \<Rightarrow> add_call multiset \<Rightarrow> nat set \<Rightarrow> stage \<Rightarrow> Reactor" where
  "snap pc q cnt dn r raw lc act H A K g =
     \<lparr>workers = [snap_worker pc q cnt dn], registry = r, sockets = \<lparr>raw_closed = raw, lc_closed = lc\<rparr>,
      active = act, handlers = H, adds = A, known = K, stage = g, crashed = False\<rparr>"

lemma snap_run: "re_step (snap LNew q cnt dn r raw lc act H A K g) (snap LSelect q cnt dn r raw lc act H A K g)"
  using re_step.loop_run [of "(snap LNew q cnt dn r raw lc act H A K g)" "[]" "snap_worker LNew q cnt dn" "[]"] by (simp add: snap_def snap_worker_def section_iffs)

lemma snap_receive: "re_step (snap LSelect (c # q) cnt dn r raw lc act H A K g) (snap (LGot c) q cnt dn r raw lc act H A K g)"
  using re_step.loop_receive [of "(snap LSelect (c # q) cnt dn r raw lc act H A K g)" "[]" "snap_worker LSelect (c # q) cnt dn" "[]"] by (simp add: snap_def snap_worker_def section_iffs)

lemma snap_add: "re_step (snap (LGot c) q cnt dn \<lparr>conns = [], reg_closed = False\<rparr> raw lc act H A K g) (snap (LAdded c) q cnt dn \<lparr>conns = [c], reg_closed = False\<rparr> raw lc act H A K g)"
  using re_step.loop_registry [of "(snap (LGot c) q cnt dn \<lparr>conns = [], reg_closed = False\<rparr> raw lc act H A K g)" "[]" "snap_worker (LGot c) q cnt dn" "[]"] by (simp add: snap_def snap_worker_def loop_register_def registry_Add_def)

lemma snap_refuse: "re_step (snap (LGot c) q cnt dn \<lparr>conns = [], reg_closed = True\<rparr> raw lc act H A K g) (snap (LRejected c) q cnt dn \<lparr>conns = [], reg_closed = True\<rparr> raw lc act H A K g)"
  using re_step.loop_registry [of "(snap (LGot c) q cnt dn \<lparr>conns = [], reg_closed = True\<rparr> raw lc act H A K g)" "[]" "snap_worker (LGot c) q cnt dn" "[]"] by (simp add: snap_def snap_worker_def loop_register_def registry_Add_def)

lemma snap_rejected: "re_step (snap (LRejected c) q cnt dn r raw lc act H A K g) (snap (LPending True) q cnt dn r (insert c raw) lc act H A K g)"
  using re_step.loop_rejected [of "(snap (LRejected c) q cnt dn r raw lc act H A K g)" "[]" "snap_worker (LRejected c) q cnt dn" "[]"] by (simp add: snap_def snap_worker_def close_raw_def raw_Close_def)

lemma snap_exit: "re_step (snap (LPending rej) [] cnt dn r raw lc act H A K g) (snap (LExited rej) [] cnt dn r raw lc act H A K g)"
  using re_step.pending_return [of "(snap (LPending rej) [] cnt dn r raw lc act H A K g)" "[]" "snap_worker (LPending rej) [] cnt dn" "[]"] by (simp add: snap_def snap_worker_def section_iffs)

lemma snap_started: "re_step (snap (LAdded c) q cnt dn r raw lc act H A K g) (snap (LStarted c) q cnt dn r raw lc (act + 1) H A K g)"
  using re_step.loop_started [of "(snap (LAdded c) q cnt dn r raw lc act H A K g)" "[]" "snap_worker (LAdded c) q cnt dn" "[]"] by (simp add: snap_def snap_worker_def section_iffs)

lemma snap_counted: "re_step (snap (LStarted c) q cnt dn r raw lc act H A K g) (snap (LCounted c) q (cnt + 1) dn r raw lc act H A K g)"
  using re_step.loop_counted [of "(snap (LStarted c) q cnt dn r raw lc act H A K g)" "[]" "snap_worker (LStarted c) q cnt dn" "[]"] by (simp add: snap_def snap_worker_def section_iffs)

lemma snap_spawn: "re_step (snap (LCounted c) q cnt dn r raw lc act H A K g) (snap LSelect q cnt dn r raw lc act (add_mset (c, Id (NewWorker 0), HInit) H) A K g)"
  using re_step.loop_spawn [of "(snap (LCounted c) q cnt dn r raw lc act H A K g)" "[]" "snap_worker (LCounted c) q cnt dn" "[]"] by (simp add: snap_def snap_worker_def section_iffs)

lemma snap_dispatch:
  "c \<notin> K \<Longrightarrow> c \<notin> raw \<Longrightarrow> re_step (snap pc q cnt dn r raw lc act H {#} K g) (snap pc q cnt dn r raw lc act H {#(c, Id (NewWorker 0), False)#} (insert c K) g)"
  using re_step.dispatch [of "(snap pc q cnt dn r raw lc act H {#} K g)" c "Inr (Some (snap_worker pc q cnt dn))"]
  by (simp add: snap_def snap_worker_def Dispatch_def)

lemma snap_send:
  "length q < newCh_cap \<Longrightarrow> re_step (snap pc q cnt dn r raw lc act H {#(c, Id (NewWorker 0), False)#} K g) (snap pc (q @ [c]) cnt dn r raw lc act H {#(c, Id (NewWorker 0), True)#} K g)"
  using re_step.add_send [of "(snap pc q cnt dn r raw lc act H {#(c, Id (NewWorker 0), False)#} K g)" c _ "{#}" "[]" "snap_worker pc q cnt dn" "[]"] by (simp add: snap_def snap_worker_def section_iffs)

lemma snap_return: "re_step (snap pc q cnt False r raw lc act H {#(c, Id (NewWorker 0), True)#} K g) (snap pc q cnt False r raw lc act H {#} K g)"
  using re_step.add_return [of "(snap pc q cnt False r raw lc act H {#(c, Id (NewWorker 0), True)#} K g)" c _ True "{#}" "snap_worker pc q cnt False"] by (simp add: snap_def snap_worker_def section_iffs)

lemma snap_listener: "re_step (snap pc q cnt dn r raw lc act H A K Serving) (snap pc q cnt dn r raw lc act H A K ListenerClosed)"
  using re_step.shutdown_listener [of "(snap pc q cnt dn r raw lc act H A K Serving)"] by (simp add: snap_def)

lemma snap_sweep: "re_step (snap pc q cnt dn \<lparr>conns = [], reg_closed = False\<rparr> raw lc act H A K ListenerClosed) (snap pc q cnt dn \<lparr>conns = [], reg_closed = True\<rparr> raw lc act H A K Swept)"
  using re_step.shutdown_sweep [of "(snap pc q cnt dn \<lparr>conns = [], reg_closed = False\<rparr> raw lc act H A K ListenerClosed)"] by (simp add: snap_def shutdown_sweep_def registry_CloseAll_def)

lemma snap_sweep1: "re_step (snap pc q cnt dn \<lparr>conns = [c], reg_closed = False\<rparr> {} {} act H A K ListenerClosed) (snap pc q cnt dn \<lparr>conns = [], reg_closed = True\<rparr> {c} {c} act H A K Swept)"
  using re_step.shutdown_sweep [of "(snap pc q cnt dn \<lparr>conns = [c], reg_closed = False\<rparr> {} {} act H A K ListenerClosed)"]
  by (simp add: snap_def shutdown_sweep_def registry_CloseAll_def lifecycleConn_Close_def raw_Close_def)

lemma snap_cancel: "re_step (snap pc q cnt dn r raw lc act H A K Swept) (snap pc q cnt True r raw lc act H A K Cancelled)"
  using re_step.shutdown_cancel [of "(snap pc q cnt dn r raw lc act H A K Swept)"] by (simp add: snap_def snap_worker_def Reactor_Stop_def cancel_all_def)

lemma snap_await: "re_step (snap pc q cnt dn r raw lc 0 H A K Cancelled) (snap pc q cnt dn r raw lc 0 H A K (Returned True))"
  using re_step.shutdown_await [of "(snap pc q cnt dn r raw lc 0 H A K Cancelled)"] by (simp add: snap_def AwaitDone_def)

lemma snap_first:
  "re_reach 1 (snap (LGot 0) [] 0 False \<lparr>conns = [], reg_closed = False\<rparr> {} {} 0 {#} {#} {0} Serving)"
proof -
  have "initial_reactor (map NewWorker [0..<1]) =
      snap LNew [] 0 False \<lparr>conns = [], reg_closed = False\<rparr> {} {} 0 {#} {#} {} Serving"
    by (simp add: initial_reactor_def snap_def snap_worker_def NewWorker_def NewConnectionRegistry_def)
  then have "re_reach 1 (snap LNew [] 0 False \<lparr>conns = [], reg_closed = False\<rparr> {} {} 0 {#} {#} {} Serving)"
    using re_reach.start [of 1] by simp
  from re_reach.step [OF re_reach.step [OF this snap_run] snap_dispatch [of 0]]
  have "re_reach 1 (snap LSelect [] 0 False \<lparr>conns = [], reg_closed = False\<rparr> {} {} 0 {#}
      {#(0, Id (NewWorker 0), False)#} {0} Serving)" by simp
  from re_reach.step [OF this snap_send]
  have "re_reach 1 (snap LSelect [0] 0 False \<lparr>conns = [], reg_closed = False\<rparr> {} {} 0 {#}
      {#(0, Id (NewWorker 0), True)#} {0} Serving)" by (simp add: newCh_cap_def)
  from re_reach.step [OF re_reach.step [OF this snap_return] snap_receive] show ?thesis .
qed

text \<open>
  A connection queued after the worker left: the sweep, the rejection of the first connection, and the
  worker's return happen before the workers are cancelled, and then a second one is dispatched.
\<close>

lemma run_leak:
  "re_reach 1 (snap (LExited True) [1] 0 True \<lparr>conns = [], reg_closed = True\<rparr> {0} {} 0 {#} {#} {0, 1} (Returned True))"
proof -
  from re_reach.step [OF re_reach.step [OF re_reach.step [OF re_reach.step [OF snap_first snap_listener] snap_sweep]
        snap_refuse] snap_rejected]
  have "re_reach 1 (snap (LPending True) [] 0 False \<lparr>conns = [], reg_closed = True\<rparr> {0} {} 0 {#} {#} {0} Swept)" .
  from re_reach.step [OF re_reach.step [OF this snap_exit] snap_dispatch [of 1]]
  have "re_reach 1 (snap (LExited True) [] 0 False \<lparr>conns = [], reg_closed = True\<rparr> {0} {} 0 {#}
      {#(1, Id (NewWorker 0), False)#} {0, 1} Swept)" by (simp add: insert_commute)
  from re_reach.step [OF this snap_send]
  have "re_reach 1 (snap (LExited True) [1] 0 False \<lparr>conns = [], reg_closed = True\<rparr> {0} {} 0 {#}
      {#(1, Id (NewWorker 0), True)#} {0, 1} Swept)" by (simp add: newCh_cap_def)
  from re_reach.step [OF re_reach.step [OF re_reach.step [OF this snap_return] snap_cancel] snap_await]
  show ?thesis .
qed

text \<open>A worker loop that had registered a connection when the sweep ran starts its handler later.\<close>

lemma run_late_handler:
  "re_reach 1 (snap (LAdded 0) [] 0 True \<lparr>conns = [], reg_closed = True\<rparr> {0} {0} 0 {#} {#} {0} (Returned True))"
  "re_reach 1 (snap LSelect [] 1 True \<lparr>conns = [], reg_closed = True\<rparr> {0} {0} 1 {#(0, Id (NewWorker 0), HInit)#} {#} {0} (Returned True))"
proof -
  from re_reach.step [OF re_reach.step [OF re_reach.step [OF re_reach.step [OF re_reach.step [OF snap_first snap_add]
        snap_listener] snap_sweep1] snap_cancel] snap_await]
  show r: "re_reach 1 (snap (LAdded 0) [] 0 True \<lparr>conns = [], reg_closed = True\<rparr> {0} {0} 0 {#} {#} {0} (Returned True))" .
  from re_reach.step [OF re_reach.step [OF re_reach.step [OF r snap_started] snap_counted] snap_spawn]
  show "re_reach 1 (snap LSelect [] 1 True \<lparr>conns = [], reg_closed = True\<rparr> {0} {0} 1 {#(0, Id (NewWorker 0), HInit)#} {#} {0} (Returned True))"
    by simp
qed

lemmas snap_simps = snap_def snap_worker_def running_def counted_by_def TotalCount_def

theorem shutdown_closes_connections_witness:
  "\<exists>s. re_reach 1 s \<and> (0, Id (NewWorker 0), HInit) \<in># running s \<and> 0 \<in> raw_closed (sockets s)"
proof -
  let ?s = "snap LSelect [] 1 True \<lparr>conns = [], reg_closed = True\<rparr> {0} {0} 1 {#(0, Id (NewWorker 0), HInit)#} {#} {0} (Returned True)"
  have "(0, Id (NewWorker 0), HInit) \<in># running ?s" by (simp add: snap_simps)
  moreover have "reg_closed (registry ?s)" by (simp add: snap_simps)
  ultimately show ?thesis
    using shutdown_closes_connections [OF run_late_handler(2)] run_late_handler(2) by (metis fst_conv)
qed

theorem handler_counts_exact_witness:
  "\<exists>s. re_reach 1 s \<and> size (running s) = 1 \<and> active s = 1 \<and> TotalCount s \<le> 1"
proof -
  let ?s = "snap LSelect [] 1 True \<lparr>conns = [], reg_closed = True\<rparr> {0} {0} 1 {#(0, Id (NewWorker 0), HInit)#} {#} {0} (Returned True)"
  have "size (running ?s) = 1" and act: "active ?s = 1" by (simp_all add: snap_simps)
  moreover have "TotalCount ?s \<le> 1" using handler_counts_exact [OF run_late_handler(2)] unfolding act by blast
  ultimately show ?thesis using run_late_handler(2) by blast
qed

text \<open>
  C28. What the comments promise beyond this does not hold. Shutdown can return without error while a
  connection \<open>AddConn\<close> accepted sits open in the queue of a worker that is gone: the worker had left on
  a rejected registration before it was cancelled, so the check after the send found it alive. And
  shutdown can return without error before a handler starts: the worker loop registers a connection
  before it counts the handler, and \<open>AwaitDone\<close> does not wait for the loops.
\<close>

theorem shutdown_gaps:
  "(\<exists>s w. re_reach 1 s \<and> stage s = Returned True \<and> adds s = {#} \<and> handlers s = {#} \<and> workers s = [w] \<and>
      loop w = LExited True \<and> newCh w = [1] \<and> 1 \<notin> raw_closed (sockets s)) \<and>
   (\<exists>s s'. re_reach 1 s \<and> stage s = Returned True \<and> running s = {#} \<and> active s = 0 \<and>
      re_step\<^sup>*\<^sup>* s s' \<and> (0, Id (NewWorker 0), HInit) \<in># running s')"
proof
  show "\<exists>s w. re_reach 1 s \<and> stage s = Returned True \<and> adds s = {#} \<and> handlers s = {#} \<and> workers s = [w] \<and>
      loop w = LExited True \<and> newCh w = [1] \<and> 1 \<notin> raw_closed (sockets s)"
    by (intro exI [of _ "snap_worker (LExited True) [1] 0 True"] exI conjI, rule run_leak) (simp_all add: snap_simps)
  let ?s = "snap (LAdded 0) [] 0 True \<lparr>conns = [], reg_closed = True\<rparr> {0} {0} 0 {#} {#} {0} (Returned True)"
  let ?s' = "snap LSelect [] (0 + 1) True \<lparr>conns = [], reg_closed = True\<rparr> {0} {0} (0 + 1) (add_mset (0, Id (NewWorker 0), HInit) {#}) {#} {0} (Returned True)"
  have "re_step\<^sup>*\<^sup>* ?s ?s'"
    by (rule converse_rtranclp_into_rtranclp [of re_step, OF snap_started], rule converse_rtranclp_into_rtranclp [of re_step, OF snap_counted],
        rule r_into_rtranclp [of re_step, OF snap_spawn])
  moreover have "(0, Id (NewWorker 0), HInit) \<in># running ?s'" "running ?s = {#}" "active ?s = 0" "stage ?s = Returned True"
    by (simp_all add: snap_simps)
  ultimately show "\<exists>s s'. re_reach 1 s \<and> stage s = Returned True \<and> running s = {#} \<and> active s = 0 \<and>
      re_step\<^sup>*\<^sup>* s s' \<and> (0, Id (NewWorker 0), HInit) \<in># running s'"
    using run_late_handler(1) by blast
qed

end
