(* ===== verification/Executor_Model.thy ===== *)
theory Executor_Model
  imports Go_Prelude
begin

text \<open>
  The executor of \<open>internal/executor\<close>: futures whose result is set under a lock by the run of the action
  or by a cancellation, and a pool of workers that take tasks and futures from unbuffered channels
  until the executor is stopped. \<open>ex_step\<close> interleaves the sections of submitters, workers, other
  callers of \<open>Do\<close>, \<open>Cancel\<close> and \<open>GetWithTimeout\<close>, and \<open>Stop\<close>. Actions are arbitrary: a run may
  produce any result.
\<close>

section \<open>Futures\<close>

text \<open>Errors of a future; \<open>ActionErr\<close> is what the action returned. Results are numbers, zero the zero value.\<close>

datatype fut_err = ErrCancelled | ErrTimeout | ActionErr nat

record AsyncFuture =
  fut_result :: nat
  fut_err :: "fut_err option"
  fut_ctx_done :: bool
  fut_running :: bool
  fut_done :: bool

definition NewFuture :: "bool \<Rightarrow> AsyncFuture" where
  "NewFuture parent_done =
     \<lparr>fut_result = 0, fut_err = None, fut_ctx_done = parent_done, fut_running = False, fut_done = False\<rparr>"

text \<open>\<open>Do\<close>: the swap of \<open>running\<close>, which only the first caller passes, and the locked section after the action.\<close>

definition Do_start :: "AsyncFuture \<Rightarrow> AsyncFuture option" where
  "Do_start f = (if fut_running f then None else Some (f\<lparr>fut_running := True\<rparr>))"

definition Do_finish :: "nat \<Rightarrow> fut_err option \<Rightarrow> AsyncFuture \<Rightarrow> AsyncFuture" where
  "Do_finish r e f = (if fut_done f then f else f\<lparr>fut_result := r, fut_err := e, fut_done := True\<rparr>)"

text \<open>\<open>cancelWithErr\<close>: the cancellation of the context, then the locked section.\<close>

definition cancel_ctx :: "AsyncFuture \<Rightarrow> AsyncFuture" where
  "cancel_ctx f = f\<lparr>fut_ctx_done := True\<rparr>"

definition cancelWithErr :: "fut_err \<Rightarrow> AsyncFuture \<Rightarrow> AsyncFuture" where
  "cancelWithErr e f = (if fut_done f then f else f\<lparr>fut_result := 0, fut_err := Some e, fut_done := True\<rparr>)"

text \<open>\<open>Get\<close> blocks (\<open>None\<close>) until the future is done.\<close>

definition Get :: "AsyncFuture \<Rightarrow> (nat \<times> fut_err option) option" where
  "Get f = (if fut_done f then Some (fut_result f, fut_err f) else None)"

definition GetWithTimeout :: "bool \<Rightarrow> AsyncFuture \<Rightarrow> (nat \<times> fut_err option) option \<times> fut_err option" where
  "GetWithTimeout expired f =
     (if fut_done f \<and> \<not> expired then (Some (fut_result f, fut_err f), None)
      else if expired then (Some (0, Some ErrTimeout), Some ErrTimeout)
      else (None, None))"

definition IsCancelled :: "AsyncFuture \<Rightarrow> bool" where
  "IsCancelled f = fut_ctx_done f"

definition IsDone :: "AsyncFuture \<Rightarrow> bool" where
  "IsDone f = fut_done f"

section \<open>The executor\<close>

datatype do_pc = DSwap | DRun | DLock nat "fut_err option"

datatype submit_pc = SSelect | SSent | SCancel

text \<open>
  \<open>runs\<close> holds the calls of \<open>Do\<close> under way, each with the flag whether a worker makes it, \<open>cancels\<close> the
  calls of \<open>cancelWithErr\<close> that have cancelled the context, \<open>submits\<close> the calls of \<open>Submit\<close>. Workers are
  idle at their select, in a task, in \<open>Do\<close>, or have returned. \<open>started\<close> records the starts of actions and
  \<open>returned\<close> the futures \<open>Submit\<close> has returned.
\<close>

record AsyncExecutor =
  futs :: "AsyncFuture list"
  idle :: nat
  in_task :: nat
  exited :: nat
  runs :: "(bool \<times> nat \<times> do_pc) multiset"
  cancels :: "(nat \<times> fut_err) multiset"
  submits :: "(nat \<times> submit_pc) multiset"
  stopped :: bool
  started :: "nat multiset"
  returned :: "nat set"

definition NewAsyncExecutor :: "nat \<Rightarrow> int \<Rightarrow> AsyncExecutor" where
  "NewAsyncExecutor ncpu numWorker =
     \<lparr>futs = [], idle = (if numWorker < 1 then ncpu else nat numWorker), in_task = 0, exited = 0, runs = {#}, cancels = {#},
      submits = {#}, stopped = False, started = {#}, returned = {}\<rparr>"

definition upd_fut :: "nat \<Rightarrow> (AsyncFuture \<Rightarrow> AsyncFuture) \<Rightarrow> AsyncExecutor \<Rightarrow> AsyncExecutor" where
  "upd_fut i g s = s\<lparr>futs := (futs s)[i := g (futs s ! i)]\<rparr>"

definition Stop :: "AsyncExecutor \<Rightarrow> AsyncExecutor" where
  "Stop s = s\<lparr>stopped := True, futs := map cancel_ctx (futs s)\<rparr>"

text \<open>The worker that finished a call goes back to its select.\<close>

definition release_worker :: "bool \<Rightarrow> AsyncExecutor \<Rightarrow> AsyncExecutor" where
  "release_worker w s = (if w then s\<lparr>idle := idle s + 1\<rparr> else s)"

text \<open>
  The re-check of \<open>Submit\<close> after the send, and its other arm: a stopped executor makes it cancel the
  future, otherwise a sent future is returned.
\<close>

definition Submit_check :: "submit_pc \<Rightarrow> bool \<Rightarrow> bool option" where
  "Submit_check pc dn = (if dn then Some True else if pc = SSent then Some False else None)"

text \<open>
  \<open>Execute\<close>: the states after it. An idle worker takes the task, whether or not the executor is stopped
  by then; on a stopped executor the task may be dropped instead.
\<close>

definition Execute :: "AsyncExecutor \<Rightarrow> AsyncExecutor list" where
  "Execute s =
     (case idle s of 0 \<Rightarrow> [] | Suc n \<Rightarrow> [s\<lparr>idle := n, in_task := in_task s + 1\<rparr>]) @
     (if stopped s then [s] else [])"

lemma Execute_cases:
  "s' \<in> set (Execute s) \<longleftrightarrow> (\<exists>n. idle s = Suc n \<and> s' = s\<lparr>idle := n, in_task := in_task s + 1\<rparr>) \<or> stopped s \<and> s' = s"
  by (cases "idle s") (auto simp: Execute_def)

inductive ex_step :: "AsyncExecutor \<Rightarrow> AsyncExecutor \<Rightarrow> bool" where
  submit:
    "ex_step s (s\<lparr>futs := futs s @ [NewFuture (stopped s)], submits := add_mset (length (futs s), SSelect) (submits s)\<rparr>)"
| submit_send:
    "submits s = add_mset (i, SSelect) S \<Longrightarrow> idle s = Suc n \<Longrightarrow>
     ex_step s (s\<lparr>submits := add_mset (i, SSent) S, idle := n, runs := add_mset (True, i, DSwap) (runs s)\<rparr>)"
| submit_return:
    "submits s = add_mset (i, pc) S \<Longrightarrow> Submit_check pc (stopped s) = Some False \<Longrightarrow>
     ex_step s (s\<lparr>submits := S, returned := insert i (returned s)\<rparr>)"
| submit_stopped:
    "submits s = add_mset (i, pc) S \<Longrightarrow> pc \<noteq> SCancel \<Longrightarrow> Submit_check pc (stopped s) = Some True \<Longrightarrow>
     ex_step s ((upd_fut i cancel_ctx s)\<lparr>submits := add_mset (i, SCancel) S\<rparr>)"
| submit_cancelled:
    "submits s = add_mset (i, SCancel) S \<Longrightarrow>
     ex_step s ((upd_fut i (cancelWithErr ErrCancelled) s)\<lparr>submits := S, returned := insert i (returned s)\<rparr>)"
| cancel:
    "i < length (futs s) \<Longrightarrow>
     ex_step s ((upd_fut i cancel_ctx s)\<lparr>cancels := add_mset (i, e) (cancels s)\<rparr>)"
| cancel_lock:
    "cancels s = add_mset (i, e) C \<Longrightarrow> ex_step s ((upd_fut i (cancelWithErr e) s)\<lparr>cancels := C\<rparr>)"
| do_call:
    "i < length (futs s) \<Longrightarrow> ex_step s (s\<lparr>runs := add_mset (False, i, DSwap) (runs s)\<rparr>)"
| do_first:
    "runs s = add_mset (w, i, DSwap) R \<Longrightarrow> Do_start (futs s ! i) = Some f \<Longrightarrow>
     ex_step s (s\<lparr>futs := (futs s)[i := f], runs := add_mset (w, i, DRun) R, started := add_mset i (started s)\<rparr>)"
| do_again:
    "runs s = add_mset (w, i, DSwap) R \<Longrightarrow> Do_start (futs s ! i) = None \<Longrightarrow>
     ex_step s (release_worker w (s\<lparr>runs := R\<rparr>))"
| do_action:
    "runs s = add_mset (w, i, DRun) R \<Longrightarrow> ex_step s (s\<lparr>runs := add_mset (w, i, DLock r e) R\<rparr>)"
| do_lock:
    "runs s = add_mset (w, i, DLock r e) R \<Longrightarrow>
     ex_step s (release_worker w ((upd_fut i (Do_finish r e) s)\<lparr>runs := R\<rparr>))"
| execute:
    "s' \<in> set (Execute s) \<Longrightarrow> ex_step s s'"
| task_end:
    "in_task s = Suc n \<Longrightarrow> ex_step s (s\<lparr>in_task := n, idle := idle s + 1\<rparr>)"
| worker_exit:
    "idle s = Suc n \<Longrightarrow> stopped s \<Longrightarrow> ex_step s (s\<lparr>idle := n, exited := exited s + 1\<rparr>)"
| stop:
    "ex_step s (Stop s)"

inductive ex_reach :: "nat \<Rightarrow> int \<Rightarrow> AsyncExecutor \<Rightarrow> bool" for ncpu n where
  start: "ex_reach ncpu n (NewAsyncExecutor ncpu n)"
| step: "ex_reach ncpu n s \<Longrightarrow> ex_step s s' \<Longrightarrow> ex_reach ncpu n s'"

section \<open>A future is resolved once\<close>

lemma upd_fut_simps [simp]:
  "runs (upd_fut i g s) = runs s" "cancels (upd_fut i g s) = cancels s" "submits (upd_fut i g s) = submits s"
  "stopped (upd_fut i g s) = stopped s" "started (upd_fut i g s) = started s" "returned (upd_fut i g s) = returned s"
  "idle (upd_fut i g s) = idle s" "in_task (upd_fut i g s) = in_task s" "exited (upd_fut i g s) = exited s"
  "futs (upd_fut i g s) = (futs s)[i := g (futs s ! i)]"
  by (simp_all add: upd_fut_def)

lemma release_worker_simps [simp]:
  "runs (release_worker w s) = runs s" "cancels (release_worker w s) = cancels s" "submits (release_worker w s) = submits s"
  "stopped (release_worker w s) = stopped s" "started (release_worker w s) = started s" "returned (release_worker w s) = returned s"
  "futs (release_worker w s) = futs s" "in_task (release_worker w s) = in_task s" "exited (release_worker w s) = exited s"
  "idle (release_worker w s) = idle s + (if w then 1 else 0)"
  by (simp_all add: release_worker_def)

text \<open>How a future develops: its result never changes once done, and it never runs again.\<close>

definition later :: "AsyncFuture \<Rightarrow> AsyncFuture \<Rightarrow> bool" where
  "later f f' \<longleftrightarrow> (fut_done f \<longrightarrow> Get f' = Get f) \<and> (fut_running f \<longrightarrow> fut_running f')"

lemma later_ops [simp]:
  "later f f" "later f (cancel_ctx f)" "later f (cancelWithErr e f)" "later f (Do_finish r x f)"
  "later f (f\<lparr>fut_running := True\<rparr>)"
  by (simp_all add: later_def Get_def cancel_ctx_def cancelWithErr_def Do_finish_def)

lemma later_update: "(\<And>f. later f (g f)) \<Longrightarrow> i < length fs \<Longrightarrow> later (fs ! i) (fs[j := g (fs ! j)] ! i)"
  by (cases "i = j") auto

lemma step_later:
  assumes "ex_step s s'" and "i < length (futs s)"
  shows "i < length (futs s') \<and> later (futs s ! i) (futs s' ! i)"
  using assms
proof (induction rule: ex_step.induct)
  case (do_first s w j R f)
  then have "f = (futs s ! j)\<lparr>fut_running := True\<rparr>" by (auto simp: Do_start_def split: if_splits)
  with do_first show ?case by (cases "i = j") auto
next
  case (submit s)
  then show ?case by (simp add: nth_append)
qed (auto simp: Stop_def Execute_cases intro: later_update)

section \<open>Submitted futures\<close>

definition in_action :: "nat \<Rightarrow> AsyncExecutor \<Rightarrow> bool" where
  "in_action i s \<longleftrightarrow> (\<exists>w. (w, i, DRun) \<in># runs s \<or> (\<exists>r e. (w, i, DLock r e) \<in># runs s))"

definition valid_ids :: "AsyncExecutor \<Rightarrow> bool" where
  "valid_ids s \<longleftrightarrow> (\<forall>(w, i, pc) \<in># runs s. i < length (futs s)) \<and> (\<forall>(i, pc) \<in># submits s. i < length (futs s)) \<and>
     (\<forall>(i, e) \<in># cancels s. i < length (futs s)) \<and> returned s \<subseteq> {..<length (futs s)} \<and>
     set_mset (started s) \<subseteq> {..<length (futs s)}"

text \<open>
  The action of a future has started exactly when \<open>running\<close> is set, and then it has not ended or the
  future is done.
\<close>

definition run_once :: "AsyncExecutor \<Rightarrow> bool" where
  "run_once s \<longleftrightarrow> (\<forall>i < length (futs s).
     count (started s) i = (if fut_running (futs s ! i) then 1 else 0) \<and>
     (fut_running (futs s ! i) \<longrightarrow> fut_done (futs s ! i) \<or> in_action i s))"

text \<open>A future that was sent is done, has started, or a worker is about to start it.\<close>

definition taken :: "AsyncExecutor \<Rightarrow> bool" where
  "taken s \<longleftrightarrow> (\<forall>i. i \<in> returned s \<or> (i, SSent) \<in># submits s \<longrightarrow>
     fut_done (futs s ! i) \<or> fut_running (futs s ! i) \<or> (True, i, DSwap) \<in># runs s)"

definition workers_kept :: "nat \<Rightarrow> AsyncExecutor \<Rightarrow> bool" where
  "workers_kept n s \<longleftrightarrow> idle s + in_task s + exited s + size (filter_mset fst (runs s)) = n"

lemma valid_step: "ex_step s s' \<Longrightarrow> valid_ids s \<Longrightarrow> valid_ids s'"
proof (induction rule: ex_step.induct)
  case (submit s)
  then show ?case by (fastforce simp: valid_ids_def)
qed (auto simp: valid_ids_def Stop_def Execute_cases)

lemma workers_step: "ex_step s s' \<Longrightarrow> workers_kept n s \<Longrightarrow> workers_kept n s'"
  by (induction rule: ex_step.induct) (auto simp: workers_kept_def Stop_def Execute_cases)

lemma fut_ops [simp]:
  "fut_running (cancel_ctx f) = fut_running f" "fut_done (cancel_ctx f) = fut_done f"
  "fut_running (cancelWithErr e f) = fut_running f" "fut_done (cancelWithErr e f)"
  "fut_running (Do_finish r x f) = fut_running f" "fut_done (Do_finish r x f)"
  by (simp_all add: cancel_ctx_def cancelWithErr_def Do_finish_def)

text \<open>Steps that only cancel, or only touch other parts of the state.\<close>

lemma run_once_mono:
  assumes "run_once s" and "length (futs s') = length (futs s)" and "started s' = started s"
    and "\<And>i. i < length (futs s) \<Longrightarrow> fut_running (futs s' ! i) = fut_running (futs s ! i) \<and>
      (fut_done (futs s ! i) \<longrightarrow> fut_done (futs s' ! i))"
    and "\<And>i. i < length (futs s) \<Longrightarrow> in_action i s \<Longrightarrow> in_action i s' \<or> fut_done (futs s' ! i)"
  shows "run_once s'"
  using assms unfolding run_once_def by metis

lemma taken_mono:
  assumes "taken s" and "valid_ids s"
    and "\<And>i. i < length (futs s) \<Longrightarrow> fut_done (futs s ! i) \<or> fut_running (futs s ! i) \<Longrightarrow>
      fut_done (futs s' ! i) \<or> fut_running (futs s' ! i)"
    and "\<And>i. i \<in> returned s' \<or> (i, SSent) \<in># submits s' \<Longrightarrow>
      (i \<in> returned s \<or> (i, SSent) \<in># submits s) \<or> fut_done (futs s' ! i) \<or> (True, i, DSwap) \<in># runs s'"
    and "\<And>i. (True, i, DSwap) \<in># runs s \<Longrightarrow> (True, i, DSwap) \<in># runs s' \<or> fut_done (futs s' ! i) \<or> fut_running (futs s' ! i)"
  shows "taken s'"
proof -
  have "i < length (futs s)" if "i \<in> returned s \<or> (i, SSent) \<in># submits s" for i
    using that assms(2) by (fastforce simp: valid_ids_def)
  with assms(1,3,4,5) show ?thesis unfolding taken_def by metis
qed

lemma upd_cases:
  "i < length fs \<Longrightarrow> fs[j := v] ! i = (if i = j then v else fs ! i)"
  by auto

lemma run_once_step: "ex_step s s' \<Longrightarrow> run_once s \<Longrightarrow> valid_ids s \<Longrightarrow> run_once s'"
proof (induction rule: ex_step.induct)
  case (submit s)
  have "count (started s) (length (futs s)) = 0"
    using submit(2) by (auto simp: valid_ids_def count_eq_zero_iff)
  with submit(1) show ?case by (auto simp: run_once_def nth_append NewFuture_def in_action_def less_Suc_eq)
next
  case (do_first s w j R f)
  then have f: "f = (futs s ! j)\<lparr>fut_running := True\<rparr>" "\<not> fut_running (futs s ! j)" "j < length (futs s)"
    by (auto simp: Do_start_def valid_ids_def split: if_splits)
  show ?case
    unfolding run_once_def
  proof (intro allI impI)
    fix i assume i: "i < length (futs (s\<lparr>futs := (futs s)[j := f], runs := add_mset (w, j, DRun) R, started := add_mset j (started s)\<rparr>))"
    with do_first(1,3) f
    show "count (started (s\<lparr>futs := (futs s)[j := f], runs := add_mset (w, j, DRun) R, started := add_mset j (started s)\<rparr>)) i =
        (if fut_running (futs (s\<lparr>futs := (futs s)[j := f], runs := add_mset (w, j, DRun) R, started := add_mset j (started s)\<rparr>) ! i) then 1 else 0) \<and>
      (fut_running (futs (s\<lparr>futs := (futs s)[j := f], runs := add_mset (w, j, DRun) R, started := add_mset j (started s)\<rparr>) ! i) \<longrightarrow>
        fut_done (futs (s\<lparr>futs := (futs s)[j := f], runs := add_mset (w, j, DRun) R, started := add_mset j (started s)\<rparr>) ! i) \<or>
        in_action i (s\<lparr>futs := (futs s)[j := f], runs := add_mset (w, j, DRun) R, started := add_mset j (started s)\<rparr>))"
      by (cases "i = j") (auto simp: run_once_def in_action_def)
  qed
next
  case (do_again s w i R)
  then show ?case by (intro run_once_mono [OF do_again(3)]) (auto simp: in_action_def)
next
  case (do_action s w i R r e)
  then show ?case by (intro run_once_mono [OF do_action(2)]) (auto simp: in_action_def)
next
  case (do_lock s w i r e R)
  then show ?case by (intro run_once_mono [OF do_lock(2)]) (auto simp: in_action_def upd_cases)
next
  case (execute s' s)
  then have "futs s' = futs s" "started s' = started s" "runs s' = runs s" by (auto simp: Execute_cases)
  with execute(2) show ?case by (simp add: run_once_def in_action_def)
next
  case (stop s)
  then show ?case by (intro run_once_mono [OF stop(1)]) (auto simp: in_action_def Stop_def)
qed (rule run_once_mono, assumption, auto simp: in_action_def upd_cases)+

lemma taken_step: "ex_step s s' \<Longrightarrow> taken s \<Longrightarrow> valid_ids s \<Longrightarrow> taken s'"
proof (induction rule: ex_step.induct)
  case (submit s)
  have "(length (futs s), SSelect) \<noteq> (i, SSent)" for i by simp
  with submit show ?case by (intro taken_mono [OF submit]) (auto simp: nth_append)
next
  case (do_first s w j R f)
  then have "f = (futs s ! j)\<lparr>fut_running := True\<rparr>" "j < length (futs s)"
    by (auto simp: Do_start_def valid_ids_def split: if_splits)
  with do_first show ?case by (intro taken_mono [OF do_first(3,4)]) (auto simp: upd_cases)
next
  case (do_again s w i R)
  then show ?case
    by (intro taken_mono [OF do_again(3,4)]) (auto simp: Do_start_def split: if_splits)
next
  case (submit_return s i pc S)
  then have "pc = SSent" by (auto simp: Submit_check_def split: if_splits)
  with submit_return show ?case by (intro taken_mono [OF submit_return(3,4)]) auto
next
  case (submit_cancelled s i S)
  then have "i < length (futs s)" by (auto simp: valid_ids_def)
  with submit_cancelled show ?case by (intro taken_mono [OF submit_cancelled(2,3)]) (auto simp: upd_cases)
next
  case (execute s' s)
  then show ?case by (intro taken_mono [OF execute(2,3)]) (auto simp: Execute_cases)
next
  case (stop s)
  then show ?case by (intro taken_mono [OF stop]) (auto simp: Stop_def valid_ids_def)
qed (rule taken_mono, assumption, assumption, auto simp: upd_cases)+

lemma ex_reach_inv:
  assumes "ex_reach ncpu n s"
  shows "valid_ids s \<and> run_once s \<and> taken s \<and> workers_kept (if n < 1 then ncpu else nat n) s"
  using assms
proof (induction rule: ex_reach.induct)
  case start
  show ?case by (simp add: NewAsyncExecutor_def valid_ids_def run_once_def taken_def workers_kept_def)
next
  case (step s s')
  then show ?case by (simp add: valid_step run_once_step taken_step workers_step)
qed

text \<open>
  C29. Futures under every interleaving of submitters, workers, cancellations, direct calls of \<open>Do\<close> and
  \<open>Stop\<close>: an action starts at most once; the result of a resolved future never changes; no worker is
  lost; and a future that \<open>Submit\<close> returned is resolved or a goroutine is inside \<open>Do\<close> for it, so that
  once all calls of \<open>Do\<close> have ended \<open>Get\<close> returns.
\<close>

theorem submitted_futures_resolve:
  assumes "ex_reach ncpu n s"
  shows "(\<forall>i < length (futs s). count (started s) i \<le> 1)
    \<and> (\<forall>s' i. ex_step s s' \<longrightarrow> i < length (futs s) \<longrightarrow> fut_done (futs s ! i) \<longrightarrow> Get (futs s' ! i) = Get (futs s ! i))
    \<and> idle s + in_task s + exited s + size (filter_mset fst (runs s)) = (if n < 1 then ncpu else nat n)
    \<and> (\<forall>i \<in> returned s. i < length (futs s) \<and> ((\<exists>r. Get (futs s ! i) = Some r) \<or> (\<exists>w pc. (w, i, pc) \<in># runs s)))
    \<and> (runs s = {#} \<longrightarrow> (\<forall>i \<in> returned s. \<exists>r. Get (futs s ! i) = Some r))"
proof -
  have inv: "valid_ids s" "run_once s" "taken s" "workers_kept (if n < 1 then ncpu else nat n) s"
    using ex_reach_inv [OF assms] by simp_all
  have ret: "i < length (futs s) \<and> ((\<exists>r. Get (futs s ! i) = Some r) \<or> (\<exists>w pc. (w, i, pc) \<in># runs s))"
    if "i \<in> returned s" for i
  proof -
    have "i < length (futs s)" using that inv(1) by (auto simp: valid_ids_def)
    moreover have "fut_done (futs s ! i) \<or> fut_running (futs s ! i) \<or> (True, i, DSwap) \<in># runs s"
      using that inv(3) by (simp add: taken_def)
    ultimately have "i < length (futs s)" "fut_done (futs s ! i) \<or> in_action i s \<or> (True, i, DSwap) \<in># runs s"
      using inv(2) by (auto simp: run_once_def)
    then show ?thesis unfolding in_action_def Get_def by auto
  qed
  have "count (started s) i \<le> 1" if "i < length (futs s)" for i
    using inv(2) that by (simp add: run_once_def)
  moreover have "Get (futs s' ! i) = Get (futs s ! i)"
    if "ex_step s s'" "i < length (futs s)" "fut_done (futs s ! i)" for s' i
    using step_later [OF that(1,2)] that(3) by (simp add: later_def)
  ultimately show ?thesis using inv(4) ret by (simp add: workers_kept_def) fastforce
qed

theorem submitted_futures_resolve_witness:
  "\<exists>s. ex_reach 4 2 s \<and> returned s = {0} \<and> (\<exists>r. Get (futs s ! 0) = Some r)"
proof -
  let ?s0 = "NewAsyncExecutor 4 2"
  let ?s1 = "?s0\<lparr>futs := futs ?s0 @ [NewFuture (stopped ?s0)], submits := add_mset (length (futs ?s0), SSelect) (submits ?s0)\<rparr>"
  let ?s2 = "Stop ?s1"
  let ?s3 = "(upd_fut 0 cancel_ctx ?s2)\<lparr>submits := {#(0, SCancel)#}\<rparr>"
  let ?s4 = "(upd_fut 0 (cancelWithErr ErrCancelled) ?s3)\<lparr>submits := {#}, returned := insert 0 (returned ?s3)\<rparr>"
  have "ex_reach 4 2 ?s2" by (intro ex_reach.step [OF _ ex_step.stop] ex_reach.step [OF _ ex_step.submit] ex_reach.start)
  moreover have "ex_step ?s2 ?s3"
    by (rule ex_step.submit_stopped [of _ _ SSelect]) (simp_all add: Stop_def NewAsyncExecutor_def Submit_check_def)
  moreover have "ex_step ?s3 ?s4" by (rule ex_step.submit_cancelled) simp
  ultimately have r: "ex_reach 4 2 ?s4" by (meson ex_reach.step)
  have "runs ?s4 = {#}" "returned ?s4 = {0}" by (simp_all add: Stop_def NewAsyncExecutor_def)
  moreover from this have "\<exists>r. Get (futs ?s4 ! 0) = Some r" using submitted_futures_resolve [OF r] by blast
  ultimately show ?thesis using r by blast
qed

end
