(* ===== verification/Pipeline_List.thy ===== *)
theory Pipeline_List
  imports Go_Prelude
begin

text \<open>
  The handler pipeline of \<open>internal/handler/linked_pipeline.go\<close> and \<open>node_context.go\<close>: a doubly linked
  list of node contexts between a head and a tail. Nodes live in a store and point to each other by
  address, as the pointers of the code do, so that a half-finished insertion is a state of the model.
  A panic is an outcome together with the state it leaves. \<open>linked\<close> relates a store to the sequence of
  its nodes, and the operations are shown to implement operations on that sequence.
\<close>

section \<open>Handlers and messages\<close>

text \<open>
  A handler is a value of any type; what matters is which of the interfaces of
  \<open>pkg/handler/handler.go\<close> it implements. The handlers the package brings are named, all others are
  user handlers with their capabilities.
\<close>

record caps =
  cap_active :: bool
  cap_inbound :: bool
  cap_outbound :: bool
  cap_exception :: bool
  cap_inactive :: bool
  cap_executor :: bool

datatype handler = HeadHandler | TailHeader | ErrorHandler | UserHandler nat caps

definition caps_of :: "handler \<Rightarrow> caps" where
  "caps_of h =
     (let none = \<lparr>cap_active = False, cap_inbound = False, cap_outbound = False, cap_exception = False,
                  cap_inactive = False, cap_executor = False\<rparr>
      in case h of
           HeadHandler \<Rightarrow> none\<lparr>cap_outbound := True\<rparr>
         | TailHeader \<Rightarrow> none\<lparr>cap_exception := True\<rparr>
         | ErrorHandler \<Rightarrow> none\<lparr>cap_exception := True\<rparr>
         | UserHandler _ c \<Rightarrow> c)"

text \<open>\<open>IsValidHandlers\<close>; \<open>None\<close> is the nil handler.\<close>

definition valid_handler :: "handler \<Rightarrow> bool" where
  "valid_handler h \<longleftrightarrow>
     (let c = caps_of h in cap_active c \<or> cap_inbound c \<or> cap_outbound c \<or> cap_inactive c \<or>
        cap_executor c \<or> cap_exception c)"

fun IsValidHandlers :: "handler option list \<Rightarrow> bool" where
  "IsValidHandlers [] = True"
| "IsValidHandlers (None # hs) = False"
| "IsValidHandlers (Some h # hs) = (if valid_handler h then IsValidHandlers hs else False)"

lemma IsValidHandlers_iff:
  "IsValidHandlers hs \<longleftrightarrow> (\<exists>ks. hs = map Some ks \<and> list_all valid_handler ks)"
proof (induction hs rule: IsValidHandlers.induct)
  case (3 h hs)
  show ?case
  proof
    assume "IsValidHandlers (Some h # hs)"
    then obtain ks where "hs = map Some ks" "list_all valid_handler ks" "valid_handler h"
      using 3 by (auto split: if_splits)
    then show "\<exists>ks. Some h # hs = map Some ks \<and> list_all valid_handler ks"
      by (intro exI [of _ "h # ks"]) simp
  qed (use 3 in auto)
qed auto

section \<open>Node contexts and pipelines\<close>

record NodeContext =
  nc_handler :: handler
  nc_prev :: "nat option"
  nc_next :: "nat option"
  activeHandler :: bool
  inboundHandler :: bool
  outboundHandler :: bool
  exceptionHandler :: bool
  inactiveHandler :: bool
  executorHandler :: bool
  attachment :: "nat option"

text \<open>
  The connection: what has been written, whether it is closed, and how many bytes it will still take
  before a write fails (\<open>None\<close>: any number).
\<close>

record conn =
  written :: bytes
  conn_closed :: bool
  room :: "nat option"

record LinkedPipeline =
  pl_head :: nat
  pl_tail :: nat
  pl_conn :: conn
  pl_size :: nat
  nodes :: "NodeContext list"

datatype pl_panic = InvalidHandler | InvalidPosition | NilDereference

type_synonym pl_result = "pl_panic option \<times> LinkedPipeline"

definition NewNodeContext :: "handler \<Rightarrow> nat option \<Rightarrow> nat option \<Rightarrow> NodeContext" where
  "NewNodeContext h prv nxt =
     \<lparr>nc_handler = h, nc_prev = prv, nc_next = nxt,
      activeHandler = cap_active (caps_of h), inboundHandler = cap_inbound (caps_of h),
      outboundHandler = cap_outbound (caps_of h), exceptionHandler = cap_exception (caps_of h),
      inactiveHandler = cap_inactive (caps_of h), executorHandler = cap_executor (caps_of h),
      attachment = None\<rparr>"

definition NewPipeline :: "conn \<Rightarrow> LinkedPipeline" where
  "NewPipeline c =
     \<lparr>pl_head = 0, pl_tail = 1, pl_conn = c, pl_size = 2,
      nodes = [NewNodeContext HeadHandler None (Some 1), NewNodeContext TailHeader (Some 0) None]\<rparr>"

text \<open>Assignments through a pointer, and the allocation of a node.\<close>

definition set_next :: "nat \<Rightarrow> nat option \<Rightarrow> LinkedPipeline \<Rightarrow> LinkedPipeline" where
  "set_next a v p = p\<lparr>nodes := (nodes p)[a := (nodes p ! a)\<lparr>nc_next := v\<rparr>]\<rparr>"

definition set_prev :: "nat \<Rightarrow> nat option \<Rightarrow> LinkedPipeline \<Rightarrow> LinkedPipeline" where
  "set_prev a v p = p\<lparr>nodes := (nodes p)[a := (nodes p ! a)\<lparr>nc_prev := v\<rparr>]\<rparr>"

definition alloc :: "NodeContext \<Rightarrow> LinkedPipeline \<Rightarrow> nat \<times> LinkedPipeline" where
  "alloc n p = (length (nodes p), p\<lparr>nodes := nodes p @ [n]\<rparr>)"

definition size_inc :: "LinkedPipeline \<Rightarrow> LinkedPipeline" where
  "size_inc p = p\<lparr>pl_size := pl_size p + 1\<rparr>"

section \<open>Insertion\<close>

text \<open>
  The statements of \<open>addFirst\<close> and of the loop of \<open>AddHandler\<close>: link a new node behind \<open>cur\<close>. The
  node is already the successor of \<open>cur\<close> when the assignment to \<open>oldNext.prev\<close> panics.
\<close>

definition insert_after :: "nat \<Rightarrow> handler \<Rightarrow> LinkedPipeline \<Rightarrow> nat \<times> pl_result" where
  "insert_after cur h p =
     (let oldNext = nc_next (nodes p ! cur);
          (a, p1) = alloc (NewNodeContext h (Some cur) oldNext) p;
          p2 = set_next cur (Some a) p1
      in (a, case oldNext of
               None \<Rightarrow> (Some NilDereference, p2)
             | Some o' \<Rightarrow> (None, size_inc (set_prev o' (Some a) p2))))"

definition addFirst :: "handler \<Rightarrow> LinkedPipeline \<Rightarrow> pl_result" where
  "addFirst h p = snd (insert_after (pl_head p) h p)"

definition addLast :: "handler \<Rightarrow> LinkedPipeline \<Rightarrow> pl_result" where
  "addLast h p =
     (let oldPrev = nc_prev (nodes p ! pl_tail p);
          (a, p1) = alloc (NewNodeContext h oldPrev (Some (pl_tail p))) p;
          p2 = set_prev (pl_tail p) (Some a) p1
      in case oldPrev of
           None \<Rightarrow> (Some NilDereference, p2)
         | Some o' \<Rightarrow> (None, size_inc (set_next o' (Some a) p2)))"

text \<open>The loops over the handlers; after \<open>IsValidHandlers\<close> none of them is nil.\<close>

fun add_all :: "(handler \<Rightarrow> LinkedPipeline \<Rightarrow> pl_result) \<Rightarrow> handler option list \<Rightarrow> LinkedPipeline \<Rightarrow> pl_result" where
  "add_all add [] p = (None, p)"
| "add_all add (None # hs) p = (Some InvalidHandler, p)"
| "add_all add (Some h # hs) p =
     (case add h p of
        (Some e, p') \<Rightarrow> (Some e, p')
      | (None, p') \<Rightarrow> add_all add hs p')"

definition AddFirst :: "handler option list \<Rightarrow> LinkedPipeline \<Rightarrow> pl_result" where
  "AddFirst hs p = (if \<not> IsValidHandlers hs then (Some InvalidHandler, p) else add_all addFirst hs p)"

definition AddLast :: "handler option list \<Rightarrow> LinkedPipeline \<Rightarrow> pl_result" where
  "AddLast hs p = (if \<not> IsValidHandlers hs then (Some InvalidHandler, p) else add_all addLast hs p)"

definition WithDefaultPipeline :: "LinkedPipeline option \<Rightarrow> string + pl_result" where
  "WithDefaultPipeline op =
     (case op of
        None \<Rightarrow> Inl ''pipeline is nil''
      | Some p \<Rightarrow> Inr (AddLast [Some ErrorHandler] p))"

fun advance :: "nat \<Rightarrow> LinkedPipeline \<Rightarrow> nat option \<Rightarrow> pl_panic + nat option" where
  "advance 0 p cur = Inr cur"
| "advance (Suc n) p None = Inl NilDereference"
| "advance (Suc n) p (Some a) = advance n p (nc_next (nodes p ! a))"

fun AddHandler_loop :: "nat option \<Rightarrow> handler option list \<Rightarrow> LinkedPipeline \<Rightarrow> pl_result" where
  "AddHandler_loop cur [] p = (None, p)"
| "AddHandler_loop cur (None # hs) p = (Some InvalidHandler, p)"
| "AddHandler_loop None (Some h # hs) p = (Some NilDereference, p)"
| "AddHandler_loop (Some a) (Some h # hs) p =
     (case insert_after a h p of
        (b, Some e, p') \<Rightarrow> (Some e, p')
      | (b, None, p') \<Rightarrow> AddHandler_loop (Some b) hs p')"

definition AddHandler :: "int \<Rightarrow> handler option list \<Rightarrow> LinkedPipeline \<Rightarrow> pl_result" where
  "AddHandler position hs p =
     (if \<not> IsValidHandlers hs then (Some InvalidHandler, p)
      else if position < 0 \<or> position > int (pl_size p) then (Some InvalidPosition, p)
      else if position = 0 then AddFirst hs p
      else if position = int (pl_size p) then AddLast hs p
      else case advance (nat position) p (Some (pl_head p)) of
             Inl e \<Rightarrow> (Some e, p)
           | Inr cur \<Rightarrow> AddHandler_loop cur hs p)"

section \<open>Lookup\<close>

text \<open>
  The loops follow the pointers until nil. On a store with a cycle they would not end, so they are
  partial; on linked stores they are shown to return.
\<close>

partial_function (option) IndexOf_loop ::
  "NodeContext list \<Rightarrow> (handler \<Rightarrow> bool) \<Rightarrow> nat \<Rightarrow> int \<Rightarrow> int option" where
  "IndexOf_loop ns f cur i =
     (if f (nc_handler (ns ! cur)) then Some i
      else case nc_next (ns ! cur) of
             None \<Rightarrow> Some (- 1)
           | Some c \<Rightarrow> IndexOf_loop ns f c (i + 1))"

definition IndexOf :: "LinkedPipeline \<Rightarrow> (handler \<Rightarrow> bool) \<Rightarrow> int option" where
  "IndexOf p f = IndexOf_loop (nodes p) f (pl_head p) 0"

partial_function (option) LastIndexOf_loop ::
  "NodeContext list \<Rightarrow> (handler \<Rightarrow> bool) \<Rightarrow> nat \<Rightarrow> int \<Rightarrow> int option" where
  "LastIndexOf_loop ns f cur i =
     (if f (nc_handler (ns ! cur)) then Some i
      else case nc_prev (ns ! cur) of
             None \<Rightarrow> Some (- 1)
           | Some c \<Rightarrow> LastIndexOf_loop ns f c (i - 1))"

definition LastIndexOf :: "LinkedPipeline \<Rightarrow> (handler \<Rightarrow> bool) \<Rightarrow> int option" where
  "LastIndexOf p f = LastIndexOf_loop (nodes p) f (pl_tail p) (int (pl_size p) - 1)"

fun ContextAt_loop :: "NodeContext list \<Rightarrow> nat \<Rightarrow> nat \<Rightarrow> nat option" where
  "ContextAt_loop ns 0 a = Some a"
| "ContextAt_loop ns (Suc n) a =
     (case nc_next (ns ! a) of None \<Rightarrow> None | Some b \<Rightarrow> ContextAt_loop ns n b)"

definition ContextAt :: "LinkedPipeline \<Rightarrow> int \<Rightarrow> nat option" where
  "ContextAt p position =
     (if position < 0 \<or> position \<ge> int (pl_size p) then None
      else ContextAt_loop (nodes p) (nat position) (pl_head p))"

definition Size :: "LinkedPipeline \<Rightarrow> nat" where
  "Size p = pl_size p"

definition Attachment :: "nat \<Rightarrow> LinkedPipeline \<Rightarrow> nat option" where
  "Attachment a p = attachment (nodes p ! a)"

definition SetAttachment :: "nat \<Rightarrow> nat option \<Rightarrow> LinkedPipeline \<Rightarrow> LinkedPipeline" where
  "SetAttachment a v p = p\<lparr>nodes := (nodes p)[a := (nodes p ! a)\<lparr>attachment := v\<rparr>]\<rparr>"

section \<open>Linked stores\<close>

text \<open>
  \<open>links ns xs\<close>: consecutive addresses of \<open>xs\<close> point to each other. \<open>linked p xs hs\<close>: the pipeline's
  nodes are \<open>xs\<close>, from head to tail, with the handlers \<open>hs\<close>, and the cached interface values of
  every node agree with its handler.
\<close>

fun links :: "NodeContext list \<Rightarrow> nat list \<Rightarrow> bool" where
  "links ns [] = True"
| "links ns [a] = True"
| "links ns (a # b # xs) \<longleftrightarrow> nc_next (ns ! a) = Some b \<and> nc_prev (ns ! b) = Some a \<and> links ns (b # xs)"

definition caps_cached :: "NodeContext \<Rightarrow> bool" where
  "caps_cached n \<longleftrightarrow>
     activeHandler n = cap_active (caps_of (nc_handler n)) \<and>
     inboundHandler n = cap_inbound (caps_of (nc_handler n)) \<and>
     outboundHandler n = cap_outbound (caps_of (nc_handler n)) \<and>
     exceptionHandler n = cap_exception (caps_of (nc_handler n)) \<and>
     inactiveHandler n = cap_inactive (caps_of (nc_handler n)) \<and>
     executorHandler n = cap_executor (caps_of (nc_handler n))"

definition linked :: "LinkedPipeline \<Rightarrow> nat list \<Rightarrow> handler list \<Rightarrow> bool" where
  "linked p xs hs \<longleftrightarrow>
     distinct xs \<and> 2 \<le> length xs \<and> pl_size p = length xs \<and> pl_head p = hd xs \<and> pl_tail p = last xs \<and>
     links (nodes p) xs \<and> nc_prev (nodes p ! hd xs) = None \<and> nc_next (nodes p ! last xs) = None \<and>
     (\<forall>a \<in> set xs. a < length (nodes p) \<and> caps_cached (nodes p ! a)) \<and>
     map (\<lambda>a. nc_handler (nodes p ! a)) xs = hs"

lemma links_append: "links ns (xs @ a # ys) \<longleftrightarrow> links ns (xs @ [a]) \<and> links ns (a # ys)"
  by (induction ns xs rule: links.induct) (auto simp: neq_Nil_conv)

lemmas links_split = iffD1 [OF links_append]
lemmas links_join = iffD2 [OF links_append, OF conjI]

lemma links_cong:
  assumes "\<And>a. a \<in> set (butlast xs) \<Longrightarrow> nc_next (ns' ! a) = nc_next (ns ! a)"
    and "\<And>a. a \<in> set (tl xs) \<Longrightarrow> nc_prev (ns' ! a) = nc_prev (ns ! a)"
  shows "links ns' xs = links ns xs"
  using assms
proof (induction ns xs rule: links.induct)
  case (3 ns a b xs)
  have "links ns' (b # xs) = links ns (b # xs)"
    by (rule "3.IH") (use "3.prems" in \<open>auto split: if_splits\<close>)
  with "3.prems" [of a] "3.prems"(2) [of b] show ?case by auto
qed auto

lemma caps_cached_New [simp]: "caps_cached (NewNodeContext h prv nxt)"
  by (simp add: caps_cached_def NewNodeContext_def)

lemma caps_cached_upd [simp]:
  "caps_cached (n\<lparr>nc_next := v\<rparr>) = caps_cached n"
  "caps_cached (n\<lparr>nc_prev := v\<rparr>) = caps_cached n"
  "caps_cached (n\<lparr>attachment := w\<rparr>) = caps_cached n"
  by (simp_all add: caps_cached_def)

lemma linked_New: "linked (NewPipeline c) [0, 1] [HeadHandler, TailHeader]"
  by (simp add: linked_def NewPipeline_def) (simp add: NewNodeContext_def)

lemma linked_handler_at: "linked p xs hs \<Longrightarrow> i < length xs \<Longrightarrow> nc_handler (nodes p ! (xs ! i)) = hs ! i"
  by (auto simp: linked_def)

lemma linked_length: "linked p xs hs \<Longrightarrow> length hs = length xs \<and> pl_size p = length xs \<and> 2 \<le> length xs"
  by (auto simp: linked_def)

lemma linked_bound: "linked p xs hs \<Longrightarrow> i < length xs \<Longrightarrow> xs ! i < length (nodes p)"
  by (simp add: linked_def)

lemma links_nth:
  assumes "links ns xs" and "Suc i < length xs"
  shows "nc_next (ns ! (xs ! i)) = Some (xs ! Suc i) \<and> nc_prev (ns ! (xs ! Suc i)) = Some (xs ! i)"
  using assms
proof (induction ns xs arbitrary: i rule: links.induct)
  case (3 ns a b xs)
  then show ?case by (cases i) auto
qed auto

lemma linked_next_nth:
  assumes "linked p xs hs" and "i < length xs"
  shows "nc_next (nodes p ! (xs ! i)) = (if Suc i < length xs then Some (xs ! Suc i) else None)"
proof (cases "Suc i < length xs")
  case True
  with assms show ?thesis using links_nth [of "nodes p" xs i] by (simp add: linked_def)
next
  case False
  with assms have "xs ! i = last xs"
    by (metis Suc_lessI diff_Suc_1 gr_implies_not0 last_conv_nth length_0_conv)
  with assms False show ?thesis by (simp add: linked_def)
qed

lemma linked_prev_nth:
  assumes "linked p xs hs" and "i < length xs"
  shows "nc_prev (nodes p ! (xs ! i)) = (if i = 0 then None else Some (xs ! (i - 1)))"
proof (cases i)
  case 0
  moreover have "xs \<noteq> []" using assms by auto
  ultimately show ?thesis using assms by (simp add: linked_def hd_conv_nth)
next
  case (Suc j)
  with assms show ?thesis using links_nth [of "nodes p" xs j] by (simp add: linked_def)
qed

lemma linked_head_tail:
  assumes "linked p xs hs"
  shows "pl_head p = xs ! 0" and "pl_tail p = xs ! (length xs - 1)"
proof -
  have "xs \<noteq> []" using assms by (auto simp: linked_def)
  with assms show "pl_head p = xs ! 0" "pl_tail p = xs ! (length xs - 1)"
    by (simp_all add: linked_def hd_conv_nth last_conv_nth)
qed

section \<open>The insertions on the sequence of handlers\<close>

text \<open>Linking a node between \<open>cur\<close> and its successor.\<close>

definition spliced :: "LinkedPipeline \<Rightarrow> nat \<Rightarrow> handler \<Rightarrow> nat \<Rightarrow> LinkedPipeline" where
  "spliced p cur h nx =
     size_inc (set_prev nx (Some (length (nodes p)))
       (set_next cur (Some (length (nodes p)))
         (snd (alloc (NewNodeContext h (Some cur) (Some nx)) p))))"

lemma insert_after_spliced:
  "nc_next (nodes p ! cur) = Some nx \<Longrightarrow>
     insert_after cur h p = (length (nodes p), None, spliced p cur h nx)"
  by (simp add: insert_after_def alloc_def spliced_def)

lemma addLast_spliced:
  assumes "nc_prev (nodes p ! pl_tail p) = Some pv" and "pv \<noteq> pl_tail p"
    and "pv < length (nodes p)" and "pl_tail p < length (nodes p)"
  shows "addLast h p = (None, spliced p pv h (pl_tail p))"
  using assms
  by (simp add: addLast_def alloc_def spliced_def set_prev_def set_next_def size_inc_def
      list_update_swap nth_append list_update_append)

lemma spliced_simps [simp]:
  "pl_head (spliced p cur h nx) = pl_head p" "pl_tail (spliced p cur h nx) = pl_tail p"
  "pl_conn (spliced p cur h nx) = pl_conn p" "pl_size (spliced p cur h nx) = pl_size p + 1"
  "length (nodes (spliced p cur h nx)) = Suc (length (nodes p))"
  by (simp_all add: spliced_def size_inc_def set_prev_def set_next_def alloc_def)

lemma spliced_nodes:
  assumes "cur < length (nodes p)" and "nx < length (nodes p)" and "cur \<noteq> nx" and "a < length (nodes p)"
  shows "nodes (spliced p cur h nx) ! a =
    (if a = cur then (nodes p ! a)\<lparr>nc_next := Some (length (nodes p))\<rparr>
     else if a = nx then (nodes p ! a)\<lparr>nc_prev := Some (length (nodes p))\<rparr> else nodes p ! a)"
    and "nodes (spliced p cur h nx) ! length (nodes p) = NewNodeContext h (Some cur) (Some nx)"
  using assms
  by (auto simp: spliced_def size_inc_def set_prev_def set_next_def alloc_def nth_append nth_list_update)

lemma NewNodeContext_simps [simp]:
  "nc_handler (NewNodeContext h prv nxt) = h" "nc_prev (NewNodeContext h prv nxt) = prv"
  "nc_next (NewNodeContext h prv nxt) = nxt"
  by (simp_all add: NewNodeContext_def)

lemma links_spliced:
  assumes lk: "links (nodes p) (ys @ cur # nx # zs)" and d: "distinct (ys @ cur # nx # zs)"
    and b: "\<forall>a \<in> set (ys @ cur # nx # zs). a < length (nodes p)"
  shows "links (nodes (spliced p cur h nx)) (ys @ cur # length (nodes p) # nx # zs)"
proof -
  let ?a = "length (nodes p)" and ?p = "spliced p cur h nx"
  have pre: "cur < ?a" "nx < ?a" "cur \<noteq> nx" using d b by auto
  note nd = spliced_nodes [where p = p and cur = cur and nx = nx and h = h, OF pre]
  have "links (nodes ?p) (ys @ [cur]) = links (nodes p) (ys @ [cur])"
  proof (rule links_cong)
    fix a assume "a \<in> set (tl (ys @ [cur]))"
    then have "a \<in> set (ys @ [cur])" by (metis list.sel(2) list.set_sel(2))
    then show "nc_prev (nodes ?p ! a) = nc_prev (nodes p ! a)" using nd(1) [of a] b d by auto
  qed (use nd(1) b d in auto)
  moreover have "links (nodes ?p) (nx # zs) = links (nodes p) (nx # zs)"
  proof (rule links_cong)
    fix a assume "a \<in> set (butlast (nx # zs))"
    then have "a \<in> set (nx # zs)" by (rule in_set_butlastD)
    then show "nc_next (nodes ?p ! a) = nc_next (nodes p ! a)" using nd(1) [of a] b d by auto
  qed (use nd(1) b d in auto)
  moreover have "links (nodes p) (ys @ [cur])" "links (nodes p) (nx # zs)"
    using links_split [OF lk] by simp_all
  moreover have "nc_next (nodes ?p ! cur) = Some ?a" "nc_prev (nodes ?p ! nx) = Some ?a"
    using nd(1) [of cur] nd(1) [of nx] pre by auto
  ultimately have "links (nodes ?p) (ys @ [cur])" "links (nodes ?p) (cur # ?a # nx # zs)"
    using nd(2) [of cur] pre by simp_all
  then show ?thesis by (rule links_join)
qed

lemma linked_spliced:
  assumes l: "linked p (ys @ cur # nx # zs) (hs1 @ hs2)" and len: "length hs1 = Suc (length ys)"
  shows "linked (spliced p cur h nx) (ys @ cur # length (nodes p) # nx # zs) (hs1 @ h # hs2)"
proof -
  let ?a = "length (nodes p)" and ?p = "spliced p cur h nx" and ?xs = "ys @ cur # nx # zs"
  have d: "distinct ?xs" and b: "\<forall>a \<in> set ?xs. a < ?a" and c: "\<forall>a \<in> set ?xs. caps_cached (nodes p ! a)"
    and m: "map (\<lambda>a. nc_handler (nodes p ! a)) (ys @ [cur]) @ map (\<lambda>a. nc_handler (nodes p ! a)) (nx # zs) = hs1 @ hs2"
    using l by (simp_all add: linked_def)
  have pre: "cur < ?a" "nx < ?a" "cur \<noteq> nx" using d b by auto
  note nd = spliced_nodes [where p = p and cur = cur and nx = nx and h = h, OF pre]
  have new: "nodes ?p ! ?a = NewNodeContext h (Some cur) (Some nx)" using nd(2) [of cur] pre by simp
  have old: "nc_handler (nodes ?p ! a) = nc_handler (nodes p ! a)" "caps_cached (nodes ?p ! a)"
    if "a \<in> set ?xs" for a
    using nd(1) [of a] that bspec [OF b that] bspec [OF c that] by auto
  have hd_eq: "hd (ys @ cur # ws) = hd (ys @ [cur])" for ws by (cases ys) auto
  have "hd (ys @ [cur]) \<in> set (ys @ [cur])" "last (nx # zs) \<in> set (nx # zs)"
    by (cases ys, auto)
  moreover have "nc_prev (nodes p ! hd (ys @ [cur])) = None" "nc_next (nodes p ! last (nx # zs)) = None"
    using l hd_eq [of "nx # zs"] by (simp_all add: linked_def)
  ultimately have ends: "nc_prev (nodes ?p ! hd (ys @ [cur])) = None" "nc_next (nodes ?p ! last (nx # zs)) = None"
    using nd(1) [of "hd (ys @ [cur])"] nd(1) [of "last (nx # zs)"] b d by auto
  have "hs1 = map (\<lambda>a. nc_handler (nodes p ! a)) (ys @ [cur])" "hs2 = map (\<lambda>a. nc_handler (nodes p ! a)) (nx # zs)"
    using m len append_eq_append_conv [of "map (\<lambda>a. nc_handler (nodes p ! a)) (ys @ [cur])" hs1] by auto
  then have "map (\<lambda>a. nc_handler (nodes ?p ! a)) (ys @ cur # ?a # nx # zs) = hs1 @ h # hs2"
    using old(1) new by simp
  moreover have "a < length (nodes ?p) \<and> caps_cached (nodes ?p ! a)" if "a \<in> set (ys @ cur # ?a # nx # zs)" for a
  proof (cases "a = ?a")
    case False
    with that have a: "a \<in> set ?xs" by auto
    then show ?thesis using old(2) [OF a] bspec [OF b a] by simp
  qed (simp add: new)
  moreover have "distinct (ys @ cur # ?a # nx # zs)" using d b by auto
  moreover have "links (nodes ?p) (ys @ cur # ?a # nx # zs)"
    using l by (intro links_spliced b d) (simp add: linked_def)
  ultimately show ?thesis
    using l ends hd_eq [of "?a # nx # zs"] hd_eq [of "nx # zs"] by (simp add: linked_def)
qed

lemma insert_after_linked:
  assumes "linked p xs hs" and "Suc i < length xs"
  shows "\<exists>p'. insert_after (xs ! i) h p = (length (nodes p), None, p') \<and> pl_conn p' = pl_conn p \<and>
    linked p' (take (Suc i) xs @ length (nodes p) # drop (Suc i) xs) (take (Suc i) hs @ h # drop (Suc i) hs)"
proof -
  have xs: "take i xs @ xs ! i # xs ! Suc i # drop (Suc (Suc i)) xs = xs"
    using assms(2) by (simp add: Cons_nth_drop_Suc)
  have "linked (spliced p (xs ! i) h (xs ! Suc i))
      (take i xs @ xs ! i # length (nodes p) # xs ! Suc i # drop (Suc (Suc i)) xs) (take (Suc i) hs @ h # drop (Suc i) hs)"
    using assms linked_length [OF assms(1)] by (intro linked_spliced) (simp_all add: xs)
  then have "linked (spliced p (xs ! i) h (xs ! Suc i))
      (take (Suc i) xs @ length (nodes p) # drop (Suc i) xs) (take (Suc i) hs @ h # drop (Suc i) hs)"
    using assms(2) by (simp add: take_Suc_conv_app_nth Cons_nth_drop_Suc)
  moreover have "nc_next (nodes p ! (xs ! i)) = Some (xs ! Suc i)"
    using linked_next_nth [OF assms(1), of i] assms(2) by simp
  ultimately show ?thesis
    by (intro exI [of _ "spliced p (xs ! i) h (xs ! Suc i)"]) (simp add: insert_after_spliced)
qed

lemma addFirst_linked:
  assumes "linked p xs hs"
  shows "\<exists>p' ys. addFirst h p = (None, p') \<and> pl_conn p' = pl_conn p \<and> linked p' ys (hd hs # h # tl hs)"
proof -
  have "Suc 0 < length xs" and hs: "hs \<noteq> []" using linked_length [OF assms] by auto
  with insert_after_linked [OF assms, of 0 h] linked_head_tail(1) [OF assms]
  show ?thesis by (cases hs) (auto simp: addFirst_def)
qed

lemma addLast_linked:
  assumes "linked p xs hs"
  shows "\<exists>p' ys. addLast h p = (None, p') \<and> pl_conn p' = pl_conn p \<and> linked p' ys (butlast hs @ [h, last hs])"
proof -
  let ?i = "length xs - 2" and ?pv = "xs ! (length xs - 2)"
  have len: "2 \<le> length xs" "length hs = length xs" using linked_length [OF assms] by auto
  then have i: "Suc ?i < length xs" "Suc ?i = length xs - 1" by auto
  note ht = linked_head_tail(2) [OF assms]
  have b: "?pv < length (nodes p)" "pl_tail p < length (nodes p)" and d: "distinct xs"
    using linked_bound [OF assms, of ?i] linked_bound [OF assms, of "length xs - 1"] i ht assms
    by (simp_all add: linked_def)
  have "?pv \<noteq> pl_tail p" using nth_eq_iff_index_eq [OF d, of ?i "length xs - 1"] i ht by simp
  moreover have "nc_prev (nodes p ! pl_tail p) = Some ?pv"
    using linked_prev_nth [OF assms, of "length xs - 1"] i ht by (simp add: numeral_2_eq_2)
  ultimately have "addLast h p = (None, spliced p ?pv h (pl_tail p))"
    using b by (intro addLast_spliced) simp_all
  moreover have "insert_after ?pv h p = (length (nodes p), None, spliced p ?pv h (pl_tail p))"
    using linked_next_nth [OF assms, of ?i] i ht by (intro insert_after_spliced) simp
  moreover have "take (Suc ?i) hs = butlast hs" "drop (Suc ?i) hs = [last hs]"
    using len i by (simp_all add: butlast_conv_take) (metis One_nat_def append_butlast_last_id
        append_eq_conv_conj length_0_conv length_butlast not_less_zero)
  ultimately show ?thesis using insert_after_linked [OF assms i(1), of h] by auto
qed

lemma addFirst_all_linked:
  "linked p xs hs \<Longrightarrow>
    \<exists>p' ys. add_all addFirst (map Some ks) p = (None, p') \<and> pl_conn p' = pl_conn p \<and> linked p' ys (hd hs # rev ks @ tl hs)"
proof (induction ks arbitrary: p xs hs)
  case Nil
  then have "hs \<noteq> []" using linked_length [OF Nil] by auto
  with Nil show ?case by auto
next
  case (Cons k ks)
  obtain p' ys where p': "addFirst k p = (None, p')" "pl_conn p' = pl_conn p" "linked p' ys (hd hs # k # tl hs)"
    using addFirst_linked [OF Cons.prems] by blast
  show ?case using Cons.IH [OF p'(3)] p' by auto
qed

lemma addLast_all_linked:
  "linked p xs hs \<Longrightarrow>
    \<exists>p' ys. add_all addLast (map Some ks) p = (None, p') \<and> pl_conn p' = pl_conn p \<and> linked p' ys (butlast hs @ ks @ [last hs])"
proof (induction ks arbitrary: p xs hs)
  case Nil
  then have "hs \<noteq> []" using linked_length [OF Nil] by auto
  with Nil show ?case by auto
next
  case (Cons k ks)
  obtain p' ys where p': "addLast k p = (None, p')" "pl_conn p' = pl_conn p" "linked p' ys (butlast hs @ [k, last hs])"
    using addLast_linked [OF Cons.prems] by blast
  show ?case using Cons.IH [OF p'(3)] p' by (auto simp: butlast_append)
qed

lemma AddHandler_loop_linked:
  "linked p xs hs \<Longrightarrow> Suc i < length xs \<Longrightarrow>
    \<exists>p' ys. AddHandler_loop (Some (xs ! i)) (map Some ks) p = (None, p') \<and> pl_conn p' = pl_conn p \<and>
      linked p' ys (take (Suc i) hs @ ks @ drop (Suc i) hs)"
proof (induction ks arbitrary: p xs hs i)
  case Nil
  then show ?case by auto
next
  case (Cons k ks)
  have len: "length hs = length xs" using linked_length [OF Cons.prems(1)] by simp
  obtain p' where p': "insert_after (xs ! i) k p = (length (nodes p), None, p')" "pl_conn p' = pl_conn p"
    "linked p' (take (Suc i) xs @ length (nodes p) # drop (Suc i) xs) (take (Suc i) hs @ k # drop (Suc i) hs)"
    using insert_after_linked [OF Cons.prems] by blast
  have "(take (Suc i) xs @ length (nodes p) # drop (Suc i) xs) ! Suc i = length (nodes p)"
    using Cons.prems(2) by (simp add: nth_append)
  with Cons.IH [OF p'(3), of "Suc i"] p' Cons.prems(2) len show ?case by (auto simp: take_Suc_conv_app_nth)
qed

lemma advance_linked:
  assumes "linked p xs hs"
  shows "i + n < length xs \<Longrightarrow> advance n p (Some (xs ! i)) = Inr (Some (xs ! (i + n)))"
proof (induction n arbitrary: i)
  case (Suc n)
  with linked_next_nth [OF assms, of i] Suc.IH [of "Suc i"] show ?case by simp
qed simp

section \<open>The lookups on the sequence of handlers\<close>

lemma IndexOf_loop_linked:
  assumes "linked p xs hs"
  shows "i < length xs \<Longrightarrow>
    IndexOf_loop (nodes p) f (xs ! i) (int i) =
      Some (case find (\<lambda>j. f (hs ! j)) [i..<length hs] of None \<Rightarrow> - 1 | Some j \<Rightarrow> int j)"
proof (induction "length xs - i" arbitrary: i)
  case (Suc n)
  have len: "length hs = length xs" using linked_length [OF assms] by simp
  have up: "[i..<length hs] = i # [Suc i..<length hs]" using Suc.prems len by (simp add: upt_conv_Cons)
  show ?case
  proof (cases "f (hs ! i)")
    case True
    then show ?thesis
      using linked_handler_at [OF assms Suc.prems] up by (simp add: IndexOf_loop.simps)
  next
    case False
    show ?thesis
    proof (cases "Suc i < length xs")
      case True
      with Suc.hyps(1) [of "Suc i"] Suc.hyps(2) False
      have "IndexOf_loop (nodes p) f (xs ! Suc i) (int i + 1) =
          Some (case find (\<lambda>j. f (hs ! j)) [Suc i..<length hs] of None \<Rightarrow> - 1 | Some j \<Rightarrow> int j)"
        by (simp add: add.commute)
      with False True linked_handler_at [OF assms Suc.prems] linked_next_nth [OF assms Suc.prems] up
      show ?thesis by (simp add: IndexOf_loop.simps [of _ _ "xs ! i"])
    next
      case last: False
      with False linked_handler_at [OF assms Suc.prems] linked_next_nth [OF assms Suc.prems] up len
      show ?thesis by (simp add: IndexOf_loop.simps [of _ _ "xs ! i"])
    qed
  qed
qed simp

lemma LastIndexOf_loop_linked:
  assumes "linked p xs hs"
  shows "i < length xs \<Longrightarrow>
    LastIndexOf_loop (nodes p) f (xs ! i) (int i) =
      Some (case find (\<lambda>j. f (hs ! j)) (rev [0..<Suc i]) of None \<Rightarrow> - 1 | Some j \<Rightarrow> int j)"
proof (induction i)
  case 0
  then show ?case
    using linked_handler_at [OF assms 0] linked_prev_nth [OF assms 0]
    by (simp add: LastIndexOf_loop.simps)
next
  case (Suc i)
  then have IH: "LastIndexOf_loop (nodes p) f (xs ! i) (int i) =
      Some (case find (\<lambda>j. f (hs ! j)) (rev [0..<Suc i]) of None \<Rightarrow> - 1 | Some j \<Rightarrow> int j)" by simp
  show ?case
    using IH linked_handler_at [OF assms Suc.prems] linked_prev_nth [OF assms Suc.prems]
    by (simp add: LastIndexOf_loop.simps [of _ _ "xs ! Suc i"])
qed

lemma ContextAt_loop_linked:
  assumes "linked p xs hs"
  shows "i + n < length xs \<Longrightarrow> ContextAt_loop (nodes p) n (xs ! i) = Some (xs ! (i + n))"
proof (induction n arbitrary: i)
  case (Suc n)
  with linked_next_nth [OF assms, of i] Suc.IH [of "Suc i"] show ?case by simp
qed simp

section \<open>The pipeline interface\<close>

text \<open>
  What an initializer of a pipeline relies on: the pipeline represents a sequence of handlers between
  its first and its last, \<open>AddLast\<close> puts handlers in front of the last one in the order given, and
  \<open>AddFirst\<close> behind the first one, each in front of those before it. The connection stays.
\<close>

locale handler_pipeline =
  fixes rep :: "'p \<Rightarrow> handler list \<Rightarrow> bool"
    and cn :: "'p \<Rightarrow> 'c"
    and add_first add_last :: "handler option list \<Rightarrow> 'p \<Rightarrow> pl_panic option \<times> 'p"
  assumes rep_length: "rep p hs \<Longrightarrow> 2 \<le> length hs"
    and add_first: "rep p hs \<Longrightarrow> list_all valid_handler ks \<Longrightarrow>
      \<exists>p'. add_first (map Some ks) p = (None, p') \<and> cn p' = cn p \<and> rep p' (hd hs # rev ks @ tl hs)"
    and add_last: "rep p hs \<Longrightarrow> list_all valid_handler ks \<Longrightarrow>
      \<exists>p'. add_last (map Some ks) p = (None, p') \<and> cn p' = cn p \<and> rep p' (butlast hs @ ks @ [last hs])"
    and invalid: "\<not> IsValidHandlers ms \<Longrightarrow>
      add_first ms p = (Some InvalidHandler, p) \<and> add_last ms p = (Some InvalidHandler, p)"
begin

text \<open>Appending in two calls is appending once, so initializers compose.\<close>

lemma add_last_twice:
  assumes "rep p hs" and "list_all valid_handler ks" and "list_all valid_handler ls"
  shows "\<exists>p1 p2. add_last (map Some ks) p = (None, p1) \<and> add_last (map Some ls) p1 = (None, p2) \<and>
    rep p2 (butlast hs @ (ks @ ls) @ [last hs])"
proof -
  obtain p1 where p1: "add_last (map Some ks) p = (None, p1)" "rep p1 (butlast hs @ ks @ [last hs])"
    using add_last [OF assms(1,2)] by blast
  obtain p2 where p2: "add_last (map Some ls) p1 = (None, p2)"
    "rep p2 (butlast (butlast hs @ ks @ [last hs]) @ ls @ [last (butlast hs @ ks @ [last hs])])"
    using add_last [OF p1(2) assms(3)] by blast
  have "butlast (butlast hs @ ks @ [last hs]) = butlast hs @ ks" by (simp add: butlast_append)
  with p1(1) p2 show ?thesis by auto
qed

text \<open>A rejected call changes nothing, and the same pipeline still takes valid handlers.\<close>

lemma retry_after_panic:
  assumes "rep p hs" and "\<not> IsValidHandlers ms" and "list_all valid_handler ks"
  shows "\<exists>p'. add_last (map Some ks) (snd (add_last ms p)) = (None, p') \<and> rep p' (butlast hs @ ks @ [last hs])"
  using add_last [OF assms(1,3)] invalid [OF assms(2)] by auto

end

definition represents :: "LinkedPipeline \<Rightarrow> handler list \<Rightarrow> bool" where
  "represents p hs \<longleftrightarrow> (\<exists>xs. linked p xs hs)"

lemma valid_map_Some: "IsValidHandlers (map Some ks) = list_all valid_handler ks"
  by (induction ks) auto

lemma AddFirst_represents:
  "represents p hs \<Longrightarrow> list_all valid_handler ks \<Longrightarrow>
    \<exists>p'. AddFirst (map Some ks) p = (None, p') \<and> pl_conn p' = pl_conn p \<and> represents p' (hd hs # rev ks @ tl hs)"
  unfolding represents_def AddFirst_def valid_map_Some using addFirst_all_linked [of p _ hs ks] by auto

lemma AddLast_represents:
  "represents p hs \<Longrightarrow> list_all valid_handler ks \<Longrightarrow>
    \<exists>p'. AddLast (map Some ks) p = (None, p') \<and> pl_conn p' = pl_conn p \<and> represents p' (butlast hs @ ks @ [last hs])"
  unfolding represents_def AddLast_def valid_map_Some using addLast_all_linked [of p _ hs ks] by auto

interpretation lp: handler_pipeline represents pl_conn AddFirst AddLast
proof
  show "2 \<le> length hs" if "represents p hs" for p hs
    using that by (auto simp: represents_def linked_def)
qed (use AddFirst_represents AddLast_represents in \<open>simp_all add: AddFirst_def AddLast_def\<close>)

lemma AddHandler_represents:
  assumes "represents p hs" and "list_all valid_handler ks" and "0 < i" and "Suc i < length hs"
  shows "\<exists>p'. AddHandler (int i) (map Some ks) p = (None, p') \<and> pl_conn p' = pl_conn p \<and>
    represents p' (take (Suc i) hs @ ks @ drop (Suc i) hs)"
proof -
  obtain xs where xs: "linked p xs hs" using assms(1) by (auto simp: represents_def)
  have len: "length hs = length xs" "pl_size p = length xs" using linked_length [OF xs] by simp_all
  with advance_linked [OF xs, of 0 i] linked_head_tail(1) [OF xs] assms
  have "AddHandler (int i) (map Some ks) p = AddHandler_loop (Some (xs ! i)) (map Some ks) p"
    by (simp add: AddHandler_def valid_map_Some)
  with AddHandler_loop_linked [OF xs, of i ks] assms(4) len show ?thesis by (auto simp: represents_def)
qed

text \<open>
  The first and the last position in \<open>[0, n)\<close> where a predicate holds, as the lookups number them.
\<close>

definition first_index :: "(nat \<Rightarrow> bool) \<Rightarrow> nat \<Rightarrow> int" where
  "first_index P n = (case find P [0..<n] of None \<Rightarrow> - 1 | Some j \<Rightarrow> int j)"

definition last_index :: "(nat \<Rightarrow> bool) \<Rightarrow> nat \<Rightarrow> int" where
  "last_index P n = (case find P (rev [0..<n]) of None \<Rightarrow> - 1 | Some j \<Rightarrow> int j)"

lemma lookups_linked:
  assumes "linked p xs hs"
  shows "IndexOf p f = Some (first_index (\<lambda>j. f (hs ! j)) (length hs))"
    and "LastIndexOf p f = Some (last_index (\<lambda>j. f (hs ! j)) (length hs))"
    and "ContextAt p i = (if 0 \<le> i \<and> i < int (length hs) then Some (xs ! nat i) else None)"
proof -
  note len = linked_length [OF assms] and ht = linked_head_tail [OF assms]
  have "0 < length xs" using len by auto
  then show "IndexOf p f = Some (first_index (\<lambda>j. f (hs ! j)) (length hs))"
    using IndexOf_loop_linked [OF assms, of 0 f] ht len by (simp add: IndexOf_def first_index_def)
  obtain n where n: "length xs = Suc n" using \<open>0 < length xs\<close> by (cases "length xs") auto
  then have "LastIndexOf_loop (nodes p) f (xs ! n) (int n) = Some (last_index (\<lambda>j. f (hs ! j)) (Suc n))"
    using LastIndexOf_loop_linked [OF assms, of n f] by (simp only: last_index_def)
  with n ht len show "LastIndexOf p f = Some (last_index (\<lambda>j. f (hs ! j)) (length hs))"
    by (simp add: LastIndexOf_def)
  show "ContextAt p i = (if 0 \<le> i \<and> i < int (length hs) then Some (xs ! nat i) else None)"
    using ContextAt_loop_linked [OF assms, of 0 "nat i"] ht len by (auto simp: ContextAt_def nat_less_iff)
qed

text \<open>
  C31. Whatever the history of insertions that did not panic, the linked nodes are a list: adding valid
  handlers at the front, at the end or at a position strictly between head and tail never panics,
  keeps the connection, and gives the sequence with the handlers reversed behind the head, in order
  before the tail, or in order behind the node at that position; and \<open>IndexOf\<close>, \<open>LastIndexOf\<close> and
  \<open>ContextAt\<close> end and answer with the first index, the last index, and the node of that sequence.
\<close>

theorem pipeline_refines_list:
  assumes "represents p hs" and "list_all valid_handler ks" and "0 < i" and "Suc i < length hs"
  shows "(\<exists>p'. AddFirst (map Some ks) p = (None, p') \<and> pl_conn p' = pl_conn p \<and> represents p' (hd hs # rev ks @ tl hs))
    \<and> (\<exists>p'. AddLast (map Some ks) p = (None, p') \<and> pl_conn p' = pl_conn p \<and> represents p' (butlast hs @ ks @ [last hs]))
    \<and> (\<exists>p'. AddHandler (int i) (map Some ks) p = (None, p') \<and> pl_conn p' = pl_conn p \<and>
         represents p' (take (Suc i) hs @ ks @ drop (Suc i) hs))
    \<and> IndexOf p f = Some (first_index (\<lambda>j. f (hs ! j)) (length hs))
    \<and> LastIndexOf p f = Some (last_index (\<lambda>j. f (hs ! j)) (length hs))
    \<and> (\<exists>a. ContextAt p (int i) = Some a \<and> nc_handler (nodes p ! a) = hs ! i)"
proof -
  obtain xs where xs: "linked p xs hs" using assms(1) by (auto simp: represents_def)
  have "\<exists>a. ContextAt p (int i) = Some a \<and> nc_handler (nodes p ! a) = hs ! i"
    using lookups_linked(3) [OF xs, of "int i"] linked_handler_at [OF xs, of i] linked_length [OF xs] assms(4) by simp
  with lp.add_first [OF assms(1,2)] lp.add_last [OF assms(1,2)] AddHandler_represents [OF assms]
    lookups_linked(1,2) [OF xs, of f] show ?thesis by blast
qed

theorem pipeline_refines_list_witness:
  "\<exists>p. represents p [HeadHandler, ErrorHandler, ErrorHandler, TailHeader] \<and>
     IndexOf p (\<lambda>h. h = ErrorHandler) = Some 1 \<and> LastIndexOf p (\<lambda>h. h = ErrorHandler) = Some 2"
proof -
  have "represents (NewPipeline \<lparr>written = [], conn_closed = False, room = None\<rparr>) [HeadHandler, TailHeader]"
    using linked_New by (auto simp: represents_def)
  then obtain p where p: "represents p [HeadHandler, ErrorHandler, ErrorHandler, TailHeader]"
    using lp.add_last_twice [of _ "[HeadHandler, TailHeader]" "[ErrorHandler]" "[ErrorHandler]"]
    by (auto simp: valid_handler_def caps_of_def)
  from pipeline_refines_list [OF p, of "[ErrorHandler]" 1 "\<lambda>h. h = ErrorHandler"]
  show ?thesis
    by (intro exI [of _ p])
      (auto simp: p valid_handler_def caps_of_def first_index_def last_index_def upt_rec)
qed

section \<open>The position of the tail\<close>

text \<open>
  \<open>AddHandler\<close> takes positions up to \<open>size\<close>, but at position \<open>size - 1\<close> the node it links behind is the
  tail: it panics with the new node hanging off the tail and the size unchanged.
\<close>

lemma AddHandler_at_tail_panics:
  assumes "linked p xs hs" and "list_all valid_handler (k # ks)"
  shows "\<exists>p'. AddHandler (int (pl_size p) - 1) (map Some (k # ks)) p = (Some NilDereference, p') \<and>
    pl_size p' = pl_size p \<and> nc_next (nodes p' ! pl_tail p') = Some (length (nodes p))"
proof -
  let ?n = "length xs - 1" and ?a = "length (nodes p)"
  note len = linked_length [OF assms(1)] and ht = linked_head_tail [OF assms(1)]
  have n: "0 < ?n" "?n < length xs" "nat (int (pl_size p) - 1) = ?n" using len by auto
  have t: "nc_next (nodes p ! pl_tail p) = None" "pl_tail p < ?a"
    using assms(1) linked_bound [OF assms(1) n(2)] ht by (simp_all add: linked_def)
  have "xs \<noteq> []" using n by auto
  then have "AddHandler (int (pl_size p) - 1) (map Some (k # ks)) p =
      AddHandler_loop (Some (pl_tail p)) (map Some (k # ks)) p"
    using advance_linked [OF assms(1), of 0 ?n] n len ht assms(2)
    by (simp add: AddHandler_def valid_map_Some del: list.map)
  then show ?thesis
    using t by (simp add: insert_after_def alloc_def set_next_def nth_append)
qed

end
