(* ===== verification/Pipeline_Events.thy ===== *)
theory Pipeline_Events
  imports Pipeline_List
begin

text \<open>
  Propagation of events through the pipeline: the loops of \<open>node_context.go\<close> that look for the next
  handler able to take an event, the handlers the package brings (head, tail and error handler), and
  the recovery in \<open>NodeContext.Write\<close> that turns a panic into an exception event. User handlers are a
  parameter: the calls on their context, in order, that a handler makes for an event.
\<close>

section \<open>Messages, connection and the package's handlers\<close>

text \<open>
  A message is any value; the constructors are the cases of \<open>HeadHandler.HandleWrite\<close>, in the order the
  switch tries them. A writer or reader is the chunks it delivers and the error it ends with.
\<close>

datatype exception =
    NilException | ErrClosedConn | ErrBrokenPipe | ErrSource nat | ErrUnsupportedType | ErrNilDereference
  | UserException nat

datatype 'v message =
    MBytes bytes
  | MSlices "bytes list"
  | MBuffer bytes
  | MWriterTo "bytes list" "exception option"
  | MReader "bytes list" "exception option"
  | MOther 'v

definition conn_Write :: "bytes \<Rightarrow> conn \<Rightarrow> exception option \<times> conn" where
  "conn_Write bs c =
     (if conn_closed c then (Some ErrClosedConn, c)
      else case room c of
             None \<Rightarrow> (None, c\<lparr>written := written c @ bs\<rparr>)
           | Some r \<Rightarrow>
               (if length bs \<le> r then (None, c\<lparr>written := written c @ bs, room := Some (r - length bs)\<rparr>)
                else (Some ErrBrokenPipe, c\<lparr>written := written c @ take r bs, room := Some 0\<rparr>)))"

definition conn_Close :: "conn \<Rightarrow> conn" where
  "conn_Close c = c\<lparr>conn_closed := True\<rparr>"

text \<open>\<open>io.Copy\<close> and \<open>WriteTo\<close>: chunk by chunk, up to the first failing write.\<close>

fun copy_chunks :: "bytes list \<Rightarrow> exception option \<Rightarrow> conn \<Rightarrow> exception option \<times> conn" where
  "copy_chunks [] err c = (err, c)"
| "copy_chunks (b # bs) err c =
     (case conn_Write b c of
        (Some e, c') \<Rightarrow> (Some e, c')
      | (None, c') \<Rightarrow> copy_chunks bs err c')"

text \<open>\<open>utils.AssertWriteLength\<close> panics with the error it is given.\<close>

definition AssertWriteLength :: "exception option \<times> conn \<Rightarrow> exception option \<times> conn" where
  "AssertWriteLength r = (case fst r of None \<Rightarrow> (None, snd r) | Some err \<Rightarrow> (Some err, snd r))"

definition HeadHandler_HandleWrite :: "'v message \<Rightarrow> conn \<Rightarrow> exception option \<times> conn" where
  "HeadHandler_HandleWrite msg c =
     (case msg of
        MBytes m \<Rightarrow> AssertWriteLength (conn_Write m c)
      | MSlices m \<Rightarrow> AssertWriteLength (conn_Write (concat m) c)
      | MBuffer m \<Rightarrow> AssertWriteLength (conn_Write m c)
      | MWriterTo m err \<Rightarrow> AssertWriteLength (copy_chunks m err c)
      | MReader m err \<Rightarrow> AssertWriteLength (copy_chunks m err c)
      | MOther _ \<Rightarrow> (Some ErrUnsupportedType, c))"

text \<open>The handlers of exceptions print; the tail closes the connection as well.\<close>

definition TailHeader_HandleException :: "exception \<Rightarrow> conn \<Rightarrow> conn" where
  "TailHeader_HandleException ex c = conn_Close c"

definition ErrorHandler_HandleException :: "exception \<Rightarrow> conn \<Rightarrow> conn" where
  "ErrorHandler_HandleException ex c = c"

section \<open>Propagation\<close>

text \<open>The loops over \<open>next\<close> and \<open>prev\<close> pointers: the first node with the capability, or none.\<close>

partial_function (option) scan_next ::
  "NodeContext list \<Rightarrow> (NodeContext \<Rightarrow> bool) \<Rightarrow> nat option \<Rightarrow> nat option option" where
  "scan_next ns able cur =
     (case cur of
        None \<Rightarrow> Some None
      | Some a \<Rightarrow> if able (ns ! a) then Some (Some a) else scan_next ns able (nc_next (ns ! a)))"

partial_function (option) scan_prev ::
  "NodeContext list \<Rightarrow> (NodeContext \<Rightarrow> bool) \<Rightarrow> nat option \<Rightarrow> nat option option" where
  "scan_prev ns able cur =
     (case cur of
        None \<Rightarrow> Some None
      | Some a \<Rightarrow> if able (ns ! a) then Some (Some a) else scan_prev ns able (nc_prev (ns ! a)))"

text \<open>The node on which each method of a node context calls the handler.\<close>

definition HandleActive_node :: "LinkedPipeline \<Rightarrow> nat \<Rightarrow> nat option option" where
  "HandleActive_node p n = scan_next (nodes p) activeHandler (nc_next (nodes p ! n))"

definition HandleRead_node :: "LinkedPipeline \<Rightarrow> nat \<Rightarrow> nat option option" where
  "HandleRead_node p n = scan_next (nodes p) inboundHandler (nc_next (nodes p ! n))"

definition HandleWrite_node :: "LinkedPipeline \<Rightarrow> nat \<Rightarrow> nat option option" where
  "HandleWrite_node p n = scan_prev (nodes p) outboundHandler (nc_prev (nodes p ! n))"

definition HandleException_node :: "LinkedPipeline \<Rightarrow> nat \<Rightarrow> nat option option" where
  "HandleException_node p n = scan_next (nodes p) exceptionHandler (nc_next (nodes p ! n))"

definition HandleInactive_node :: "LinkedPipeline \<Rightarrow> nat \<Rightarrow> nat option option" where
  "HandleInactive_node p n = scan_next (nodes p) inactiveHandler (nc_next (nodes p ! n))"

datatype 'v event =
    EvActive
  | EvRead "'v message"
  | EvWrite "'v message"
  | EvException exception
  | EvInactive exception

definition event_node :: "LinkedPipeline \<Rightarrow> nat \<Rightarrow> 'v event \<Rightarrow> nat option option" where
  "event_node p n ev =
     (case ev of
        EvActive \<Rightarrow> HandleActive_node p n
      | EvRead _ \<Rightarrow> HandleRead_node p n
      | EvWrite _ \<Rightarrow> HandleWrite_node p n
      | EvException _ \<Rightarrow> HandleException_node p n
      | EvInactive _ \<Rightarrow> HandleInactive_node p n)"

text \<open>
  The calls a handler makes on its context: \<open>Write\<close>, one of the \<open>Handle\<close> methods, \<open>Close\<close>,
  \<open>SetAttachment\<close>, writes on the connection itself up to the first that fails, or a panic of its own,
  which ends it. A handler may keep state of its own: it maps the event and that state to the calls it
  makes, in order, and the new state.
\<close>


datatype 'v cmd =
    CtxWrite "'v message"
  | CtxHandle "'v event"
  | CtxClose
  | CtxConnWrites "bytes list"
  | CtxSetAttachment "nat option"
  | CtxPanic exception

type_synonym ('v, 's) user = "nat \<Rightarrow> 'v event \<Rightarrow> 's \<Rightarrow> 'v cmd list \<times> 's"

text \<open>How a call ends: the panic that leaves it, if any, the pipeline and the handlers' state.\<close>

type_synonym 's outcome = "exception option \<times> LinkedPipeline \<times> 's"

text \<open>The order in which nested calls get smaller.\<close>

definition run_rank ::
  "(nat \<times> ('v, 's) user \<times> nat \<times> 'v event \<times> LinkedPipeline \<times> 's) +
   (nat \<times> ('v, 's) user \<times> nat \<times> 'v cmd list \<times> LinkedPipeline \<times> 's) +
   (nat \<times> ('v, 's) user \<times> nat \<times> 'v cmd \<times> LinkedPipeline \<times> 's) \<Rightarrow> nat \<times> nat" where
  "run_rank x =
     (case x of
        Inl (n, _) \<Rightarrow> (n, 0)
      | Inr (Inl (n, _, _, cs, _)) \<Rightarrow> (n, 3 + length cs)
      | Inr (Inr (n, _, _, c, _)) \<Rightarrow> (n, case c of CtxHandle _ \<Rightarrow> 1 | _ \<Rightarrow> 2))"

text \<open>
  \<open>handle\<close> calls the handler of node \<open>a\<close>, \<open>run_cmds\<close> its body. The result is the panic that leaves the
  call, if any, and the pipeline; \<open>None\<close> is running out of fuel, which counts the nesting of handler
  calls. \<open>NodeContext.Write\<close> recovers a panic and fires it as an exception at the head, outside of
  any recovery of its own; the \<open>Handle\<close> methods let a panic through. A node is only called for events
  its handler can take.
\<close>

function (sequential) handle ::
    "nat \<Rightarrow> ('v, 's) user \<Rightarrow> nat \<Rightarrow> 'v event \<Rightarrow> LinkedPipeline \<Rightarrow> 's \<Rightarrow> 's outcome option"
  and run_cmds ::
    "nat \<Rightarrow> ('v, 's) user \<Rightarrow> nat \<Rightarrow> 'v cmd list \<Rightarrow> LinkedPipeline \<Rightarrow> 's \<Rightarrow> 's outcome option"
  and run_cmd ::
    "nat \<Rightarrow> ('v, 's) user \<Rightarrow> nat \<Rightarrow> 'v cmd \<Rightarrow> LinkedPipeline \<Rightarrow> 's \<Rightarrow> 's outcome option"
  where
  "handle 0 user a ev p s = None"
| "handle (Suc n) user a ev p s =
     (case nc_handler (nodes p ! a) of
        HeadHandler \<Rightarrow>
          (case ev of
             EvWrite m \<Rightarrow> (let (r, c) = HeadHandler_HandleWrite m (pl_conn p) in Some (r, p\<lparr>pl_conn := c\<rparr>, s))
           | _ \<Rightarrow> Some (None, p, s))
      | TailHeader \<Rightarrow>
          (case ev of
             EvException e \<Rightarrow> Some (None, p\<lparr>pl_conn := TailHeader_HandleException e (pl_conn p)\<rparr>, s)
           | _ \<Rightarrow> Some (None, p, s))
      | ErrorHandler \<Rightarrow>
          (case ev of
             EvException e \<Rightarrow> Some (None, p\<lparr>pl_conn := ErrorHandler_HandleException e (pl_conn p)\<rparr>, s)
           | _ \<Rightarrow> Some (None, p, s))
      | UserHandler k _ \<Rightarrow> (let (cs, s') = user k ev s in run_cmds n user a cs p s'))"
| "run_cmds n user a [] p s = Some (None, p, s)"
| "run_cmds n user a (c # cs) p s =
     (case run_cmd n user a c p s of
        None \<Rightarrow> None
      | Some (Some e, p', s') \<Rightarrow> Some (Some e, p', s')
      | Some (None, p', s') \<Rightarrow> run_cmds n user a cs p' s')"
| "run_cmd n user a (CtxHandle ev) p s =
     (case event_node p a ev of
        None \<Rightarrow> None
      | Some None \<Rightarrow> Some (None, p, s)
      | Some (Some b) \<Rightarrow> handle n user b ev p s)"
| "run_cmd n user a (CtxWrite m) p s =
     (case run_cmd n user a (CtxHandle (EvWrite m)) p s of
        None \<Rightarrow> None
      | Some (None, p', s') \<Rightarrow> Some (None, p', s')
      | Some (Some e, p', s') \<Rightarrow> run_cmd n user (pl_head p') (CtxHandle (EvException e)) p' s')"
| "run_cmd n user a CtxClose p s = Some (None, p\<lparr>pl_conn := conn_Close (pl_conn p)\<rparr>, s)"
| "run_cmd n user a (CtxConnWrites bs) p s = Some (None, p\<lparr>pl_conn := snd (copy_chunks bs None (pl_conn p))\<rparr>, s)"
| "run_cmd n user a (CtxSetAttachment v) p s = Some (None, SetAttachment a v p, s)"
| "run_cmd n user a (CtxPanic e) p s = Some (Some e, p, s)"
  by pat_completeness auto

termination
  by (relation "inv_image (less_than <*lex*> less_than) run_rank")
    (auto simp: run_rank_def split: cmd.splits)

text \<open>The pipeline's entry points.\<close>

definition FireActive where
  "FireActive n user p s = run_cmd n user (pl_head p) (CtxHandle EvActive) p s"

definition FireRead where
  "FireRead n user msg p s = run_cmd n user (pl_head p) (CtxHandle (EvRead msg)) p s"

definition FireWrite where
  "FireWrite n user msg p s = run_cmd n user (pl_tail p) (CtxHandle (EvWrite msg)) p s"

definition FireException where
  "FireException n user ex p s = run_cmd n user (pl_head p) (CtxHandle (EvException ex)) p s"

definition FireInactive where
  "FireInactive n user ex p s = run_cmd n user (pl_head p) (CtxHandle (EvInactive ex)) p s"

declare scan_next.simps [code] scan_prev.simps [code]

section \<open>Where an event goes\<close>

definition takes :: "'v event \<Rightarrow> handler \<Rightarrow> bool" where
  "takes ev h =
     (case ev of
        EvActive \<Rightarrow> cap_active (caps_of h)
      | EvRead _ \<Rightarrow> cap_inbound (caps_of h)
      | EvWrite _ \<Rightarrow> cap_outbound (caps_of h)
      | EvException _ \<Rightarrow> cap_exception (caps_of h)
      | EvInactive _ \<Rightarrow> cap_inactive (caps_of h))"

definition ahead :: "'v event \<Rightarrow> nat \<Rightarrow> nat \<Rightarrow> nat list" where
  "ahead ev n i = (case ev of EvWrite _ \<Rightarrow> rev [0..<i] | _ \<Rightarrow> [Suc i..<n])"

lemma scan_next_linked:
  assumes "linked p xs hs"
  shows "i \<le> length xs \<Longrightarrow>
    scan_next (nodes p) able (if i < length xs then Some (xs ! i) else None) =
      Some (map_option ((!) xs) (find (\<lambda>j. able (nodes p ! (xs ! j))) [i..<length xs]))"
proof (induction "length xs - i" arbitrary: i)
  case 0
  then show ?case by (simp add: scan_next.simps)
next
  case (Suc n)
  then have i: "i < length xs" by simp
  have "scan_next (nodes p) able (nc_next (nodes p ! (xs ! i))) =
      Some (map_option ((!) xs) (find (\<lambda>j. able (nodes p ! (xs ! j))) [Suc i..<length xs]))"
    using Suc.hyps(1) [of "Suc i"] Suc.hyps(2) i linked_next_nth [OF assms i] by simp
  with i show ?case by (simp add: scan_next.simps [of _ _ "Some (xs ! i)"] upt_conv_Cons)
qed

lemma scan_prev_linked:
  assumes "linked p xs hs"
  shows "i \<le> length xs \<Longrightarrow>
    scan_prev (nodes p) able (if i = 0 then None else Some (xs ! (i - 1))) =
      Some (map_option ((!) xs) (find (\<lambda>j. able (nodes p ! (xs ! j))) (rev [0..<i])))"
proof (induction i)
  case 0
  then show ?case by (simp add: scan_prev.simps)
next
  case (Suc i)
  with linked_prev_nth [OF assms, of i]
  show ?case by (simp add: scan_prev.simps [of _ _ "Some (xs ! i)"])
qed

lemma find_in_cong: "(\<And>x. x \<in> set xs \<Longrightarrow> P x = Q x) \<Longrightarrow> find P xs = find Q xs"
  by (induction xs) auto

lemma event_node_linked:
  assumes "linked p xs hs" and "i < length xs"
  shows "event_node p (xs ! i) ev =
    Some (map_option ((!) xs) (find (\<lambda>j. takes ev (hs ! j)) (ahead ev (length xs) i)))"
proof -
  have cc: "caps_cached (nodes p ! (xs ! j))" "nc_handler (nodes p ! (xs ! j)) = hs ! j" if "j < length xs" for j
    using assms(1) that linked_handler_at [OF assms(1) that] by (simp_all add: linked_def)
  have sub: "j < length xs" if "j \<in> set (ahead ev (length xs) i)" for j
    using that assms(2) by (auto simp: ahead_def split: event.splits)
  have n: "scan_next (nodes p) able (nc_next (nodes p ! (xs ! i))) =
      Some (map_option ((!) xs) (find (\<lambda>j. able (nodes p ! (xs ! j))) [Suc i..<length xs]))" for able
    using scan_next_linked [OF assms(1), of "Suc i" able] assms(2) linked_next_nth [OF assms] by simp
  have pr: "scan_prev (nodes p) able (nc_prev (nodes p ! (xs ! i))) =
      Some (map_option ((!) xs) (find (\<lambda>j. able (nodes p ! (xs ! j))) (rev [0..<i])))" for able
    using scan_prev_linked [OF assms(1), of i able] assms(2) linked_prev_nth [OF assms] by simp
  have fc: "find (\<lambda>j. able (nodes p ! (xs ! j))) (ahead ev (length xs) i) = find (\<lambda>j. takes ev (hs ! j)) (ahead ev (length xs) i)"
    if "\<And>j. j < length xs \<Longrightarrow> able (nodes p ! (xs ! j)) = takes ev (hs ! j)" for able
    by (rule find_in_cong) (use that sub in blast)
  show ?thesis
    using fc [of activeHandler] fc [of inboundHandler] fc [of outboundHandler] fc [of exceptionHandler]
      fc [of inactiveHandler] cc
    by (cases ev) (simp_all add: event_node_def HandleActive_node_def HandleRead_node_def HandleWrite_node_def
        HandleException_node_def HandleInactive_node_def n pr ahead_def takes_def caps_cached_def)
qed

lemma event_node_cases [consumes 2]:
  assumes "linked p xs hs" and "i < length xs"
  obtains "event_node p (xs ! i) ev = Some None"
  | j where "event_node p (xs ! i) ev = Some (Some (xs ! j))" and "j < length xs" and "j \<in> set (ahead ev (length xs) i)"
    and "takes ev (hs ! j)"
proof (cases "find (\<lambda>j. takes ev (hs ! j)) (ahead ev (length xs) i)")
  case None
  with event_node_linked [OF assms, of ev] that(1) show ?thesis by simp
next
  case (Some j)
  then have j: "j \<in> set (ahead ev (length xs) i)" "takes ev (hs ! j)" by (auto simp: find_Some_iff)
  moreover have "j < length xs"
    using j(1) assms(2) by (auto simp: ahead_def split: event.splits)
  ultimately show ?thesis using event_node_linked [OF assms, of ev] Some that(2) by simp
qed

section \<open>Propagation ends\<close>

lemma linked_conn [simp]: "linked (p\<lparr>pl_conn := c\<rparr>) xs hs = linked p xs hs"
  by (simp add: linked_def)

lemma linked_SetAttachment [simp]:
  assumes "linked p xs hs"
  shows "linked (SetAttachment a v p) xs hs"
proof -
  have nd: "nodes (SetAttachment a v p) ! b =
      (if b = a \<and> a < length (nodes p) then (nodes p ! b)\<lparr>attachment := v\<rparr> else nodes p ! b)" for b
    by (cases "a < length (nodes p)") (auto simp: SetAttachment_def list_update_beyond)
  have same: "nc_next (nodes (SetAttachment a v p) ! b) = nc_next (nodes p ! b)"
    "nc_prev (nodes (SetAttachment a v p) ! b) = nc_prev (nodes p ! b)"
    "nc_handler (nodes (SetAttachment a v p) ! b) = nc_handler (nodes p ! b)"
    "caps_cached (nodes (SetAttachment a v p) ! b) = caps_cached (nodes p ! b)" for b
    using nd [of b] by simp_all
  have "links (nodes (SetAttachment a v p)) xs = links (nodes p) xs"
    by (rule links_cong) (simp_all add: same)
  with assms show ?thesis by (simp add: linked_def same) (simp add: SetAttachment_def)
qed

text \<open>
  Which calls a handler makes without sending events in circles: an exception handler only passes the
  exception on, an outbound handler writes or raises exceptions, and the others may make any call.
\<close>

definition allowed :: "'v event \<Rightarrow> 'v cmd \<Rightarrow> bool" where
  "allowed ev c =
     (case c of
        CtxWrite _ \<Rightarrow> (case ev of EvException _ \<Rightarrow> False | _ \<Rightarrow> True)
      | CtxHandle ev' \<Rightarrow>
          (case ev of
             EvException _ \<Rightarrow> (case ev' of EvException _ \<Rightarrow> True | _ \<Rightarrow> False)
           | EvWrite _ \<Rightarrow> (case ev' of EvException _ \<Rightarrow> True | EvWrite _ \<Rightarrow> True | _ \<Rightarrow> False)
           | _ \<Rightarrow> True)
      | _ \<Rightarrow> True)"

definition directional :: "('v, 's) user \<Rightarrow> bool" where
  "directional user \<longleftrightarrow> (\<forall>k ev s. list_all (allowed ev) (fst (user k ev s)))"

text \<open>The nesting an event at position \<open>i\<close> of a pipeline of size \<open>sz\<close> can reach.\<close>

definition weight :: "nat \<Rightarrow> 'v event \<Rightarrow> nat \<Rightarrow> nat" where
  "weight sz ev i =
     (case ev of
        EvException _ \<Rightarrow> sz - i
      | EvWrite _ \<Rightarrow> sz + i + 1
      | _ \<Rightarrow> 2 * sz + (sz - i))"

lemma weight_bound: "i < sz \<Longrightarrow> 0 < weight sz ev i \<and> weight sz ev i \<le> 3 * sz"
  by (auto simp: weight_def split: event.splits)

text \<open>An event sent by an allowed call, and the exception fired for a failed write, weigh less.\<close>

lemma weight_decreases:
  fixes ev :: "'v event"
  assumes "allowed ev c" and "i < sz" and "j < sz"
  shows "c = CtxHandle ev' \<Longrightarrow> j \<in> set (ahead ev' sz i) \<Longrightarrow> weight sz ev' j < weight sz ev i"
    and "c = CtxWrite m \<Longrightarrow> j \<in> set (ahead (EvWrite m) sz i) \<Longrightarrow> weight sz (EvWrite m) j < weight sz ev i"
    and "c = CtxWrite m \<Longrightarrow> weight sz (EvException e :: 'v event) j < weight sz ev i"
  using assms by (auto simp: allowed_def weight_def ahead_def split: event.splits)

definition settles :: "'s outcome option \<Rightarrow> nat list \<Rightarrow> handler list \<Rightarrow> bool" where
  "settles res xs hs \<longleftrightarrow> (\<exists>r p' s'. res = Some (r, p', s') \<and> linked p' xs hs)"

lemma run_cmd_settles:
  fixes user :: "('v, 's) user"
  assumes user: "directional user" and l: "linked p xs hs" and i: "i < length xs" and al: "allowed ev c"
    and w: "weight (length xs) ev i \<le> Suc n"
    and IH: "\<And>j ev p s. linked p xs hs \<Longrightarrow> j < length xs \<Longrightarrow> weight (length xs) ev j \<le> n \<Longrightarrow>
      settles (handle n user (xs ! j) ev p s) xs hs"
  shows "settles (run_cmd n user (xs ! i) c p s) xs hs"
proof -
  have h: "settles (run_cmd n user (xs ! k) (CtxHandle ev') p s) xs hs"
    if p: "linked p xs hs" and k: "k < length xs"
      and less: "\<And>j. j < length xs \<Longrightarrow> j \<in> set (ahead ev' (length xs) k) \<Longrightarrow> weight (length xs) ev' j < weight (length xs) ev i"
    for p k ev' s
  proof (rule event_node_cases [OF p k, of ev'])
    assume "event_node p (xs ! k) ev' = Some None"
    then show ?thesis using p by (simp add: settles_def)
  next
    fix j assume "event_node p (xs ! k) ev' = Some (Some (xs ! j))" "j < length xs" "j \<in> set (ahead ev' (length xs) k)"
    with IH [OF p, of j ev' s] less [of j] w show ?thesis by simp
  qed
  show ?thesis
  proof (cases c)
    case (CtxHandle ev')
    then show ?thesis using h [OF l i, of ev' s] weight_decreases(1) [OF al i] by blast
  next
    case (CtxWrite m)
    have "settles (run_cmd n user (xs ! i) (CtxHandle (EvWrite m)) p s) xs hs"
      using h [OF l i, of "EvWrite m" s] weight_decreases(2) [OF al i] CtxWrite by blast
    then obtain r p' s' where rp: "run_cmd n user (xs ! i) (CtxHandle (EvWrite m)) p s = Some (r, p', s')" "linked p' xs hs"
      by (auto simp: settles_def)
    have "settles (run_cmd n user (pl_head p') (CtxHandle (EvException e)) p' s') xs hs" for e
    proof -
      have "0 < length xs" using i by auto
      with h [OF rp(2), of 0 "EvException e" s'] weight_decreases(3) [OF al i, of _ m e] CtxWrite
      show ?thesis using linked_head_tail(1) [OF rp(2)] by simp
    qed
    with rp CtxWrite show ?thesis by (cases r) (auto simp: settles_def)
  qed (use l in \<open>auto simp: settles_def\<close>)
qed

lemma run_cmds_settles:
  assumes user: "directional user" and i: "i < length xs"
    and w: "weight (length xs) ev i \<le> Suc n"
    and IH: "\<And>j ev p s. linked p xs hs \<Longrightarrow> j < length xs \<Longrightarrow> weight (length xs) ev j \<le> n \<Longrightarrow>
      settles (handle n user (xs ! j) ev p s) xs hs"
  shows "linked p xs hs \<Longrightarrow> list_all (allowed ev) cs \<Longrightarrow> settles (run_cmds n user (xs ! i) cs p s) xs hs"
proof (induction cs arbitrary: p s)
  case Nil
  then show ?case by (simp add: settles_def)
next
  case (Cons c cs)
  have "settles (run_cmd n user (xs ! i) c p s) xs hs"
    using run_cmd_settles [OF user Cons.prems(1) i _ w IH, of c s] Cons.prems(2) by simp
  then obtain r p' s' where rp: "run_cmd n user (xs ! i) c p s = Some (r, p', s')" "linked p' xs hs"
    by (auto simp: settles_def)
  with Cons.IH [OF rp(2), of s'] Cons.prems(2) show ?case by (cases r) (auto simp: settles_def)
qed

lemma handle_settles:
  assumes "directional user"
  shows "linked p xs hs \<Longrightarrow> i < length xs \<Longrightarrow> weight (length xs) ev i \<le> n \<Longrightarrow>
    settles (handle n user (xs ! i) ev p s) xs hs"
proof (induction n arbitrary: i ev p s)
  case 0
  then show ?case using weight_bound [of i "length xs" ev] by simp
next
  case (Suc n)
  show ?case
  proof (cases "nc_handler (nodes p ! (xs ! i))")
    case (UserHandler k c)
    have "list_all (allowed ev) (fst (user k ev s))" using assms by (simp add: directional_def)
    with run_cmds_settles [OF assms Suc.prems(2,3) Suc.IH Suc.prems(1)] UserHandler
    show ?thesis by (simp add: case_prod_beta)
  qed (use Suc.prems in \<open>auto simp: settles_def split: event.splits prod.splits\<close>)
qed

text \<open>More fuel does not change a result.\<close>

lemma run_cmd_more_fuel:
  assumes IH: "\<And>b ev p s r. handle n user b ev p s = Some r \<Longrightarrow> handle m user b ev p s = Some r"
  shows "run_cmd n user a c p s = Some r \<Longrightarrow> run_cmd m user a c p s = Some r"
proof -
  have h: "run_cmd n user a (CtxHandle ev) p s = Some r \<Longrightarrow> run_cmd m user a (CtxHandle ev) p s = Some r" for a ev p s r
    using IH by (auto split: option.splits)
  assume r: "run_cmd n user a c p s = Some r"
  show ?thesis
  proof (cases c)
    case (CtxWrite x)
    with r obtain e p' s' where "run_cmd n user a (CtxHandle (EvWrite x)) p s = Some (e, p', s')"
      by (cases "run_cmd n user a (CtxHandle (EvWrite x)) p s") auto
    with r CtxWrite h show ?thesis by (cases e) (auto simp del: run_cmd.simps(1))
  qed (use r h in auto)
qed

lemma run_cmds_more_fuel:
  assumes IH: "\<And>b ev p s r. handle n user b ev p s = Some r \<Longrightarrow> handle m user b ev p s = Some r"
  shows "run_cmds n user a cs p s = Some r \<Longrightarrow> run_cmds m user a cs p s = Some r"
proof (induction cs arbitrary: p s)
  case (Cons c cs)
  then obtain e p' s' where "run_cmd n user a c p s = Some (e, p', s')"
    by (cases "run_cmd n user a c p s") auto
  with run_cmd_more_fuel [OF IH this] Cons show ?case by (cases e) auto
qed simp

lemma handle_more_fuel: "handle n user a ev p s = Some r \<Longrightarrow> n \<le> m \<Longrightarrow> handle m user a ev p s = Some r"
proof (induction n arbitrary: a ev p s r m)
  case (Suc n)
  then obtain m' where m: "m = Suc m'" "n \<le> m'" by (cases m) auto
  have "run_cmds n user a cs p s = Some r \<Longrightarrow> run_cmds m' user a cs p s = Some r" for cs s
    by (rule run_cmds_more_fuel [OF Suc.IH [OF _ m(2)]])
  with Suc.prems(1) m show ?case by (auto simp: case_prod_beta split: handler.splits)
qed simp

lemma fire_ends:
  assumes "directional user" and "linked p xs hs" and "i < length xs"
  shows "\<exists>r p' s'. (\<forall>n \<ge> 3 * pl_size p. run_cmd n user (xs ! i) (CtxHandle ev) p s = Some (r, p', s')) \<and> represents p' hs"
proof (rule event_node_cases [OF assms(2,3), of ev])
  assume "event_node p (xs ! i) ev = Some None"
  then show ?thesis using assms(2) by (auto simp: represents_def)
next
  fix j assume j: "event_node p (xs ! i) ev = Some (Some (xs ! j))" "j < length xs"
  have len: "pl_size p = length xs" using linked_length [OF assms(2)] by simp
  have "settles (handle (3 * pl_size p) user (xs ! j) ev p s) xs hs"
    using handle_settles [OF assms(1,2) j(2)] weight_bound [OF j(2), of ev] len by simp
  then obtain r p' s' where "handle (3 * pl_size p) user (xs ! j) ev p s = Some (r, p', s')" "linked p' xs hs"
    by (auto simp: settles_def)
  with j handle_more_fuel [of "3 * pl_size p" user "xs ! j" ev p s "(r, p', s')"]
  show ?thesis by (auto simp: represents_def)
qed

text \<open>
  What the pipeline asks of the handlers put into it, and what they get in return: an event fired from any
  node of a linked pipeline returns, and leaves the sequence of handlers as it was.
\<close>

locale event_handlers =
  fixes user :: "('v, 's) user"
  assumes calls_allowed: "list_all (allowed ev) (fst (user k ev s))"
begin

lemma handlers_directional: "directional user"
  by (simp add: directional_def calls_allowed)

lemma fire_returns:
  assumes "represents p hs"
  obtains r p' s' where "\<And>n. 3 * Size p \<le> n \<Longrightarrow> FireRead n user m p s = Some (r, p', s')" and "represents p' hs"
proof -
  obtain xs where xs: "linked p xs hs" using assms by (auto simp: represents_def)
  have "0 < length xs" using linked_length [OF xs] by auto
  from fire_ends [OF handlers_directional xs this, of "EvRead m" s] that show ?thesis
    unfolding FireRead_def Size_def linked_head_tail [OF xs] by blast
qed

lemma fire_exception_returns:
  assumes "represents p hs"
  obtains r p' s' where "\<And>n. 3 * Size p \<le> n \<Longrightarrow> FireException n user ex p s = Some (r, p', s')" and "represents p' hs"
proof -
  obtain xs where xs: "linked p xs hs" using assms by (auto simp: represents_def)
  have "0 < length xs" using linked_length [OF xs] by auto
  from fire_ends [OF handlers_directional xs this, of "EvException ex" s] that show ?thesis
    unfolding FireException_def Size_def linked_head_tail [OF xs] by blast
qed

end

text \<open>
  C32. Propagation ends. If exception handlers do not write and outbound handlers do not start inbound
  events, firing any event on a pipeline returns, with or without a panic: three times the size of
  the pipeline bounds how deep handler calls nest, whatever the handlers do otherwise and however the
  connection fails; the sequence of handlers is unchanged.
\<close>

theorem propagation_ends:
  assumes "directional user" and "represents p hs"
  shows "(\<exists>r p' s'. (\<forall>n \<ge> 3 * Size p. FireActive n user p s = Some (r, p', s')) \<and> represents p' hs)
    \<and> (\<exists>r p' s'. (\<forall>n \<ge> 3 * Size p. FireRead n user m p s = Some (r, p', s')) \<and> represents p' hs)
    \<and> (\<exists>r p' s'. (\<forall>n \<ge> 3 * Size p. FireWrite n user m p s = Some (r, p', s')) \<and> represents p' hs)
    \<and> (\<exists>r p' s'. (\<forall>n \<ge> 3 * Size p. FireException n user ex p s = Some (r, p', s')) \<and> represents p' hs)
    \<and> (\<exists>r p' s'. (\<forall>n \<ge> 3 * Size p. FireInactive n user ex p s = Some (r, p', s')) \<and> represents p' hs)"
proof -
  obtain xs where xs: "linked p xs hs" using assms(2) by (auto simp: represents_def)
  have "0 < length xs" "length xs - 1 < length xs" using linked_length [OF xs] by auto
  note f = fire_ends [OF assms(1) xs this(1)] fire_ends [OF assms(1) xs this(2)]
  show ?thesis
    unfolding FireActive_def FireRead_def FireWrite_def FireException_def FireInactive_def Size_def
      linked_head_tail [OF xs]
    by (intro conjI f)
qed

text \<open>A pipeline with a handler that counts what it reads, writes it back and passes it on.\<close>

definition echo_user :: "(unit, nat) user" where
  "echo_user k ev s =
     (case ev of EvRead m \<Rightarrow> ([CtxWrite m, CtxHandle (EvRead m)], Suc s) | EvException e \<Rightarrow> ([CtxHandle (EvException e)], s)
      | _ \<Rightarrow> ([], s))"

definition echo_handler :: handler where
  "echo_handler = UserHandler 0 \<lparr>cap_active = False, cap_inbound = True, cap_outbound = False,
     cap_exception = True, cap_inactive = False, cap_executor = False\<rparr>"

definition echo_pipeline :: "conn \<Rightarrow> LinkedPipeline" where
  "echo_pipeline c = snd (AddLast [Some echo_handler] (NewPipeline c))"

lemma echo_pipeline_represents: "represents (echo_pipeline c) [HeadHandler, echo_handler, TailHeader]"
proof -
  have "represents (NewPipeline c) [HeadHandler, TailHeader]"
    using linked_New by (auto simp: represents_def)
  moreover have "list_all valid_handler [echo_handler]" by (simp add: valid_handler_def caps_of_def echo_handler_def)
  ultimately obtain p' where "AddLast (map Some [echo_handler]) (NewPipeline c) = (None, p')"
    "represents p' (butlast [HeadHandler, TailHeader] @ [echo_handler] @ [last [HeadHandler, TailHeader]])"
    using lp.add_last by blast
  then show ?thesis by (simp add: echo_pipeline_def)
qed

theorem propagation_ends_witness:
  "let p = echo_pipeline \<lparr>written = [], conn_closed = False, room = Some 1\<rparr>
   in (\<exists>r p' s'. FireRead 9 echo_user (MBytes [1, 2]) p 4 = Some (r, p', s')) \<and>
     map_option (\<lambda>(r, p', s'). (r, written (pl_conn p'), conn_closed (pl_conn p'), s'))
       (FireRead 9 echo_user (MBytes [1, 2]) p 4) = Some (None, [1], True, 5)"
proof -
  let ?p = "echo_pipeline \<lparr>written = [], conn_closed = False, room = Some 1\<rparr>"
  have d: "directional echo_user"
    by (auto simp: directional_def echo_user_def allowed_def split: event.splits)
  have s: "Size ?p = 3" by code_simp
  obtain r p' s' where "\<forall>n \<ge> 3 * Size ?p. FireRead n echo_user (MBytes [1, 2]) ?p 4 = Some (r, p', s')"
    using propagation_ends [OF d echo_pipeline_represents, where m = "MBytes [1, 2]" and ex = ErrBrokenPipe and s = 4]
    by blast
  with s have "FireRead 9 echo_user (MBytes [1, 2]) ?p 4 = Some (r, p', s')" by simp
  moreover have "map_option (\<lambda>(r, p', s'). (r, written (pl_conn p'), conn_closed (pl_conn p'), s'))
       (FireRead 9 echo_user (MBytes [1, 2]) ?p 4) = Some (None, [1], True, 5)"
    by code_simp
  ultimately show ?thesis by (simp add: Let_def)
qed

section \<open>Exception handlers that write\<close>

lemma exception_write_handle:
  fixes user :: "('v, 's) user"
  assumes l: "linked p xs (HeadHandler # UserHandler k c # hs)" and c: "cap_exception c" and cl: "conn_closed (pl_conn p)"
    and user: "\<And>e s. \<exists>b cs s'. user k (EvException e) s = (CtxWrite (MBytes b) # cs, s')"
  shows "handle n user (xs ! 1) (EvException e) p s = None"
proof (induction n arbitrary: e s)
  case (Suc n)
  have len: "0 < length xs" "1 < length xs" using linked_length [OF l] by auto
  obtain b cs s' where b: "user k (EvException e) s = (CtxWrite (MBytes b) # cs, s')" using user by blast
  have "event_node p (xs ! 1) (EvWrite (MBytes b) :: 'v event) = Some (Some (xs ! 0))"
    using event_node_linked [OF l len(2), of "EvWrite (MBytes b) :: 'v event"] by (simp add: ahead_def takes_def caps_of_def)
  moreover have "event_node p (pl_head p) (EvException ErrClosedConn :: 'v event) = Some (Some (xs ! 1))"
    using event_node_linked [OF l len(1), of "EvException ErrClosedConn :: 'v event"] c len linked_head_tail(1) [OF l]
    by (simp add: ahead_def takes_def caps_of_def upt_conv_Cons)
  moreover have "handle n user (xs ! 0) (EvWrite (MBytes b)) p s' \<in> {None, Some (Some ErrClosedConn, p, s')}"
    using cl linked_handler_at [OF l len(1)]
    by (cases n) (simp_all add: HeadHandler_HandleWrite_def conn_Write_def AssertWriteLength_def)
  ultimately have "run_cmd n user (xs ! 1) (CtxWrite (MBytes b)) p s' = None"
    using Suc.IH [of ErrClosedConn] by auto
  with b linked_handler_at [OF l len(2)] show ?case by simp
qed simp

text \<open>
  C33. The condition is needed. On a closed connection an exception handler that answers with a write
  never returns: the write panics in the head handler, \<open>NodeContext.Write\<close> recovers it and fires it as
  an exception, which reaches the same handler again. No amount of nesting is enough, so the
  goroutine's stack overflows, which ends the program.
\<close>

theorem exception_write_loops:
  fixes user :: "('v, 's) user"
  assumes "represents p (HeadHandler # UserHandler k c # hs)" and "cap_exception c" and "conn_closed (pl_conn p)"
    and "\<And>e s. \<exists>b cs s'. user k (EvException e) s = (CtxWrite (MBytes b) # cs, s')"
  shows "FireException n user ex p s = None"
proof -
  obtain xs where l: "linked p xs (HeadHandler # UserHandler k c # hs)" using assms(1) by (auto simp: represents_def)
  have len: "0 < length xs" "1 < length xs" using linked_length [OF l] by auto
  have "event_node p (pl_head p) (EvException ex :: 'v event) = Some (Some (xs ! 1))"
    using event_node_linked [OF l len(1), of "EvException ex :: 'v event"] assms(2) len linked_head_tail(1) [OF l]
    by (simp add: ahead_def takes_def caps_of_def upt_conv_Cons)
  with exception_write_handle [OF l assms(2,3), where user = user, OF assms(4)] show ?thesis by (simp add: FireException_def)
qed

theorem exception_write_loops_witness:
  "FireException 1000 (\<lambda>k ev s. ([CtxWrite (MBytes [33])], s)) (UserException 7)
     (echo_pipeline \<lparr>written = [], conn_closed = True, room = None\<rparr>) () = None"
proof (rule exception_write_loops)
  show "represents (echo_pipeline \<lparr>written = [], conn_closed = True, room = None\<rparr>)
      [HeadHandler, UserHandler 0 \<lparr>cap_active = False, cap_inbound = True, cap_outbound = False,
        cap_exception = True, cap_inactive = False, cap_executor = False\<rparr>, TailHeader]"
    using echo_pipeline_represents by (simp only: echo_handler_def)
  show "conn_closed (pl_conn (echo_pipeline \<lparr>written = [], conn_closed = True, room = None\<rparr>))"
    by code_simp
qed simp_all

end
