(* ===== verification/Server_Pipeline.thy ===== *)
theory Server_Pipeline
  imports Pipeline_Events Protocol_Serve
begin

text \<open>
  The protocol server inside its pipeline: the handler sequence of \<open>cmd/server\<close> and
  \<open>examples/echo-server\<close>, with \<open>FrameCodec\<close> and \<open>ProtocolHandler\<close> as the user handlers of
  \<open>Pipeline_Events\<close>, and the loop of \<open>Worker.handleConnection\<close> that fires reads until the connection is
  closed. The linked pipeline is shown to do what a straight loop over the messages of the connection
  does.
\<close>

section \<open>The handlers of the server\<close>

text \<open>
  The codec's configuration and its constructors, and the capacity \<open>HandleWrite\<close> reserves for the joined
  fragments.
\<close>

record FrameCodec =
  codec_streamThreshold :: int

definition NewFrameCodec :: FrameCodec where
  "NewFrameCodec = \<lparr>codec_streamThreshold = defaultStreamThreshold\<rparr>"

definition NewFrameCodecWithStreamThreshold :: "int \<Rightarrow> FrameCodec" where
  "NewFrameCodecWithStreamThreshold threshold = NewFrameCodec\<lparr>codec_streamThreshold := threshold\<rparr>"

abbreviation with_threshold :: "int \<Rightarrow> FrameCodec" where
  "with_threshold \<equiv> NewFrameCodecWithStreamThreshold"

lemma codec_threshold [simp]: "codec_streamThreshold (with_threshold th) = th"
  by (simp add: NewFrameCodecWithStreamThreshold_def)

definition sumLens :: "bytes list \<Rightarrow> nat" where
  "sumLens buffers = fold (\<lambda>buf n. n + length buf) buffers 0"

lemma sumLens_exact: "sumLens bufs = length (concat bufs)"
proof -
  have "fold (\<lambda>buf n. n + length buf) bufs k = k + length (concat bufs)" for k
    by (induction bufs arbitrary: k) simp_all
  then show ?thesis by (simp add: sumLens_def)
qed

text \<open>
  \<open>echoInitializer\<close>: frame codec, then the shared protocol handler. The codec takes inbound and outbound
  events, the protocol handler inbound ones.
\<close>

definition FrameCodec_handler :: handler where
  "FrameCodec_handler = UserHandler 0 \<lparr>cap_active = False, cap_inbound = True, cap_outbound = True,
     cap_exception = False, cap_inactive = False, cap_executor = False\<rparr>"

definition ProtocolHandler_handler :: handler where
  "ProtocolHandler_handler = UserHandler 1 \<lparr>cap_active = False, cap_inbound = True, cap_outbound = False,
     cap_exception = False, cap_inactive = False, cap_executor = False\<rparr>"

definition echoInitializer :: "LinkedPipeline \<Rightarrow> pl_result" where
  "echoInitializer p = AddLast [Some FrameCodec_handler, Some ProtocolHandler_handler] p"

lemma echoInitializer_pipeline:
  "\<exists>p. echoInitializer (NewPipeline c) = (None, p) \<and> pl_conn p = c \<and>
     represents p [HeadHandler, FrameCodec_handler, ProtocolHandler_handler, TailHeader]"
proof -
  have r: "represents (NewPipeline c) [HeadHandler, TailHeader]" using linked_New by (auto simp: represents_def)
  have v: "list_all valid_handler [FrameCodec_handler, ProtocolHandler_handler]"
    by (simp add: valid_handler_def caps_of_def FrameCodec_handler_def ProtocolHandler_handler_def)
  have "pl_conn (NewPipeline c) = c" by (simp add: NewPipeline_def)
  with lp.add_last [OF r v] show ?thesis by (auto simp: echoInitializer_def)
qed

text \<open>
  How the server's pipeline routes events: what is fired as read goes to the codec, what the codec
  passes on to the protocol handler; what the protocol handler writes goes to the codec, and what the
  codec writes to the head; exceptions reach the tail, which closes the connection, and activation and
  inactivity reach nobody.
\<close>

lemma server_pipeline_routes:
  fixes m :: "'v Pipeline_Events.message"
  assumes "linked p xs [HeadHandler, FrameCodec_handler, ProtocolHandler_handler, TailHeader]"
  shows "event_node p (pl_head p) (EvRead m) = Some (Some (xs ! 1))"
    and "event_node p (xs ! 1) (EvRead m) = Some (Some (xs ! 2))"
    and "event_node p (xs ! 2) (EvWrite m) = Some (Some (xs ! 1))"
    and "event_node p (xs ! 1) (EvWrite m) = Some (Some (xs ! 0))"
    and "event_node p (pl_head p) (EvException e :: 'v event) = Some (Some (xs ! 3))"
    and "event_node p (pl_head p) (EvActive :: 'v event) = Some None" and "event_node p (pl_head p) (EvInactive e :: 'v event) = Some None"
proof -
  have len: "length xs = 4" using linked_length [OF assms] by simp
  note ev = event_node_linked [OF assms, where 'a = 'v] and hd = linked_head_tail(1) [OF assms]
  have up: "[Suc 0..<4] = [1, 2, 3]" "[Suc (Suc 0)..<4] = [2, 3]" "[0..<2] = [0, 1]" by (simp_all add: upt_rec)
  show "event_node p (pl_head p) (EvRead m) = Some (Some (xs ! 1))"
    "event_node p (xs ! 1) (EvRead m) = Some (Some (xs ! 2))"
    "event_node p (xs ! 2) (EvWrite m) = Some (Some (xs ! 1))"
    "event_node p (xs ! 1) (EvWrite m) = Some (Some (xs ! 0))"
    "event_node p (pl_head p) (EvException e :: 'v event) = Some (Some (xs ! 3))"
    "event_node p (pl_head p) (EvActive :: 'v event) = Some None" "event_node p (pl_head p) (EvInactive e :: 'v event) = Some None"
    using ev [of 0] ev [of 1] ev [of 2] len
    by (simp_all add: hd ahead_def takes_def caps_of_def FrameCodec_handler_def ProtocolHandler_handler_def up)
qed


text \<open>
  The effects of \<open>Protocol_Server\<close> as calls on the context. The messages are \<open>*Frame\<close> values, \<open>None\<close> the nil
  pointer. The writes of \<open>replayTo\<close> become one call that stops at the first failing write; a write deadline
  only makes writes fail, which the connection's \<open>room\<close> stands for.
\<close>

fun join_writes :: "bytes \<Rightarrow> 'v cmd list \<Rightarrow> 'v cmd list" where
  "join_writes b (CtxConnWrites bs # cs) = CtxConnWrites (b # bs) # cs"
| "join_writes b cs = CtxConnWrites [b] # cs"

fun cmds_of :: "effect list \<Rightarrow> Frame option cmd list" where
  "cmds_of [] = []"
| "cmds_of (ef # es) =
     (case ef of
        effect.CtxWrite fo \<Rightarrow> cmd.CtxWrite (MOther fo) # cmds_of es
      | effect.CtxClose err \<Rightarrow> cmd.CtxClose # cmds_of es
      | CtxRead f \<Rightarrow> CtxHandle (EvRead (MOther (Some f))) # cmds_of es
      | CtxWriteBytes b \<Rightarrow> CtxHandle (EvWrite (MBytes b)) # cmds_of es
      | ConnClose _ \<Rightarrow> cmd.CtxClose # cmds_of es
      | ConnWrite _ b _ \<Rightarrow> join_writes b (cmds_of es)
      | SetWriteDeadline _ _ \<Rightarrow> cmds_of es)"

text \<open>
  What the two handlers keep: the server's state and the bytes the connection will still deliver. The
  handlers run with every write of \<open>replayTo\<close> listed; which of them fail is decided by the connection.
\<close>

record conn_state =
  cs_server :: server
  cs_reader :: reader

definition all_writes :: "env \<Rightarrow> env" where
  "all_writes e = e\<lparr>env_write_ok := \<lambda>_ _. True\<rparr>"

definition FrameCodec_calls :: "Protocol_State.conn \<Rightarrow> FrameCodec \<Rightarrow> Frame option event \<Rightarrow> conn_state \<Rightarrow> Frame option cmd list \<times> conn_state" where
  "FrameCodec_calls c codec ev s =
     (case ev of
        EvRead _ \<Rightarrow> (let (r', effs) = FrameCodec_HandleRead c (cs_reader s) in (cmds_of effs, s\<lparr>cs_reader := r'\<rparr>))
      | EvWrite m \<Rightarrow>
          (case m of
             MOther (Some frame) \<Rightarrow> (cmds_of (FrameCodec_HandleWrite (codec_streamThreshold codec) frame), s)
           | MOther None \<Rightarrow> ([CtxPanic ErrNilDereference], s)
           | _ \<Rightarrow> ([CtxHandle (EvWrite m)], s))
      | _ \<Rightarrow> ([], s))"

definition ProtocolHandler_calls ::
  "(string \<Rightarrow> string \<Rightarrow> string + go_any) \<Rightarrow> env \<Rightarrow> Protocol_State.conn \<Rightarrow> Frame option event \<Rightarrow> conn_state \<Rightarrow>
   Frame option cmd list \<times> conn_state" where
  "ProtocolHandler_calls h e c ev s =
     (case ev of
        EvRead m \<Rightarrow>
          (case m of
             MOther None \<Rightarrow> ([CtxPanic ErrNilDereference], s\<lparr>cs_server := touchSession (env_now e) c (cs_server s)\<rparr>)
           | _ \<Rightarrow>
               (let (sv, effs) = Protocol_Server.HandleRead h (all_writes e) c
                      (case m of MOther (Some frame) \<Rightarrow> MsgFrame frame | _ \<Rightarrow> MsgOther) (cs_server s)
                in (cmds_of effs, s\<lparr>cs_server := sv\<rparr>)))
      | _ \<Rightarrow> ([], s))"

definition server_user ::
  "(string \<Rightarrow> string \<Rightarrow> string + go_any) \<Rightarrow> env \<Rightarrow> Protocol_State.conn \<Rightarrow> FrameCodec \<Rightarrow> (Frame option, conn_state) user" where
  "server_user h e c codec k =
     (if k = 0 then FrameCodec_calls c codec else ProtocolHandler_calls h e c)"

lemma server_user_simps [simp]:
  "server_user h e c codec 0 = FrameCodec_calls c codec" "server_user h e c codec (Suc 0) = ProtocolHandler_calls h e c"
  by (simp_all add: server_user_def)

text \<open>
  Both handlers keep to the direction of the events they get, so the pipeline's contract applies to them,
  whatever codec, application and environment they run with.
\<close>

lemma read_calls_allowed: "list_all (allowed (EvRead m)) cs"
  by (simp add: list_all_iff allowed_def split: cmd.splits)

lemma FrameCodec_calls_allowed: "list_all (allowed ev) (fst (FrameCodec_calls c codec ev s))"
proof (cases ev)
  case (EvWrite m)
  then show ?thesis
    by (cases m) (auto simp: FrameCodec_calls_def FrameCodec_HandleWrite_def allowed_def split: option.splits sum.splits)
qed (simp_all add: FrameCodec_calls_def read_calls_allowed)

lemma ProtocolHandler_calls_allowed: "list_all (allowed ev) (fst (ProtocolHandler_calls h e c ev s))"
  by (cases ev) (simp_all add: ProtocolHandler_calls_def read_calls_allowed)

interpretation sp: event_handlers "server_user h e c codec" for h e c codec
  by unfold_locales (simp add: server_user_def FrameCodec_calls_allowed ProtocolHandler_calls_allowed)

text \<open>In particular exceptions: the server's pipeline has no handler that could answer one with a write.\<close>

lemma server_exception_returns:
  assumes "represents p hs"
  shows "\<exists>r p' s'. FireException (3 * Size p) (server_user h e c codec) ex p s = Some (r, p', s') \<and> represents p' hs"
  by (rule sp.fire_exception_returns [OF assms, where ex = ex and s = s]) blast

section \<open>The connection handler\<close>

text \<open>
  The loop of \<open>Worker.handleConnection\<close>: \<open>stopped i\<close> says whether the worker's context is cancelled at
  iteration \<open>i\<close>, \<open>user i\<close> the handlers with what they see of the outside then, \<open>lc\<close> the connection as the
  message that is fired.
\<close>

partial_function (option) read_loop ::
  "nat \<Rightarrow> (nat \<Rightarrow> ('v, 's) user) \<Rightarrow> (nat \<Rightarrow> bool) \<Rightarrow> 'v Pipeline_Events.message \<Rightarrow> nat \<Rightarrow> LinkedPipeline \<Rightarrow> 's \<Rightarrow> 's outcome option" where
  "read_loop n user stopped lc i p s =
     (if stopped i then Some (None, p\<lparr>pl_conn := conn_Close (pl_conn p)\<rparr>, s)
      else case FireRead n (user i) lc p s of
             None \<Rightarrow> None
           | Some (r, p', s') \<Rightarrow>
               (if r \<noteq> None \<or> conn_closed (pl_conn p') then Some (r, p', s')
                else read_loop n user stopped lc (Suc i) p' s'))"

text \<open>
  \<open>handleConnection\<close> after the initializer succeeded: activation, the loop, the exception event for a panic,
  and the deferred close and inactivity event (\<open>fin\<close> are the handlers at that time). A panic in an exception handler leaves the call only after
  the deferred part; one in the deferred part replaces it.
\<close>

definition handleConnection_body ::
  "nat \<Rightarrow> (nat \<Rightarrow> ('v, 's) user) \<Rightarrow> (nat \<Rightarrow> bool) \<Rightarrow> 'v Pipeline_Events.message \<Rightarrow> LinkedPipeline \<Rightarrow> 's \<Rightarrow> 's outcome option" where
  "handleConnection_body n user stopped lc p s =
     (case FireActive n (user 0) p s of
        None \<Rightarrow> None
      | Some (Some ex, p1, s1) \<Rightarrow> Some (Some ex, p1, s1)
      | Some (None, p1, s1) \<Rightarrow> read_loop n user stopped lc 0 p1 s1)"

definition recovered :: "nat \<Rightarrow> ('v, 's) user \<Rightarrow> 's outcome option \<Rightarrow> 's outcome option" where
  "recovered n user res =
     (case res of
        None \<Rightarrow> None
      | Some (None, p, s) \<Rightarrow> Some (None, p, s)
      | Some (Some ex, p, s) \<Rightarrow> FireException n user ex p s)"

definition handleConnection ::
  "nat \<Rightarrow> (nat \<Rightarrow> ('v, 's) user) \<Rightarrow> ('v, 's) user \<Rightarrow> (nat \<Rightarrow> bool) \<Rightarrow> 'v Pipeline_Events.message \<Rightarrow>
   LinkedPipeline \<Rightarrow> 's \<Rightarrow> 's outcome option" where
  "handleConnection n user fin stopped lc p s =
     (case recovered n fin (handleConnection_body n user stopped lc p s) of
        None \<Rightarrow> None
      | Some (r, p', s') \<Rightarrow>
          (case FireInactive n fin NilException (p'\<lparr>pl_conn := conn_Close (pl_conn p')\<rparr>) s' of
             None \<Rightarrow> None
           | Some (None, p'', s'') \<Rightarrow> Some (r, p'', s'')
           | Some (Some ex, p'', s'') \<Rightarrow> Some (Some ex, p'', s'')))"

declare read_loop.simps [code]

section \<open>The straight server\<close>

text \<open>What is promised: no pipeline, one message of the connection after the other.\<close>

definition write_frame :: "int \<Rightarrow> Frame option \<Rightarrow> Pipeline_List.conn \<Rightarrow> Pipeline_List.conn" where
  "write_frame streamThreshold fo k =
     (case fo of
        None \<Rightarrow> conn_Close k
      | Some f \<Rightarrow>
          (case encodeMessage (FrameHeader.FrameType (Header f)) (StreamId (Header f)) (Payload f) streamThreshold of
             Inl err \<Rightarrow> conn_Close k
           | Inr bufs \<Rightarrow>
               (case conn_Write (concat bufs) k of (None, k') \<Rightarrow> k' | (Some err, k') \<Rightarrow> conn_Close k')))"

definition apply_effect :: "int \<Rightarrow> effect \<Rightarrow> Pipeline_List.conn \<Rightarrow> Pipeline_List.conn" where
  "apply_effect streamThreshold ef k =
     (case ef of
        effect.CtxWrite fo \<Rightarrow> write_frame streamThreshold fo k
      | effect.CtxClose err \<Rightarrow> conn_Close k
      | ConnClose _ \<Rightarrow> conn_Close k
      | ConnWrite _ b _ \<Rightarrow> snd (conn_Write b k)
      | _ \<Rightarrow> k)"

definition serve_one ::
  "(string \<Rightarrow> string \<Rightarrow> string + go_any) \<Rightarrow> env \<Rightarrow> Protocol_State.conn \<Rightarrow> int \<Rightarrow> Pipeline_List.conn \<Rightarrow> server \<Rightarrow> reader \<Rightarrow>
   Pipeline_List.conn \<times> server \<times> reader" where
  "serve_one h e c th k sv rd =
     (case decodeStreamed rd of
        (Inl err, rd') \<Rightarrow> (conn_Close k, sv, rd')
      | (Inr f, rd') \<Rightarrow>
          (let (sv', effs) = Protocol_Server.HandleRead h (all_writes e) c (MsgFrame f) sv
           in (fold (apply_effect th) effs k, sv', rd')))"

lemma decodeStreamed_shrinks: "decodeStreamed rd = (Inr f, rd') \<Longrightarrow> length (rd_data rd') < length (rd_data rd)"
proof -
  assume d: "decodeStreamed rd = (Inr f, rd')"
  then obtain f1 r1 where f1: "decodeFrame rd = (Inr f1, r1)"
    by (auto simp: decodeStreamed_def split: prod.splits sum.splits)
  have "length (rd_data rd') \<le> length (rd_data r1)"
  proof (cases "Flags (Header f1) AND FlagMore = 0")
    case True
    with d f1 show ?thesis by (simp add: decodeStreamed_def)
  next
    case False
    with d f1 have "decodeStreamed_loop (StreamId (Header f1)) (FrameHeader.FrameType (Header f1)) (Payload f1) r1 = (Inr f, rd')"
      by (simp add: decodeStreamed_def)
    from decodeStreamed_loop_sound [OF this] obtain fs where "rd_data r1 = concat (map wire fs) @ rd_data rd'" by blast
    then show ?thesis by simp
  qed
  with decodeFrame_decreases [OF f1] show ?thesis by (simp add: HeaderSize_def)
qed

lemma serve_one_shrinks:
  assumes "serve_one h e c th k sv rd = (k', sv', rd')"
  shows "conn_closed k' \<or> length (rd_data rd') < length (rd_data rd)"
  using assms decodeStreamed_shrinks
  by (auto simp: serve_one_def conn_Close_def split: prod.splits sum.splits)

function serve_conn ::
  "(string \<Rightarrow> string \<Rightarrow> string + go_any) \<Rightarrow> (nat \<Rightarrow> env) \<Rightarrow> Protocol_State.conn \<Rightarrow> int \<Rightarrow> (nat \<Rightarrow> bool) \<Rightarrow> nat \<Rightarrow>
   Pipeline_List.conn \<Rightarrow> server \<Rightarrow> reader \<Rightarrow> Pipeline_List.conn \<times> server \<times> reader" where
  "serve_conn h envs c th stopped i k sv rd =
     (if stopped i then (conn_Close k, sv, rd)
      else case serve_one h (envs i) c th k sv rd of
             (k', sv', rd') \<Rightarrow>
               if conn_closed k' then (k', sv', rd') else serve_conn h envs c th stopped (Suc i) k' sv' rd')"
  by pat_completeness auto
termination
proof (relation "measure (\<lambda>(_, _, _, _, _, _, _, _, rd). length (rd_data rd))", goal_cases)
  case 1
  show ?case by simp
next
  case (2 h envs c th stopped i k sv rd k' y sv' rd')
  then have "serve_one h (envs i) c th k sv rd = (k', sv', rd')" by simp
  from serve_one_shrinks [OF this] 2(4) have "length (rd_data rd') < length (rd_data rd)" by simp
  then show ?case by simp
qed

declare serve_conn.simps [simp del]

lemma serve_conn_closes: "conn_closed (fst (serve_conn h envs c th stopped i k sv rd))"
  by (induction h envs c th stopped i k sv rd rule: serve_conn.induct)
    (subst serve_conn.simps, auto simp: conn_Close_def split: prod.splits)

text \<open>What every message keeps, a connection keeps: the order of the replay log, for one.\<close>

lemma serve_one_keeps:
  assumes "\<And>e f p. P p \<Longrightarrow> P (fst (Protocol_Server.HandleRead h e c (MsgFrame f) p))" and "P sv"
    and "serve_one h e c th k sv rd = (k', sv', rd')"
  shows "P sv'"
proof (cases "decodeStreamed rd")
  case (Pair d r)
  show ?thesis
  proof (cases d)
    case (Inl err)
    with Pair assms(2,3) show ?thesis by (simp add: serve_one_def)
  next
    case (Inr f)
    with Pair assms(3) have "sv' = fst (Protocol_Server.HandleRead h (all_writes e) c (MsgFrame f) sv)"
      by (auto simp: serve_one_def split: prod.splits)
    with assms(1) [OF assms(2)] show ?thesis by simp
  qed
qed

lemma serve_conn_keeps:
  assumes keeps: "\<And>e f p. P p \<Longrightarrow> P (fst (Protocol_Server.HandleRead h e c (MsgFrame f) p))"
  shows "P sv \<Longrightarrow> P (fst (snd (serve_conn h envs c th stopped i k sv rd)))"
proof (induction "length (rd_data rd)" arbitrary: i k sv rd rule: less_induct)
  case less
  obtain k' sv' rd' where one: "serve_one h (envs i) c th k sv rd = (k', sv', rd')"
    by (cases "serve_one h (envs i) c th k sv rd") auto
  have "P sv'" using serve_one_keeps [OF keeps less.prems one] by blast
  with less.hyps [of rd' sv' "Suc i" k'] serve_one_shrinks [OF one] less.prems one show ?case
    by (auto simp: serve_conn.simps [of h envs c th stopped i])
qed

lemma serve_conn_replay_log: "seq_inv sv \<Longrightarrow> seq_inv (fst (snd (serve_conn h envs c th stopped i k sv rd)))"
  by (rule serve_conn_keeps) (rule seq_inv_read)

section \<open>The pipeline implements it\<close>

abbreviation server_handlers :: "handler list" where
  "server_handlers \<equiv> [HeadHandler, FrameCodec_handler, ProtocolHandler_handler, TailHeader]"

lemma conn_Write_failed:
  "conn_Write b k = (Some err, k') \<Longrightarrow> snd (conn_Write b' k') = k'"
  by (auto simp: conn_Write_def split: if_splits option.splits)

lemma fold_conn_Write_failed:
  "conn_Write b k = (Some err, k') \<Longrightarrow> fold (\<lambda>b k. snd (conn_Write b k)) bs k' = k'"
  by (induction bs) (simp_all add: conn_Write_failed)

text \<open>After a write failed the further ones change nothing, so abandoning them makes no difference.\<close>

lemma copy_chunks_fold: "snd (copy_chunks bs err k) = fold (\<lambda>b k. snd (conn_Write b k)) bs k"
  by (induction bs arbitrary: k) (auto simp: fold_conn_Write_failed split: prod.splits option.splits)

lemma run_conn_writes:
  "run_cmds n user a (join_writes b cs) p s =
   run_cmds n user a cs (p\<lparr>pl_conn := snd (conn_Write b (pl_conn p))\<rparr>) s"
  by (cases "(b, cs)" rule: join_writes.cases) (simp_all add: copy_chunks_fold del: copy_chunks.simps)

lemma server_nodes:
  assumes "linked p xs server_handlers"
  shows "nc_handler (nodes p ! (xs ! 0)) = HeadHandler" "nc_handler (nodes p ! (xs ! Suc 0)) = FrameCodec_handler"
    "nc_handler (nodes p ! (xs ! 2)) = ProtocolHandler_handler" "nc_handler (nodes p ! (xs ! 3)) = TailHeader"
  using linked_handler_at [OF assms, of 0] linked_handler_at [OF assms, of 1] linked_handler_at [OF assms, of 2]
    linked_handler_at [OF assms, of 3] linked_length [OF assms] by (auto simp flip: length_greater_0_conv)

lemma write_through:
  assumes l: "linked p xs server_handlers"
  shows "run_cmd (Suc (Suc n)) (server_user h e c (with_threshold th)) (xs ! 2) (cmd.CtxWrite (MOther fo)) p s =
    Some (None, p\<lparr>pl_conn := write_frame th fo (pl_conn p)\<rparr>, s)"
proof -
  have l': "linked (p\<lparr>pl_conn := k\<rparr>) xs server_handlers" for k using l by simp
  note ev = server_pipeline_routes [OF l, where 'v = "Frame option"] server_pipeline_routes [OF l', where 'v = "Frame option"]
  show ?thesis
    using ev server_nodes [OF l] linked_head_tail(1) [OF l]
    by (auto simp: FrameCodec_calls_def FrameCodec_handler_def FrameCodec_HandleWrite_def write_frame_def
        HeadHandler_HandleWrite_def AssertWriteLength_def TailHeader_HandleException_def conn_Close_def
        split: option.splits sum.splits prod.splits)
qed

lemma apply_effect_simps [simp]:
  "apply_effect th (effect.CtxWrite fo) k = write_frame th fo k" "apply_effect th (effect.CtxClose err) k = conn_Close k"
  "apply_effect th (ConnClose c) k = conn_Close k" "apply_effect th (ConnWrite c b ok) k = snd (conn_Write b k)"
  "apply_effect th (SetWriteDeadline c d) k = k"
  by (simp_all add: apply_effect_def)

definition proto_effect :: "effect \<Rightarrow> bool" where
  "proto_effect ef = (case ef of CtxRead _ \<Rightarrow> False | CtxWriteBytes _ \<Rightarrow> False | _ \<Rightarrow> True)"

lemma run_effects:
  assumes "list_all proto_effect effs" and "linked p xs server_handlers"
  shows "run_cmds (Suc (Suc n)) (server_user h e c (with_threshold th)) (xs ! 2) (cmds_of effs) p s =
    Some (None, p\<lparr>pl_conn := fold (apply_effect th) effs (pl_conn p)\<rparr>, s)"
  using assms
proof (induction effs arbitrary: p)
  case (Cons ef effs)
  have l: "linked (p\<lparr>pl_conn := k\<rparr>) xs server_handlers" for k using Cons.prems by simp
  have IH: "run_cmds (Suc (Suc n)) (server_user h e c (with_threshold th)) (xs ! 2) (cmds_of effs) (p\<lparr>pl_conn := k\<rparr>) s =
      Some (None, p\<lparr>pl_conn := fold (apply_effect th) effs k\<rparr>, s)" for k
    using Cons.IH [OF _ l [of k]] Cons.prems by simp
  show ?case
  proof (cases ef)
    case (CtxWrite fo)
    with IH write_through [OF Cons.prems(2)] show ?thesis by (simp del: run_cmd.simps)
  next
    case (SetWriteDeadline c d)
    with IH [of "pl_conn p"] show ?thesis by simp
  next
    case (ConnWrite c b ok)
    with IH show ?thesis by (simp add: run_conn_writes)
  qed (use Cons.prems IH in \<open>simp_all add: proto_effect_def\<close>)
qed simp

lemma replayTo_effects: "list_all proto_effect (replayTo e c k bufs)"
  by (induction bufs arbitrary: k) (auto simp: proto_effect_def)

lemma handleHello_effects: "list_all proto_effect (snd (handleHello e c f p))"
  by (simp add: handleHello_def reply_def proto_effect_def replayTo_effects Let_def split: sum.split prod.split)

lemma handleRequestFrame_effects: "list_all proto_effect (handleRequestFrame h f)"
  by (simp add: handleRequestFrame_def proto_effect_def Let_def split: sum.split option.split)

lemma handleSubscribe_effects: "list_all proto_effect (snd (handleSubscribe e c f b p))"
  by (simp add: handleSubscribe_def reply_def proto_effect_def Let_def split: sum.split prod.split)

lemma dispatch_effects: "list_all proto_effect (snd (dispatch h e c f p))"
  unfolding dispatch_def Let_def
  by (simp add: handleHello_effects handleRequestFrame_effects handleSubscribe_effects reply_def proto_effect_def)

lemma HandleRead_effects: "list_all proto_effect (snd (Protocol_Server.HandleRead h e c m p))"
  by (cases m) (simp_all add: HandleRead_def Let_def dispatch_effects proto_effect_def)

text \<open>Firing one read: the two handlers, composed by the pipeline, serve one message, without a panic.\<close>

lemma FireRead_serves:
  assumes l: "linked p xs server_handlers" and n: "4 \<le> n"
    and one: "serve_one h e c th (pl_conn p) (cs_server s) (cs_reader s) = (k', sv', rd')"
  shows "FireRead n (server_user h e c (with_threshold th)) m p s =
    Some (None, p\<lparr>pl_conn := k'\<rparr>, \<lparr>cs_server = sv', cs_reader = rd'\<rparr>)"
proof -
  have j: "n = Suc (Suc (Suc (Suc (n - 4))))" using n by simp
  define j where "j = n - 4"
  with j have j: "n = Suc (Suc (Suc (Suc j)))" by simp
  note ev = server_pipeline_routes [OF l, where 'v = "Frame option"]
  note nd = server_nodes [OF l]
  show ?thesis
  proof (cases "decodeStreamed (cs_reader s)")
    case (Pair d r)
    show ?thesis
    proof (cases d)
      case (Inl err)
      with Pair one ev nd j show ?thesis
        by (auto simp: FireRead_def serve_one_def FrameCodec_calls_def FrameCodec_handler_def
            FrameCodec_HandleRead_def)
    next
      case (Inr f)
      obtain sv1 effs where h: "Protocol_Server.HandleRead h (all_writes e) c (MsgFrame f) (cs_server s) = (sv1, effs)"
        by (cases "Protocol_Server.HandleRead h (all_writes e) c (MsgFrame f) (cs_server s)")
      have "list_all proto_effect effs" using HandleRead_effects h by (metis snd_conv)
      from run_effects [OF this l]
      show ?thesis using Pair Inr one ev nd j h
        by (auto simp: FireRead_def serve_one_def FrameCodec_calls_def FrameCodec_handler_def
            FrameCodec_HandleRead_def ProtocolHandler_handler_def ProtocolHandler_calls_def)
    qed
  qed
qed

lemma conn_Close_closed: "conn_closed k \<Longrightarrow> conn_Close k = k"
  by (simp add: conn_Close_def)

lemma read_loop_serves:
  assumes "linked p xs server_handlers" and "4 \<le> n"
  shows "serve_conn h envs c th stopped i (pl_conn p) (cs_server s) (cs_reader s) = (k', sv', rd') \<Longrightarrow>
    read_loop n (\<lambda>i. server_user h (envs i) c (with_threshold th)) stopped lc i p s =
      Some (None, p\<lparr>pl_conn := k'\<rparr>, \<lparr>cs_server = sv', cs_reader = rd'\<rparr>)"
  using assms(1)
proof (induction "length (rd_data (cs_reader s))" arbitrary: i p s rule: less_induct)
  case less
  obtain k1 sv1 rd1 where one: "serve_one h (envs i) c th (pl_conn p) (cs_server s) (cs_reader s) = (k1, sv1, rd1)"
    by (cases "serve_one h (envs i) c th (pl_conn p) (cs_server s) (cs_reader s)") auto
  let ?p = "p\<lparr>pl_conn := k1\<rparr>" and ?s = "\<lparr>cs_server = sv1, cs_reader = rd1\<rparr>"
  have fire: "FireRead n (server_user h (envs i) c (with_threshold th)) lc p s = Some (None, ?p, ?s)"
    by (rule FireRead_serves [OF less.prems(2) assms(2) one])
  note unf = read_loop.simps [of n _ stopped lc i p s]
    serve_conn.simps [of h envs c th stopped i "pl_conn p" "cs_server s" "cs_reader s"]
  show ?case
  proof (cases "stopped i \<or> conn_closed k1")
    case True
    with less.prems(1) fire one unf show ?thesis by (auto split: if_splits)
  next
    case False
    then have "length (rd_data (cs_reader ?s)) < length (rd_data (cs_reader s))"
      using serve_one_shrinks [OF one] by simp
    from less.hyps [OF this, of "Suc i" ?p] less.prems False fire one unf
    show ?thesis by simp
  qed
qed

lemma handleConnection_runs:
  assumes l: "linked p xs server_handlers" and n: "4 \<le> n"
    and "serve_conn h envs c th stopped 0 (pl_conn p) (cs_server s) (cs_reader s) = (k', sv', rd')"
  shows "handleConnection n (\<lambda>i. server_user h (envs i) c (with_threshold th)) (server_user h e' c (with_threshold th)) stopped lc p s =
    Some (None, p\<lparr>pl_conn := k'\<rparr>, \<lparr>cs_server = sv', cs_reader = rd'\<rparr>)"
proof -
  have l': "linked (p\<lparr>pl_conn := k\<rparr>) xs server_handlers" for k using l by simp
  have "conn_Close k' = k'"
    using serve_conn_closes [of h envs c th stopped 0 "pl_conn p" "cs_server s" "cs_reader s"] assms(3)
    by (simp add: conn_Close_closed)
  then show ?thesis
    using read_loop_serves [OF l n assms(3), of lc] server_pipeline_routes(6) [OF l, where 'v = "Frame option"]
      server_pipeline_routes(7) [OF l', where 'v = "Frame option"]
    by (simp add: handleConnection_def handleConnection_body_def recovered_def FireActive_def FireInactive_def)
qed

text \<open>
  C17. The server's pipeline does what it is meant to. The initializer succeeds on a new connection, and
  the goroutine of that connection, with the handlers found through the linked nodes and each write
  travelling back through the codec to the head, ends without a panic in exactly the state of the
  straight server, which reads one message after the other and applies what \<open>HandleRead\<close> answers to the
  connection: whatever bytes arrive, however the input ends, whenever the worker is stopped, whichever
  write fails and whatever the application answers. The connection is closed at the end, and four
  nested handler calls are enough.
\<close>

theorem handleConnection_serves:
  assumes "4 \<le> n"
  shows "\<exists>p p' k' sv' rd'. echoInitializer (NewPipeline k) = (None, p) \<and>
    serve_conn h envs c th stopped 0 k (cs_server s) (cs_reader s) = (k', sv', rd') \<and>
    handleConnection n (\<lambda>i. server_user h (envs i) c (with_threshold th)) (server_user h e' c (with_threshold th)) stopped lc p s =
      Some (None, p', \<lparr>cs_server = sv', cs_reader = rd'\<rparr>) \<and>
    pl_conn p' = k' \<and> conn_closed k' \<and> represents p' server_handlers"
proof -
  obtain p xs where p: "echoInitializer (NewPipeline k) = (None, p)" "pl_conn p = k" "linked p xs server_handlers"
    using echoInitializer_pipeline [of k] by (auto simp: represents_def)
  obtain k' sv' rd' where sc: "serve_conn h envs c th stopped 0 k (cs_server s) (cs_reader s) = (k', sv', rd')"
    by (cases "serve_conn h envs c th stopped 0 k (cs_server s) (cs_reader s)") auto
  have "represents (p\<lparr>pl_conn := k'\<rparr>) server_handlers" using p(3) by (auto simp: represents_def)
  with handleConnection_runs [OF p(3) assms, of h envs c th stopped s k' sv' rd'] p sc
    serve_conn_closes [of h envs c th stopped 0 k "cs_server s" "cs_reader s"]
  show ?thesis by (intro exI [of _ p] exI [of _ "p\<lparr>pl_conn := k'\<rparr>"]) auto
qed

theorem handleConnection_serves_witness:
  "let s = \<lparr>cs_server = NewProtocolHandler, cs_reader = \<lparr>rd_data = [5, 0, 1], rd_end = EOF\<rparr>\<rparr>;
       k = \<lparr>written = [9], conn_closed = False, room = Some 2\<rparr>;
       user = server_user (\<lambda>_ _. Inr AnyNil) (sample_env 0) 3 (with_threshold 1000)
   in \<exists>p p' s'. echoInitializer (NewPipeline k) = (None, p) \<and>
        handleConnection 4 (\<lambda>i. user) user (\<lambda>_. False) (MReader [] None) p s = Some (None, p', s') \<and>
        pl_conn p' = k\<lparr>conn_closed := True\<rparr> \<and> cs_reader s' = \<lparr>rd_data = [], rd_end = EOF\<rparr>"
proof -
  let ?s = "\<lparr>cs_server = NewProtocolHandler, cs_reader = \<lparr>rd_data = [5, 0, 1], rd_end = EOF\<rparr>\<rparr>"
  let ?k = "\<lparr>written = [9], conn_closed = False, room = Some 2\<rparr> :: Pipeline_List.conn"
  let ?h = "(\<lambda>_ _. Inr AnyNil) :: string \<Rightarrow> string \<Rightarrow> string + go_any"
  have "serve_conn ?h (\<lambda>i. sample_env 0) 3 1000 (\<lambda>_. False) 0 ?k (cs_server ?s) (cs_reader ?s) =
      (?k\<lparr>conn_closed := True\<rparr>, cs_server ?s, \<lparr>rd_data = [], rd_end = EOF\<rparr>)"
    by code_simp
  with handleConnection_serves [of 4 ?k ?h "\<lambda>i. sample_env 0" 3 1000 "\<lambda>_. False" ?s "sample_env 0" "MReader [] None"]
  show ?thesis by (auto simp: Let_def)
qed

section \<open>Pipelined requests\<close>

text \<open>What a client sends for a request, and what the server writes for it.\<close>

definition request_bytes :: "int \<Rightarrow> uint32 \<times> bytes \<Rightarrow> bytes" where
  "request_bytes th rq = (case encodeMessage REQUEST (fst rq) (snd rq) th of Inl err \<Rightarrow> [] | Inr bufs \<Rightarrow> concat bufs)"

definition answer_bytes :: "(string \<Rightarrow> string \<Rightarrow> string + go_any) \<Rightarrow> int \<Rightarrow> uint32 \<times> bytes \<Rightarrow> bytes" where
  "answer_bytes h th rq =
     (case handleRequestFrame h (newFrame REQUEST (fst rq) (snd rq)) of
        [effect.CtxWrite (Some r)] \<Rightarrow>
          (case encodeMessage RESPONSE (fst rq) (Payload r) th of Inl err \<Rightarrow> [] | Inr bufs \<Rightarrow> concat bufs)
      | _ \<Rightarrow> [])"

text \<open>A request the protocol can answer: not empty, within the bounds, well formed, and its answer is JSON.\<close>

definition answerable :: "(string \<Rightarrow> string \<Rightarrow> string + go_any) \<Rightarrow> uint32 \<times> bytes \<Rightarrow> bool" where
  "answerable h rq \<longleftrightarrow> 0 < length (snd rq) \<and> length (snd rq) \<le> MaxStreamSize \<and>
     (\<exists>msg. DecodeJSONMessage (Some (newFrame REQUEST (fst rq) (snd rq))) = Inr msg \<and>
        (case h (Action msg) (Data msg) of Inl err \<Rightarrow> True | Inr resp \<Rightarrow> json_Marshal resp \<noteq> None))"

lemma newFrame_type [simp]: "FrameHeader.FrameType (Header (newFrame t n pl)) = t"
  by (simp add: newFrame_def)

lemma Payload_newFrame [simp]: "Payload (newFrame t n pl) = pl"
  by (simp add: newFrame_def)

lemma mustJSON_nonempty: "0 < length (mustJSON a b)"
  by (simp add: mustJSON_def envelope_bytes_eq env_text_def)

lemma handleRequestFrame_answers:
  assumes "answerable h rq"
  obtains pl where "handleRequestFrame h (newFrame REQUEST (fst rq) (snd rq)) = [effect.CtxWrite (Some (newFrame RESPONSE (fst rq) pl))]"
    and "0 < length pl"
  using assms mustJSON_nonempty
  by (fastforce simp: answerable_def handleRequestFrame_def Let_def split: sum.splits)

definition handshaken :: "Protocol_State.conn \<Rightarrow> server \<Rightarrow> bool" where
  "handshaken c sv \<longleftrightarrow> (requireHello sv \<longrightarrow> map_of (connTokens sv) c \<noteq> None)"

lemma serve_one_request:
  assumes "answerable h rq" and "handshaken c sv" and "\<not> conn_closed k" and "room k = None"
  shows "serve_one h e c th k sv (rd\<lparr>rd_data := request_bytes th' rq @ rest\<rparr>) =
    (k\<lparr>written := written k @ answer_bytes h th rq\<rparr>, touchSession (env_now e) c sv, rd\<lparr>rd_data := rest\<rparr>)"
proof -
  have sz: "0 < length (snd rq)" "length (snd rq) \<le> MaxStreamSize" using assms(1) by (simp_all add: answerable_def)
  let ?f = "newFrame REQUEST (fst rq) (snd rq)"
  obtain bufs where "encodeMessage REQUEST (fst rq) (snd rq) th' = Inr bufs" by (rule encodeMessage_Inr [OF sz(1)])
  then have d: "decodeStreamed (rd\<lparr>rd_data := request_bytes th' rq @ rest\<rparr>) = (Inr ?f, rd\<lparr>rd_data := rest\<rparr>)"
    using encodeMessage_decode [OF sz(1), where r = rd and rest = rest] sz(2)
    by (simp add: request_bytes_def DecodeStreamed_def prod_eq_iff)
  obtain pl where pl: "handleRequestFrame h ?f = [effect.CtxWrite (Some (newFrame RESPONSE (fst rq) pl))]" "0 < length pl"
    by (rule handleRequestFrame_answers [OF assms(1)])
  obtain out where out: "encodeMessage RESPONSE (fst rq) pl th = Inr out" by (rule encodeMessage_Inr [OF pl(2)])
  have "REQUEST \<noteq> HELLO" by (simp add: wire_defs)
  then have "Protocol_Server.HandleRead h (all_writes e) c (MsgFrame ?f) sv =
      (touchSession (env_now e) c sv, handleRequestFrame h ?f)"
    using assms(2) by (auto simp: HandleRead_def dispatch_def handshaken_def all_writes_def Let_def)
  with d pl out assms(3,4) show ?thesis
    by (simp add: serve_one_def write_frame_def answer_bytes_def conn_Write_def)
qed

lemma serve_conn_requests:
  assumes "\<And>i. \<not> stopped i"
  shows "list_all (answerable h) rqs \<Longrightarrow> handshaken c sv \<Longrightarrow> \<not> conn_closed k \<Longrightarrow> room k = None \<Longrightarrow>
    \<exists>sv' rd'. serve_conn h envs c th stopped i k sv \<lparr>rd_data = concat (map (request_bytes th') rqs), rd_end = fin\<rparr> =
      (k\<lparr>written := written k @ concat (map (answer_bytes h th) rqs), conn_closed := True\<rparr>, sv', rd') \<and> handshaken c sv'"
proof (induction rqs arbitrary: i k sv)
  case Nil
  then show ?case
    using assms by (simp add: serve_conn.simps [of _ _ _ _ _ i] serve_one_def decodeStreamed_def decodeFrame_def ReadFull_def
        HeaderSize_def conn_Close_def)
next
  case (Cons rq rqs)
  have "handshaken c (touchSession now c sv)" for now using Cons.prems(2) by (simp add: handshaken_def)
  with Cons.IH [of "touchSession (env_now (envs i)) c sv" "k\<lparr>written := written k @ answer_bytes h th rq\<rparr>" "Suc i"]
    Cons.prems serve_one_request [where e = "envs i" and th = th and rd = "\<lparr>rd_data = [], rd_end = fin\<rparr>" and th' = th'
      and rest = "concat (map (request_bytes th') rqs)" and h = h and rq = rq and c = c and sv = sv and k = k] assms
  show ?case by (simp add: serve_conn.simps [of _ _ _ _ _ i])
qed

text \<open>
  C18. Pipelined requests are answered in order. A client that sends any number of well-formed requests
  back to back, fragmented or not, gets on the same connection exactly the responses of the
  application, in the order of the requests and each with its stream id, error answers included; then
  the end of the input closes the connection. This is a statement about the goroutine of the
  connection as it runs in the worker, from the bytes received to the bytes written.
\<close>

theorem requests_answered_in_order:
  assumes "list_all (answerable h) rqs" and "handshaken c sv" and "\<And>i. \<not> stopped i" and "4 \<le> n"
    and "s = \<lparr>cs_server = sv, cs_reader = \<lparr>rd_data = concat (map (request_bytes th') rqs), rd_end = fin\<rparr>\<rparr>"
    and "echoInitializer (NewPipeline \<lparr>written = [], conn_closed = False, room = None\<rparr>) = (None, p)"
  shows "\<exists>p' s'. handleConnection n (\<lambda>i. server_user h (envs i) c (with_threshold th)) (server_user h e' c (with_threshold th)) stopped lc p s = Some (None, p', s') \<and>
    written (pl_conn p') = concat (map (answer_bytes h th) rqs) \<and> conn_closed (pl_conn p') \<and> handshaken c (cs_server s')"
proof -
  let ?k = "\<lparr>written = [], conn_closed = False, room = None\<rparr> :: Pipeline_List.conn"
  obtain xs where p: "pl_conn p = ?k" "linked p xs server_handlers"
    using echoInitializer_pipeline [of ?k] assms(6) by (auto simp: represents_def)
  obtain sv' rd' where sc: "serve_conn h envs c th stopped 0 ?k sv (cs_reader s) =
      (\<lparr>written = concat (map (answer_bytes h th) rqs), conn_closed = True, room = None\<rparr>, sv', rd')" "handshaken c sv'"
    using serve_conn_requests [where stopped = stopped, OF assms(3,1,2), where k = ?k and envs = envs and th = th and i = 0 and th' = th' and fin = fin]
      assms(5) by auto
  with handleConnection_runs [OF p(2) assms(4), of h envs c th stopped s] p(1) assms(5) show ?thesis by auto
qed

theorem requests_answered_in_order_witness:
  "let h = (\<lambda>a d. if a = ''a'' then Inr (AnyRaw d) else Inl ''no'');
       rqs = [(7, bytes_of (env_text ''a'' ''5'')), (9, bytes_of (env_text ''b'' ''6''))];
       s = \<lparr>cs_server = NewProtocolHandler, cs_reader = \<lparr>rd_data = concat (map (request_bytes 4) rqs), rd_end = EOF\<rparr>\<rparr>;
       p = snd (echoInitializer (NewPipeline \<lparr>written = [], conn_closed = False, room = None\<rparr>));
       user = server_user h (sample_env 0) 3 (with_threshold 1000)
   in \<exists>p' s'. handleConnection 4 (\<lambda>i. user) user (\<lambda>_. False) (MReader [] None) p s = Some (None, p', s') \<and>
      written (pl_conn p') = concat (map (answer_bytes h 1000) rqs) \<and>
      concat (map (\<lambda>rq. handleRequestFrame h (newFrame REQUEST (fst rq) (snd rq))) rqs) =
        [effect.CtxWrite (Some (newFrame RESPONSE 7 (mustJSON ''a'' ''5''))),
         effect.CtxWrite (Some (newFrame RESPONSE 9 (mustJSON ''b'' (marshal_ErrorMessage ''no''))))]"
proof -
  let ?h = "(\<lambda>a d. if a = ''a'' then Inr (AnyRaw d) else Inl ''no'') :: string \<Rightarrow> string \<Rightarrow> string + go_any"
  let ?rqs = "[(7, bytes_of (env_text ''a'' ''5'')), (9, bytes_of (env_text ''b'' ''6''))] :: (uint32 \<times> bytes) list"
  let ?k = "\<lparr>written = [], conn_closed = False, room = None\<rparr> :: Pipeline_List.conn"
  have d: "DecodeJSONMessage (Some (newFrame REQUEST 7 (bytes_of (env_text ''a'' ''5'')))) = Inr \<lparr>Action = ''a'', Data = ''5''\<rparr>"
    "DecodeJSONMessage (Some (newFrame REQUEST 9 (bytes_of (env_text ''b'' ''6'')))) = Inr \<lparr>Action = ''b'', Data = ''6''\<rparr>"
    "json_Marshal (AnyRaw ''5'') = Some ''5''"
    by code_simp+
  have l: "length (bytes_of (env_text ''a'' ''5'')) = 23" "length (bytes_of (env_text ''b'' ''6'')) = 23" by code_simp+
  have a: "list_all (answerable ?h) ?rqs"
    using l by (simp add: answerable_def d MaxStreamSize_def flip: length_greater_0_conv)
  have hs: "handshaken 3 NewProtocolHandler" by (simp add: handshaken_def NewProtocolHandler_def)
  have "fst (echoInitializer (NewPipeline ?k)) = None" by code_simp
  then have p: "echoInitializer (NewPipeline ?k) = (None, snd (echoInitializer (NewPipeline ?k)))" by (simp add: prod_eq_iff)
  have eff: "concat (map (\<lambda>rq. handleRequestFrame ?h (newFrame REQUEST (fst rq) (snd rq))) ?rqs) =
      [effect.CtxWrite (Some (newFrame RESPONSE 7 (mustJSON ''a'' ''5''))),
       effect.CtxWrite (Some (newFrame RESPONSE 9 (mustJSON ''b'' (marshal_ErrorMessage ''no''))))]"
    by (simp add: handleRequestFrame_def d Let_def)
  from requests_answered_in_order [where stopped = "\<lambda>_. False" and n = 4 and th' = 4 and fin = EOF and envs = "\<lambda>_. sample_env 0"
      and th = 1000 and e' = "sample_env 0" and lc = "MReader [] None", OF a hs _ _ refl p]
  show ?thesis using eff by (auto simp: Let_def)
qed

end
