(* ===== verification/Utilities.thy ===== *)
theory Utilities
  imports Go_Prelude
begin

text \<open>
  Small parts of the program: the selection keys of \<open>pkg/channels/selector.go\<close> as a bit set, the
  functional options of \<open>pkg/options.go\<close>, and the signal loop of \<open>pkg/utils/graceful.go\<close>.
\<close>

section \<open>Selection keys\<close>

type_synonym SelectKeys = uint32

definition OP_READ :: SelectKeys where "OP_READ = 1"
definition OP_WRITE :: SelectKeys where "OP_WRITE = 2"
definition OP_CONNECT :: SelectKeys where "OP_CONNECT = 4"
definition OP_ACCEPT :: SelectKeys where "OP_ACCEPT = 8"

lemmas op_defs = OP_READ_def OP_WRITE_def OP_CONNECT_def OP_ACCEPT_def

fun join_bar :: "string list \<Rightarrow> string" where
  "join_bar [] = ''''"
| "join_bar [x] = x"
| "join_bar (x # xs) = x @ ''|'' @ join_bar xs"

definition SelectKeys_String :: "SelectKeys \<Rightarrow> string" where
  "SelectKeys_String s =
     (let ss = [];
          ss = (if s AND OP_READ \<noteq> 0 then ss @ [''OP_READ''] else ss);
          ss = (if s AND OP_WRITE \<noteq> 0 then ss @ [''OP_WRITE''] else ss);
          ss = (if s AND OP_CONNECT \<noteq> 0 then ss @ [''OP_CONNECT''] else ss);
          ss = (if s AND OP_ACCEPT \<noteq> 0 then ss @ [''OP_ACCEPT''] else ss)
      in join_bar ss)"

definition Has :: "SelectKeys \<Rightarrow> SelectKeys \<Rightarrow> bool" where
  "Has s key \<longleftrightarrow> s AND key \<noteq> 0"

definition Add :: "SelectKeys \<Rightarrow> SelectKeys \<Rightarrow> SelectKeys" where
  "Add s key = s OR key"

definition Remove :: "SelectKeys \<Rightarrow> SelectKeys \<Rightarrow> SelectKeys" where
  "Remove s key = s AND NOT key"

text \<open>The keys behave as a set of bits: adding and removing affects the given bits and no others.\<close>

lemma Has_bits: "Has s key \<longleftrightarrow> (\<exists>n. bit s n \<and> bit key n)"
proof -
  have "n < 32" if "bit s n" for n using bit_imp_le_length [OF that] by simp
  then show ?thesis by (auto simp: Has_def bit_eq_iff bit_and_iff)
qed

lemma Has_Add: "Has (Add s k) j \<longleftrightarrow> Has s j \<or> Has k j"
  by (auto simp: Has_bits Add_def bit_or_iff)

lemma Has_Remove: "Has (Remove s k) j \<longleftrightarrow> Has s (Remove j k)"
  by (auto simp: Has_bits Remove_def bit_and_iff bit_not_iff)

lemma Add_Has: "k \<noteq> 0 \<Longrightarrow> Has (Add s k) k"
  by (simp add: Has_Add) (simp add: Has_def)

lemma Remove_Has: "\<not> Has (Remove s k) k"
  by (simp add: Has_def Remove_def and.assoc)

section \<open>Options\<close>

text \<open>
  An option changes the value it is given through a pointer and may fail; the changes it made before
  it failed stay.
\<close>

type_synonym ('o, 'e) Option = "'o \<Rightarrow> 'e option \<times> 'o"

fun Apply :: "'o \<Rightarrow> ('o, 'e) Option list \<Rightarrow> 'e option \<times> 'o" where
  "Apply options [] = (None, options)"
| "Apply options (opt # opts) =
     (case opt options of
        (Some err, o') \<Rightarrow> (Some err, o')
      | (None, o') \<Rightarrow> Apply o' opts)"

definition With :: "('o, 'e) Option list \<Rightarrow> ('o, 'e) Option" where
  "With opts = (\<lambda>options. Apply options opts)"

text \<open>Grouping options changes nothing: nested groups apply in order, up to the first failure.\<close>

lemma Apply_append:
  "Apply options (xs @ ys) =
     (case Apply options xs of (Some e, o') \<Rightarrow> (Some e, o') | (None, o') \<Rightarrow> Apply o' ys)"
  by (induction xs arbitrary: options) (auto split: prod.splits option.splits)

lemma Apply_With: "Apply options (With xs # ys) = Apply options (xs @ ys)"
  by (simp add: With_def Apply_append)

lemma Apply_nested: "Apply options (map With xss) = Apply options (concat xss)"
  by (induction xss arbitrary: options)
    (auto simp: With_def Apply_append split: prod.splits option.splits)

section \<open>Signals\<close>

datatype signal = SIGINT | SIGTERM | SIGQUIT | SIGHUP

record Graceful =
  shutdownSignals :: "signal list"
  reloadSignals :: "signal list"
  has_shutdownCallback :: bool
  has_reloadCallback :: bool

definition NewGraceful :: "bool \<Rightarrow> bool \<Rightarrow> Graceful" where
  "NewGraceful shutdownCallback reloadCallback =
     \<lparr>shutdownSignals = [SIGINT, SIGTERM, SIGINT, SIGQUIT], reloadSignals = [SIGHUP],
      has_shutdownCallback = shutdownCallback, has_reloadCallback = reloadCallback\<rparr>"

text \<open>\<open>listen\<close> panics without shutdown signals; otherwise it says which channel a signal arrives on.\<close>

datatype arrival = OnShutdown signal | OnReload | OnDone

definition listen :: "Graceful \<Rightarrow> (signal \<Rightarrow> arrival option) option" where
  "listen g =
     (if shutdownSignals g = [] then None
      else Some (\<lambda>s. if s \<in> set (shutdownSignals g) then Some (OnShutdown s)
                     else if reloadSignals g \<noteq> [] \<and> s \<in> set (reloadSignals g) then Some OnReload else None))"

datatype callback = CallShutdown signal | CallReload

definition stopBySignal :: "Graceful \<Rightarrow> signal \<Rightarrow> callback list" where
  "stopBySignal g s = (if has_shutdownCallback g then [CallShutdown s] else [])"

definition reload :: "Graceful \<Rightarrow> callback list" where
  "reload g = (if has_reloadCallback g then [CallReload] else [])"

text \<open>\<open>Stop\<close> sends on a channel with room for one value: it blocks (\<open>None\<close>) while an earlier one waits.\<close>

definition Graceful_Stop :: "bool \<Rightarrow> bool option" where
  "Graceful_Stop waiting = (if waiting then None else Some True)"

text \<open>\<open>Wait\<close> over the arrivals its select picks: the callbacks made, and whether it returned.\<close>

fun Wait :: "Graceful \<Rightarrow> arrival list \<Rightarrow> callback list \<times> bool" where
  "Wait g [] = ([], False)"
| "Wait g (OnShutdown s # as) = (stopBySignal g s, True)"
| "Wait g (OnReload # as) = (let (cs, r) = Wait g as in (reload g @ cs, r))"
| "Wait g (OnDone # as) = ([], True)"

text \<open>The loop returns at the first shutdown signal or \<open>Stop\<close>, after a callback for each reload before it.\<close>

lemma Wait_reloads:
  "Wait g (replicate n OnReload @ a # as) =
     (concat (replicate n (reload g)) @ (case a of OnShutdown s \<Rightarrow> stopBySignal g s | OnReload \<Rightarrow> fst (Wait g (a # as)) | OnDone \<Rightarrow> []),
      (case a of OnReload \<Rightarrow> snd (Wait g (a # as)) | _ \<Rightarrow> True))"
  by (induction n) (auto split: arrival.splits prod.splits)

lemma NewGraceful_listens:
  "\<exists>f. listen (NewGraceful sc rc) = Some f \<and> f SIGINT = Some (OnShutdown SIGINT) \<and> f SIGTERM = Some (OnShutdown SIGTERM) \<and>
    f SIGHUP = Some OnReload"
  by (simp add: listen_def NewGraceful_def)

end
