(* ===== verification/Server_Programs.thy ===== *)
theory Server_Programs
  imports Server_Pipeline Reactor_Model Utilities
begin

text \<open>
  The programs that run the server: \<open>cmd/server\<close> with its flags and configuration, \<open>examples/echo-server\<close>
  with its request handler and broadcast, and the janitor goroutine every protocol handler starts. The
  loops are functions of what their \<open>select\<close> picks; a program is the operations it performs, in order,
  and how it ends. Cobra and viper are not part of the repository: what \<open>viper\<close> returns for a key is a
  parameter.
\<close>

section \<open>Request handlers\<close>

text \<open>\<open>json.Marshal\<close> of a map with the given members, which are in the order of their keys.\<close>

fun marshal_members :: "(string \<times> go_any) list \<Rightarrow> string option" where
  "marshal_members [] = Some []"
| "marshal_members [(k, v)] = map_option (\<lambda>t. json_key k @ t) (json_Marshal v)"
| "marshal_members ((k, v) # m # ms) =
     (case json_Marshal v of
        None \<Rightarrow> None
      | Some t \<Rightarrow> map_option (\<lambda>r. json_key k @ t @ '','' @ r) (marshal_members (m # ms)))"

definition marshal_map :: "(string \<times> go_any) list \<Rightarrow> go_any" where
  "marshal_map ms = AnyOther (map_option (\<lambda>t. CHR ''{'' # t @ ''}'') (marshal_members ms))"

text \<open>
  \<open>handleDemo\<close> of the echo server; \<open>now\<close> is the formatted time and \<open>quoted\<close> the quoting of \<open>fmt\<close>. The
  handler of \<open>cmd/server\<close> answers every action the way this one answers \<open>echo\<close>.
\<close>

definition handleDemo :: "(string \<Rightarrow> string) \<Rightarrow> string \<Rightarrow> string \<Rightarrow> string \<Rightarrow> string + go_any" where
  "handleDemo quoted now action data =
     (if action = ''echo'' then Inr (marshal_map [(''action'', AnyString action), (''data'', AnyRaw data)])
      else if action = ''time'' then Inr (marshal_map [(''action'', AnyString action), (''now'', AnyString now)])
      else Inl (''unknown action '' @ quoted action))"

definition demoProtocol :: "string \<Rightarrow> string \<Rightarrow> string + go_any" where
  "demoProtocol action data = Inr (marshal_map [(''action'', AnyString action), (''data'', AnyRaw data)])"

text \<open>An answer to an echo is an envelope of its own.\<close>

lemma marshal_map_env:
  assumes "json_Marshal (AnyRaw raw) = Some raw" and "raw \<noteq> []"
  shows "marshal_map [(''action'', AnyString a), (''data'', AnyRaw raw)] = AnyOther (Some (env_text a raw))"
proof -
  have "json_Marshal (AnyString a) = Some (marshal_string a)" by (simp add: json_Marshal_def)
  with assms show ?thesis by (simp add: marshal_map_def env_text_def)
qed

lemma json_Marshal_marshal_string: "json_Marshal (AnyRaw (marshal_string s)) = Some (marshal_string s)"
  by (simp add: json_Marshal_def parse_json_marshal_string compact_marshal_string) (simp add: marshal_string_def)

section \<open>Background loops\<close>

text \<open>
  \<open>sessionJanitor\<close>: a sweep per tick until the handler is closed. The result is the state and whether the
  goroutine has returned; without a further event it waits.
\<close>

datatype janitor_event = JanitorTick "string list \<Rightarrow> string list" int | JanitorClosed

fun sessionJanitor :: "janitor_event list \<Rightarrow> server \<Rightarrow> server \<times> bool" where
  "sessionJanitor [] p = (p, False)"
| "sessionJanitor (JanitorTick it now # es) p = sessionJanitor es (reapExpiredSessions it now p)"
| "sessionJanitor (JanitorClosed # es) p = (p, True)"

text \<open>\<open>broadcastLoop\<close>: a publish per tick until \<open>stop\<close> is closed; the numbers are the deliveries it prints.\<close>

datatype broadcast_event = BroadcastTick env string | BroadcastStop

definition tick_payload :: "string \<Rightarrow> go_any" where
  "tick_payload now = marshal_map [(''note'', AnyString ''server push''), (''now'', AnyString now)]"

fun broadcastLoop :: "broadcast_event list \<Rightarrow> server \<Rightarrow> server \<times> nat list \<times> effect list \<times> bool" where
  "broadcastLoop [] p = (p, [], [], False)"
| "broadcastLoop (BroadcastTick e now # es) p =
     (let (p', r, effs) = Publish e ''ticks'' (tick_payload now) p;
          delivered = (case r of Inl err \<Rightarrow> 0 | Inr n \<Rightarrow> n);
          (p'', ns, effs', ret) = broadcastLoop es p'
      in (p'', (if delivered > 0 then delivered # ns else ns), effs @ effs', ret))"
| "broadcastLoop (BroadcastStop # es) p = (p, [], [], True)"

text \<open>The janitor is one of the callers the invariants of the server account for.\<close>

lemma sessionJanitor_serves: "(serve h)\<^sup>*\<^sup>* p (fst (sessionJanitor es p))"
  by (induction es p rule: sessionJanitor.induct) (auto intro: converse_rtranclp_into_rtranclp serve.reap)

lemma sessionJanitor_returns: "snd (sessionJanitor es p) \<longleftrightarrow> JanitorClosed \<in> set es"
  by (induction es p rule: sessionJanitor.induct) auto

lemma sessionJanitor_invariant: "serve_inv p \<Longrightarrow> serve_inv (fst (sessionJanitor es p))"
  by (induction es p rule: sessionJanitor.induct) (simp_all add: serve_inv_reap)

text \<open>The payload of a tick always marshals: the error that the loop drops is never one of encoding JSON.\<close>

lemma tick_payload_marshals: "\<exists>body. json_Marshal (tick_payload now) = Some body"
  by (simp add: tick_payload_def marshal_map_def json_Marshal_def)

lemma broadcastLoop_returns: "snd (snd (snd (broadcastLoop es p))) \<longleftrightarrow> BroadcastStop \<in> set es"
  by (induction es p rule: broadcastLoop.induct) (auto simp: Let_def split: prod.splits)

text \<open>Whatever the ticks meet, the loop keeps the server's invariant, as long as each publish has a sane environment.\<close>

fun ticks_ok :: "broadcast_event list \<Rightarrow> server \<Rightarrow> bool" where
  "ticks_ok [] p = True"
| "ticks_ok (BroadcastTick e now # es) p = (env_ok e p \<and> ticks_ok es (fst (Publish e ''ticks'' (tick_payload now) p)))"
| "ticks_ok (BroadcastStop # es) p = True"

lemma broadcastLoop_serves: "ticks_ok es p \<Longrightarrow> (serve h)\<^sup>*\<^sup>* p (fst (broadcastLoop es p))"
proof (induction es p rule: broadcastLoop.induct)
  case (2 e now es p)
  have "serve h p (fst (Publish e ''ticks'' (tick_payload now) p))" using 2(2) by (simp add: serve.publish)
  moreover obtain p' r effs where P: "Publish e ''ticks'' (tick_payload now) p = (p', r, effs)"
    by (cases "Publish e ''ticks'' (tick_payload now) p") auto
  moreover have "(serve h)\<^sup>*\<^sup>* p' (fst (broadcastLoop es p'))" using 2(1) [OF P [symmetric]] 2(2) P by simp
  ultimately show ?case by (auto simp: Let_def split: prod.splits intro: converse_rtranclp_into_rtranclp)
qed simp_all

section \<open>cmd/server\<close>

text \<open>The flags \<open>init\<close> registers with their defaults, and the configuration keys \<open>bindFlags\<close> binds them to.\<close>

datatype flag_value = FlagString string | FlagInt int | FlagBool bool | FlagDuration int

definition server_flags :: "(string \<times> flag_value) list" where
  "server_flags =
     [(''config'', FlagString ''./config.yml''), (''host'', FlagString ''localhost''), (''port'', FlagInt 8080),
      (''network'', FlagString ''tcp''), (''multicore'', FlagBool True), (''workers'', FlagInt 10),
      (''lockThread'', FlagBool True), (''idleTimeout'', FlagDuration 0), (''strictHello'', FlagBool False)]"

definition bindFlags :: "(string \<times> string) list" where
  "bindFlags =
     [(''server.host'', ''host''), (''server.port'', ''port''), (''server.network'', ''network''),
      (''server.multicore'', ''multicore''), (''server.numWorkers'', ''workers''), (''server.lockThread'', ''lockThread''),
      (''server.idleTimeout'', ''idleTimeout''), (''server.strictHello'', ''strictHello'')]"

text \<open>\<open>initConfig\<close>: where viper looks for the file; a file that cannot be read is ignored.\<close>

datatype viper_op = AddConfigPath string | SetConfigName string | SetConfigFile string | AutomaticEnv | ReadInConfig | PrintUsing

definition initConfig :: "string \<Rightarrow> bool \<Rightarrow> viper_op list" where
  "initConfig cfgFile readable =
     (if cfgFile = '''' then [AddConfigPath ''.'', SetConfigName ''config''] else [SetConfigFile cfgFile]) @
     [AutomaticEnv, ReadInConfig] @ (if readable then [PrintUsing] else [])"

text \<open>What viper answers for a key, by the type asked for.\<close>

record viper =
  GetString :: "string \<Rightarrow> string"
  GetInt :: "string \<Rightarrow> int"
  GetBool :: "string \<Rightarrow> bool"
  GetDuration :: "string \<Rightarrow> int"

definition runServer_options :: "viper \<Rightarrow> ServerOptions" where
  "runServer_options v =
     (let addr = GetString v ''server.network'' @ ''://'' @ GetString v ''server.host'' @ '':'' @ itoa_int (GetInt v ''server.port'')
      in \<lparr>Multicore = GetBool v ''server.multicore'', NumWorkers = GetInt v ''server.numWorkers'', Listener = addr,
          LockThread = GetBool v ''server.lockThread'', IdleTimeout = GetDuration v ''server.idleTimeout''\<rparr>)"

text \<open>
  \<open>runServer\<close>: the operations on the library, given how setting up the reactor ends and which arrivals the
  signal loop picks. Deferred is the close of the shared protocol handler, which \<open>sync.Once\<close> lets happen
  once per process (\<open>closed\<close>: it has happened before).
\<close>

datatype server_op =
    OpRequireHello bool | OpNewReactor ServerOptions | OpGoRun | OpStartBroadcast | OpStopBroadcast | OpAwaitBroadcast
  | OpShutdownGracefully | OpReload | OpCloseProtocol

datatype 'e run_end = Returned | Failed 'e | Panicked 'e | Waiting

definition shutdown_callback :: "callback \<Rightarrow> server_op" where
  "shutdown_callback cb = (case cb of CallShutdown s \<Rightarrow> OpShutdownGracefully | CallReload \<Rightarrow> OpReload)"

definition runServer ::
  "viper \<Rightarrow> bool \<Rightarrow> (ServerOptions \<Rightarrow> 'e setup_err + Reactor) \<Rightarrow> arrival list \<Rightarrow> server_op list \<times> 'e setup_err run_end" where
  "runServer v closed newReactor arrivals =
     (let opts = runServer_options v;
          setup = [OpRequireHello (GetBool v ''server.strictHello''), OpNewReactor opts];
          deferred = (if closed then [] else [OpCloseProtocol])
      in case newReactor opts of
           Inl err \<Rightarrow> (setup @ deferred, Panicked err)
         | Inr r \<Rightarrow>
             (let (cbs, ret) = Wait (NewGraceful True False) arrivals
              in (setup @ [OpGoRun] @ map shutdown_callback cbs @ (if ret then deferred else []),
                  if ret then Returned else Waiting)))"

text \<open>
  \<open>runServer\<close> and \<open>main\<close> of the echo server: the exit code is 1 when the reactor cannot be set up.
\<close>

definition echo_options :: "string \<Rightarrow> int \<Rightarrow> ServerOptions" where
  "echo_options addr idle =
     \<lparr>Multicore = False, NumWorkers = 0, Listener = ''tcp://'' @ addr, LockThread = False, IdleTimeout = idle\<rparr>"

definition echo_runServer ::
  "string \<Rightarrow> int \<Rightarrow> int \<Rightarrow> (ServerOptions \<Rightarrow> 'e setup_err + Reactor) \<Rightarrow> bool \<Rightarrow> server_op list \<times> 'e setup_err run_end" where
  "echo_runServer addr broadcastEvery idle newReactor signalled =
     (case newReactor (echo_options addr idle) of
        Inl err \<Rightarrow> ([OpNewReactor (echo_options addr idle)], Failed err)
      | Inr r \<Rightarrow>
          (let start = [OpNewReactor (echo_options addr idle), OpGoRun] @ (if broadcastEvery > 0 then [OpStartBroadcast] else [])
           in if signalled then (start @ [OpStopBroadcast, OpAwaitBroadcast, OpShutdownGracefully], Returned)
              else (start, Waiting)))"

definition echo_main :: "'e run_end \<Rightarrow> nat option" where
  "echo_main r = (case r of Failed err \<Rightarrow> Some 1 | Returned \<Rightarrow> Some 0 | Panicked err \<Rightarrow> Some 2 | Waiting \<Rightarrow> None)"

text \<open>
  Every key \<open>runServer\<close> reads is bound to a flag that \<open>init\<close> registered, so \<open>BindPFlag\<close> never gets a nil flag
  and a value exists for each key; the options depend on nothing else.
\<close>

lemma flags_bound:
  "distinct (map fst server_flags) \<and> distinct (map fst bindFlags) \<and>
   list_all (\<lambda>(k, f). map_of server_flags f \<noteq> None) bindFlags"
  by code_simp

definition agree :: "viper \<Rightarrow> viper \<Rightarrow> bool" where
  "agree v w \<longleftrightarrow> (\<forall>k \<in> fst ` set bindFlags. GetString v k = GetString w k \<and> GetInt v k = GetInt w k \<and>
     GetBool v k = GetBool w k \<and> GetDuration v k = GetDuration w k)"

lemma runServer_cong: "agree v w \<Longrightarrow> runServer v = runServer w"
  by (simp add: fun_eq_iff agree_def bindFlags_def runServer_options_def runServer_def)

text \<open>With the default \<open>multicore\<close> the number of workers asked for is ignored, smaller numbers included.\<close>

lemma multicore_ignores_workers:
  "GetBool v ''server.multicore'' \<Longrightarrow> NumWorkers (normalise_workers ncpu (runServer_options v)) = int ncpu"
  by (simp add: normalise_workers_def runServer_options_def Let_def)

text \<open>
  Once the reactor is up, a run that returns after a signal has shut the reactor down exactly once, and
  the protocol handler is closed after that; a run whose reactor cannot be set up panics, with the
  handler closed as well.
\<close>

lemma Wait_callbacks:
  "fst (Wait (NewGraceful True False) as) \<in> insert [] (range (\<lambda>s. [CallShutdown s]))"
  by (induction "NewGraceful True False" as rule: Wait.induct)
    (auto simp: stopBySignal_def reload_def NewGraceful_def split: prod.splits)

lemma runServer_shuts_down:
  assumes "runServer v False newReactor as = (ops, fin)" and "fin \<noteq> Waiting"
  shows "last ops = OpCloseProtocol" and "count_list ops OpCloseProtocol = 1"
    and "OpShutdownGracefully \<in> set ops \<Longrightarrow> fin = Returned \<and> count_list ops OpShutdownGracefully = 1"
  using assms Wait_callbacks [of as]
  by (auto simp: runServer_def Let_def shutdown_callback_def split: sum.splits prod.splits if_splits)

lemma echo_runServer_order:
  assumes "echo_runServer addr every idle newReactor True = (ops, Returned)"
  shows "\<exists>start. ops = start @ [OpStopBroadcast, OpAwaitBroadcast, OpShutdownGracefully] \<and> OpGoRun \<in> set start"
  using assms by (auto simp: echo_runServer_def Let_def split: sum.splits if_splits)

end
