(* ===== verification/Http_Service.thy ===== *)
theory Http_Service
  imports Json_Std
begin

text \<open>
  The key-value service of \<open>http-service\<close>: the store interface with its in-memory implementation, the
  service that validates keys and values, and the HTTP handlers that map its errors to status codes.
  The store interface is a locale; the history of a service over any store that keeps its contract is
  proved there, and the in-memory store interprets it. Routing by \<open>http.ServeMux\<close> is done by the
  library: a request here is the route it matched.
\<close>

section \<open>The store\<close>

record 's Store =
  st_Get :: "'s \<Rightarrow> string \<Rightarrow> string option"
  st_Put :: "'s \<Rightarrow> string \<Rightarrow> string \<Rightarrow> (string + bool) \<times> 's"
  st_Delete :: "'s \<Rightarrow> string \<Rightarrow> bool \<times> 's"

type_synonym items = "(string, string) gomap"

definition NewMemoryStore :: items where
  "NewMemoryStore = []"

definition MemoryStore_Get :: "items \<Rightarrow> string \<Rightarrow> string option" where
  "MemoryStore_Get m key = map_of m key"

definition MemoryStore_Put :: "items \<Rightarrow> string \<Rightarrow> string \<Rightarrow> (string + bool) \<times> items" where
  "MemoryStore_Put m key v = (let exists = (map_of m key \<noteq> None) in (Inr (\<not> exists), gput key v m))"

definition MemoryStore_Delete :: "items \<Rightarrow> string \<Rightarrow> bool \<times> items" where
  "MemoryStore_Delete m key = (if map_of m key = None then (False, m) else (True, gdel key m))"

definition MemoryStore :: "items Store" where
  "MemoryStore = \<lparr>st_Get = MemoryStore_Get, st_Put = MemoryStore_Put, st_Delete = MemoryStore_Delete\<rparr>"

section \<open>The service\<close>

datatype svc_err =
    ErrNotFound | ErrKeyInvalid | ErrValueInvalid | ErrValueTooLarge
  | ErrReadBody io_error | ErrStore string

definition maxKeyLen :: nat where "maxKeyLen = 128"
definition defaultMaxValueBytes :: int64 where "defaultMaxValueBytes = 1048576"

definition validKey :: "string \<Rightarrow> bool" where
  "validKey key \<longleftrightarrow> length key \<noteq> 0 \<and> length key \<le> maxKeyLen \<and>
     list_all (\<lambda>c. 33 \<le> code c \<and> code c \<le> 126) key"

text \<open>
  \<open>io.ReadAll(io.LimitReader(body, n))\<close>: nothing for a limit that is not positive, at most \<open>n\<close> bytes, and
  the body's error when it ends before them with another error than EOF.
\<close>

definition ReadAll_limited :: "reader \<Rightarrow> int64 \<Rightarrow> io_error + string" where
  "ReadAll_limited body n =
     (if sint n \<le> 0 then Inr []
      else if nat (sint n) \<le> length (rd_data body) then Inr (string_of (take (nat (sint n)) (rd_data body)))
      else if rd_end body = EOF then Inr (string_of (rd_data body))
      else Inl (rd_end body))"

definition json_Valid :: "string \<Rightarrow> bool" where
  "json_Valid raw \<longleftrightarrow> parse_json raw \<noteq> None"

definition Service_Get :: "'s Store \<Rightarrow> string \<Rightarrow> 's \<Rightarrow> svc_err + string" where
  "Service_Get st key s =
     (if \<not> validKey key then Inl ErrKeyInvalid
      else case st_Get st s key of None \<Rightarrow> Inl ErrNotFound | Some v \<Rightarrow> Inr v)"

text \<open>The limit \<open>maxValue + 1\<close> wraps around as an \<open>int64\<close>.\<close>

definition Service_Put :: "'s Store \<Rightarrow> int64 \<Rightarrow> string \<Rightarrow> reader \<Rightarrow> 's \<Rightarrow> (svc_err + bool) \<times> 's" where
  "Service_Put st maxValue key body s =
     (if \<not> validKey key then (Inl ErrKeyInvalid, s)
      else case ReadAll_limited body (maxValue + 1) of
             Inl e \<Rightarrow> (Inl (ErrReadBody e), s)
           | Inr raw \<Rightarrow>
               (if int (length raw) > sint maxValue then (Inl ErrValueTooLarge, s)
                else if \<not> json_Valid raw then (Inl ErrValueInvalid, s)
                else case st_Put st s key raw of
                       (Inl e, s') \<Rightarrow> (Inl (ErrStore e), s')
                     | (Inr created, s') \<Rightarrow> (Inr created, s')))"

definition Service_Delete :: "'s Store \<Rightarrow> string \<Rightarrow> 's \<Rightarrow> (svc_err + bool) \<times> 's" where
  "Service_Delete st key s =
     (if \<not> validKey key then (Inl ErrKeyInvalid, s) else apfst Inr (st_Delete st s key))"

section \<open>The handlers\<close>

record response =
  status :: nat
  contentType :: "string option"
  body_text :: string

definition writeJSON :: "nat \<Rightarrow> string \<Rightarrow> string \<Rightarrow> response" where
  "writeJSON c k v =
     \<lparr>status = c, contentType = Some ''application/json'',
      body_text = ''{'' @ marshal_string k @ '':'' @ marshal_string v @ ''}'' @ [CHR 0x0A]\<rparr>"

definition error_code :: "svc_err \<Rightarrow> nat" where
  "error_code err =
     (case err of
        ErrNotFound \<Rightarrow> 404 | ErrKeyInvalid \<Rightarrow> 400 | ErrValueInvalid \<Rightarrow> 400 | ErrValueTooLarge \<Rightarrow> 413 | _ \<Rightarrow> 500)"

definition error_text :: "svc_err \<Rightarrow> string" where
  "error_text err =
     (case err of
        ErrNotFound \<Rightarrow> ''key not found''
      | ErrKeyInvalid \<Rightarrow> ''key must be 1-128 printable non-space ASCII bytes''
      | ErrValueInvalid \<Rightarrow> ''body must be exactly one valid JSON value''
      | ErrValueTooLarge \<Rightarrow> ''value exceeds the configured size limit''
      | _ \<Rightarrow> ''internal error'')"

definition writeError :: "svc_err \<Rightarrow> response" where
  "writeError err = writeJSON (error_code err) ''error'' (error_text err)"

definition health :: response where
  "health = writeJSON 200 ''status'' ''ok''"

definition handle_get :: "'s Store \<Rightarrow> string \<Rightarrow> 's \<Rightarrow> response" where
  "handle_get st key s =
     (case Service_Get st key s of
        Inl err \<Rightarrow> writeError err
      | Inr v \<Rightarrow> \<lparr>status = 200, contentType = Some ''application/json'', body_text = v\<rparr>)"

definition handle_put :: "'s Store \<Rightarrow> int64 \<Rightarrow> string \<Rightarrow> reader \<Rightarrow> 's \<Rightarrow> response \<times> 's" where
  "handle_put st maxValue key body s =
     (case Service_Put st maxValue key body s of
        (Inl err, s') \<Rightarrow> (writeError err, s')
      | (Inr created, s') \<Rightarrow> (writeJSON (if created then 201 else 200) ''status'' ''stored'', s'))"

definition handle_delete :: "'s Store \<Rightarrow> string \<Rightarrow> 's \<Rightarrow> response \<times> 's" where
  "handle_delete st key s =
     (case Service_Delete st key s of
        (Inl err, s') \<Rightarrow> (writeError err, s')
      | (Inr deleted, s') \<Rightarrow>
          (if \<not> deleted then (writeError ErrNotFound, s')
           else (\<lparr>status = 204, contentType = None, body_text = []\<rparr>, s')))"

datatype request = GetHealthz | GetKey string | PutKey string reader | DeleteKey string

definition newHandler :: "'s Store \<Rightarrow> int64 \<Rightarrow> request \<Rightarrow> 's \<Rightarrow> response \<times> 's" where
  "newHandler st maxValue r s =
     (case r of
        GetHealthz \<Rightarrow> (health, s)
      | GetKey k \<Rightarrow> (handle_get st k s, s)
      | PutKey k b \<Rightarrow> handle_put st maxValue k b s
      | DeleteKey k \<Rightarrow> handle_delete st k s)"

fun serve_all :: "'s Store \<Rightarrow> int64 \<Rightarrow> request list \<Rightarrow> 's \<Rightarrow> (request \<times> response) list \<times> 's" where
  "serve_all st maxValue [] s = ([], s)"
| "serve_all st maxValue (r # rs) s =
     (let (resp, s1) = newHandler st maxValue r s; (h, s2) = serve_all st maxValue rs s1
      in ((r, resp) # h, s2))"

section \<open>What a client can tell\<close>

text \<open>
  The contents the history of requests and responses promises: a \<open>PUT\<close> answered with success stored
  its whole body, a \<open>DELETE\<close> answered with success removed the key, and nothing else changes anything.
\<close>

definition observe :: "request \<times> response \<Rightarrow> (string \<Rightarrow> string option) \<Rightarrow> string \<Rightarrow> string option" where
  "observe x m =
     (case x of
        (PutKey k b, resp) \<Rightarrow> if status resp \<in> {200, 201} then m(k \<mapsto> string_of (rd_data b)) else m
      | (DeleteKey k, resp) \<Rightarrow> if status resp = 204 then m(k := None) else m
      | _ \<Rightarrow> m)"

definition promised :: "(request \<times> response) list \<Rightarrow> string \<Rightarrow> string option" where
  "promised h = fold observe h (\<lambda>_. None)"

text \<open>The entries the service admits, and the answer a request gets when the store holds \<open>m\<close>.\<close>

definition entry_ok :: "int64 \<Rightarrow> string \<Rightarrow> string \<Rightarrow> bool" where
  "entry_ok maxValue k v \<longleftrightarrow> validKey k \<and> json_Valid v \<and> int (length v) \<le> sint maxValue"

lemma error_code_not_ok [simp]: "error_code e \<noteq> 200" "error_code e \<noteq> 201" "error_code e \<noteq> 204"
  by (cases e; simp add: error_code_def)+

lemma status_simps [simp]: "status (writeJSON n k v) = n" "status (writeError e) = error_code e"
  by (simp_all add: writeJSON_def writeError_def)

text \<open>A body that passes the size check was read completely: no value is stored truncated.\<close>

lemma sint_succ: "0 \<le> sint (w :: int64) \<Longrightarrow> 0 < sint (w + 1) \<Longrightarrow> sint (w + 1) = sint w + 1"
proof -
  assume a: "0 \<le> sint w" "0 < sint (w + 1)"
  have b: "sint w < 2 ^ 63" using sint_lt [of w] by simp
  have e: "sint (w + 1) = signed_take_bit 63 (sint w + 1)"
    using sint_word_ariths(1) [of w 1] by simp
  show "sint (w + 1) = sint w + 1"
  proof (cases "sint w + 1 = 2 ^ 63")
    case True
    then have "signed_take_bit 63 (sint w + 1) = (signed_take_bit 63 (2 ^ 63 :: int))" by simp
    also have "\<dots> = - (2 ^ 63)" by simp
    finally show ?thesis using a e by simp
  next
    case False
    with a b show ?thesis unfolding e by (intro signed_take_bit_int_eq_self) auto
  qed
qed

lemma read_complete:
  assumes "ReadAll_limited body (maxValue + 1) = Inr raw" and "int (length raw) \<le> sint maxValue" and "raw \<noteq> []"
  shows "raw = string_of (rd_data body) \<and> rd_end body = EOF"
proof -
  have pos: "0 < sint (maxValue + 1)" using assms(1,3) by (auto simp: ReadAll_limited_def split: if_splits)
  moreover have "0 \<le> sint maxValue" using assms(2) by linarith
  ultimately have "sint (maxValue + 1) = sint maxValue + 1" by (rule sint_succ [rotated])
  with assms pos show ?thesis
    by (auto simp: ReadAll_limited_def split: if_splits)
qed

lemma json_Valid_Nil [simp]: "\<not> json_Valid []"
  by (simp add: json_Valid_def) code_simp

section \<open>The store interface\<close>

text \<open>
  What the service relies on: \<open>Get\<close> reads the contents, \<open>Put\<close> either fails and changes nothing or stores
  the value and tells whether the key is new, \<open>Delete\<close> removes the key and tells whether it was there.
\<close>

locale kv_reader =
  fixes st :: "'s Store"
    and contents :: "'s \<Rightarrow> string \<Rightarrow> string option"
    and ok :: "'s \<Rightarrow> bool"
  assumes get: "ok s \<Longrightarrow> st_Get st s k = contents s k"
begin

lemma get_answer:
  "ok s \<Longrightarrow> handle_get st k s =
    (if \<not> validKey k then writeError ErrKeyInvalid
     else case contents s k of
            None \<Rightarrow> writeError ErrNotFound
          | Some v \<Rightarrow> \<lparr>status = 200, contentType = Some ''application/json'', body_text = v\<rparr>)"
  by (simp add: handle_get_def Service_Get_def get split: option.splits)

end

locale kv_store = kv_reader st contents ok
  for st :: "'s Store" and contents :: "'s \<Rightarrow> string \<Rightarrow> string option" and ok :: "'s \<Rightarrow> bool" +
  assumes put: "ok s \<Longrightarrow> st_Put st s k v = (res, s') \<Longrightarrow> ok s' \<and>
      (case res of Inl e \<Rightarrow> contents s' = contents s
       | Inr created \<Rightarrow> contents s' = (contents s)(k \<mapsto> v) \<and> created = (contents s k = None))"
    and del: "ok s \<Longrightarrow> st_Delete st s k = (d, s') \<Longrightarrow>
      ok s' \<and> contents s' = (contents s)(k := None) \<and> d = (contents s k \<noteq> None)"
begin

definition typed :: "int64 \<Rightarrow> 's \<Rightarrow> bool" where
  "typed maxValue s \<longleftrightarrow> (\<forall>k v. contents s k = Some v \<longrightarrow> entry_ok maxValue k v)"

lemma put_failed: "ok s \<Longrightarrow> st_Put st s k v = (Inl e, s') \<Longrightarrow> ok s' \<and> contents s' = contents s"
  using put [of s k v "Inl e" s'] by simp

lemma put_step:
  assumes "ok s" and "handle_put st maxValue k b s = (resp, s')" and "typed maxValue s"
  shows "ok s' \<and> contents s' = observe (PutKey k b, resp) (contents s) \<and> typed maxValue s'"
proof (cases "Service_Put st maxValue k b s")
  case (Pair res s1)
  have s1: "s1 = s'" using assms(2) Pair by (auto simp: handle_put_def split: sum.splits)
  show ?thesis
  proof (cases res)
    case (Inl err)
    then have "resp = writeError err" using assms(2) Pair by (simp add: handle_put_def)
    moreover have "ok s' \<and> contents s' = contents s"
      using Pair Inl assms(1)
      by (auto simp: Service_Put_def s1 dest: put_failed split: if_splits sum.splits prod.splits)
    ultimately show ?thesis using assms(3) by (simp add: observe_def typed_def)
  next
    case (Inr created)
    then have resp: "status resp \<in> {200, 201}" using assms(2) Pair by (auto simp: handle_put_def)
    from Inr Pair obtain raw where raw: "validKey k" "ReadAll_limited b (maxValue + 1) = Inr raw"
      "int (length raw) \<le> sint maxValue" "json_Valid raw" "st_Put st s k raw = (Inr created, s')"
      by (auto simp: Service_Put_def s1 split: if_splits sum.splits prod.splits)
    then have "raw = string_of (rd_data b)" using read_complete [of b maxValue raw] by force
    with put [OF assms(1) raw(5)] raw resp assms(3) show ?thesis
      by (auto simp: observe_def typed_def entry_ok_def)
  qed
qed

lemma delete_step:
  assumes "ok s" and "handle_delete st k s = (resp, s')" and "typed maxValue s"
  shows "ok s' \<and> contents s' = observe (DeleteKey k, resp) (contents s) \<and> typed maxValue s'"
proof (cases "st_Delete st s k")
  case (Pair d s1)
  note d = del [OF assms(1) Pair]
  show ?thesis
  proof (cases "validKey k \<and> d")
    case True
    then have "resp = \<lparr>status = 204, contentType = None, body_text = []\<rparr>" "s' = s1"
      using assms(2) Pair by (simp_all add: handle_delete_def Service_Delete_def)
    with d assms(3) show ?thesis by (simp add: observe_def typed_def)
  next
    case False
    then have "status resp \<noteq> 204" "s' = s \<or> s' = s1 \<and> \<not> d"
      using assms(2) Pair by (auto simp: handle_delete_def Service_Delete_def split: if_splits)
    moreover have "\<not> d \<Longrightarrow> contents s1 = contents s" using d by (simp add: fun_upd_idem)
    ultimately have "ok s' \<and> contents s' = contents s" using d assms(1) by metis
    with \<open>status resp \<noteq> 204\<close> assms(3) show ?thesis by (simp add: observe_def typed_def)
  qed
qed

lemma step:
  assumes "ok s" and "newHandler st maxValue r s = (resp, s')" and "typed maxValue s"
  shows "ok s' \<and> contents s' = observe (r, resp) (contents s) \<and> typed maxValue s'"
proof (cases r)
  case (PutKey k b)
  then have "handle_put st maxValue k b s = (resp, s')" using assms(2) by (simp add: newHandler_def)
  from put_step [OF assms(1) this assms(3)] PutKey show ?thesis by simp
next
  case (DeleteKey k)
  then have "handle_delete st k s = (resp, s')" using assms(2) by (simp add: newHandler_def)
  from delete_step [OF assms(1) this assms(3)] DeleteKey show ?thesis by simp
qed (use assms in \<open>auto simp: newHandler_def observe_def\<close>)

lemma history:
  "ok s \<Longrightarrow> serve_all st maxValue rs s = (h, s') \<Longrightarrow> typed maxValue s \<Longrightarrow>
    ok s' \<and> contents s' = fold observe h (contents s) \<and> typed maxValue s'"
proof (induction rs arbitrary: s h)
  case (Cons r rs)
  obtain resp s1 where r: "newHandler st maxValue r s = (resp, s1)" by (cases "newHandler st maxValue r s")
  obtain h1 where h: "serve_all st maxValue rs s1 = (h1, s')" "h = (r, resp) # h1"
    using Cons.prems(2) r by (auto split: prod.splits)
  show ?case using Cons.IH [OF _ h(1)] step [OF Cons.prems(1) r Cons.prems(3)] h(2) by simp
qed simp

end

interpretation mem: kv_store MemoryStore map_of gomap_ok
  by unfold_locales
    (auto simp: MemoryStore_def MemoryStore_Get_def MemoryStore_Put_def MemoryStore_Delete_def Let_def fun_upd_idem
      split: if_splits)

text \<open>
  C30. The contract of the service over the in-memory store. After any sequence of requests the store
  holds exactly what the responses promised: a value is there if and only if its \<open>PUT\<close> was answered
  with success and no successful \<open>DELETE\<close> followed, and it is the whole body, byte for byte. Every
  entry has a valid key and is one JSON value within the size limit, whatever the limit. A \<open>GET\<close>
  answers with that value, or with 404, or with 400 for an invalid key.
\<close>

theorem kv_history:
  "case serve_all MemoryStore maxValue rs NewMemoryStore of (h, m) \<Rightarrow>
     map_of m = promised h \<and> (\<forall>k v. map_of m k = Some v \<longrightarrow> entry_ok maxValue k v) \<and>
     (\<forall>k. handle_get MemoryStore k m =
        (if \<not> validKey k then writeError ErrKeyInvalid
         else case promised h k of
                None \<Rightarrow> writeError ErrNotFound
              | Some v \<Rightarrow> \<lparr>status = 200, contentType = Some ''application/json'', body_text = v\<rparr>))"
proof (cases "serve_all MemoryStore maxValue rs NewMemoryStore")
  case (Pair h m)
  have "map_of NewMemoryStore = (\<lambda>_. None)" "gomap_ok NewMemoryStore" by (simp_all add: NewMemoryStore_def fun_eq_iff)
  moreover have "mem.typed maxValue NewMemoryStore" by (simp add: mem.typed_def NewMemoryStore_def)
  ultimately have "gomap_ok m" "map_of m = promised h" "mem.typed maxValue m"
    using mem.history [OF _ Pair] by (simp_all add: promised_def)
  with Pair show ?thesis by (simp add: mem.typed_def mem.get_answer)
qed

theorem kv_history_witness:
  "(\<exists>h m. serve_all MemoryStore 64 [PutKey ''a'' \<lparr>rd_data = bytes_of ''42'', rd_end = EOF\<rparr>] NewMemoryStore = (h, m) \<and>
     map_of m ''a'' = Some ''42'' \<and> entry_ok 64 ''a'' ''42'' \<and>
     handle_get MemoryStore ''a'' m = \<lparr>status = 200, contentType = Some ''application/json'', body_text = ''42''\<rparr>)"
proof -
  let ?rs = "[PutKey ''a'' \<lparr>rd_data = bytes_of ''42'', rd_end = EOF\<rparr>]"
  obtain h m where hm: "serve_all MemoryStore 64 ?rs NewMemoryStore = (h, m)" by (meson surj_pair)
  have "map_of (snd (serve_all MemoryStore 64 ?rs NewMemoryStore)) ''a'' = Some ''42''" by code_simp
  then have "map_of m ''a'' = Some ''42''" unfolding hm by simp
  moreover have "validKey ''a''" by code_simp
  ultimately show ?thesis
    using kv_history [of 64 ?rs] hm by (intro exI [of _ h] exI [of _ m]) auto
qed

text \<open>With the largest limit the read limit wraps around to a negative number and every \<open>PUT\<close> is refused.\<close>

lemma largest_limit_refuses:
  "validKey k \<Longrightarrow> Service_Put st 9223372036854775807 k b s = (Inl ErrValueInvalid, s)"
  by (simp add: Service_Put_def ReadAll_limited_def)

section \<open>The program\<close>

text \<open>
  \<open>run\<close>: the exit code, given whether the flags parse and which arm of the select ends the wait, the
  server's error or the signal with the outcome of \<open>Shutdown\<close>.
\<close>

datatype wait_end = ServerFailed | Signalled bool

definition http_run :: "bool \<Rightarrow> wait_end \<Rightarrow> nat" where
  "http_run flags_ok w =
     (if \<not> flags_ok then 2
      else case w of ServerFailed \<Rightarrow> 1 | Signalled shutdown_ok \<Rightarrow> if \<not> shutdown_ok then 1 else 0)"

end
