(* ===== verification/Programs.thy ===== *)
theory Programs
  imports Rpc_Client Http_Service
begin

text \<open>
  The command-line client of \<open>cmd/cli\<close>. A program is the operations it performs, in order, and its exit
  code, given the answers it gets.
\<close>

section \<open>The command-line client\<close>

record cli_flags =
  cf_action :: string
  cf_data :: string
  cf_topic :: string
  cf_watch :: int
  cf_keepalive :: int
  cf_hello :: bool
  cf_resilient :: bool

text \<open>\<open>coerceJSONPayload\<close>: valid JSON as it is, anything else as a string.\<close>

definition coerceJSONPayload :: "string \<Rightarrow> go_any" where
  "coerceJSONPayload data = (if json_Valid data then AnyRaw data else AnyString data)"

text \<open>The event sinks: a send that does not block, on a channel with room for \<open>cap\<close> frames.\<close>

definition acknowledgingEventSink :: "nat \<Rightarrow> 'f list \<Rightarrow> 'f \<Rightarrow> bool \<times> 'f list" where
  "acknowledgingEventSink cap ch frame = (if length ch < cap then (True, ch @ [frame]) else (False, ch))"

definition eventSink :: "nat \<Rightarrow> 'f list \<Rightarrow> 'f \<Rightarrow> 'f list" where
  "eventSink cap ch frame = (if length ch < cap then ch @ [frame] else ch)"

definition watchFor :: "cli_flags \<Rightarrow> int" where
  "watchFor fl = (if cf_topic fl \<noteq> '''' \<and> cf_watch fl = 0 then 3600 else cf_watch fl)"

text \<open>The answers the client gets (durations are in seconds), and the arms of the select of the watch loop.\<close>

datatype watch_event = GotFrame nat | TimerFired | GotSignal | ConnDone

record cli_env =
  ce_connect :: bool
  ce_hello :: bool
  ce_subscribe :: bool
  ce_call :: "bool option"
  ce_watch :: "watch_event list"

datatype cli_op =
    TrapSignals | Connect | Dial | StartKeepAlive | Handshake | SubscribeTo string | CallAction string go_any
  | PrintFrame nat | PrintResponse bool | StopKeepAlive | CloseGracefullyOp | CloseOp | UntrapSignals

text \<open>The watch loop; without a further event it is still waiting (\<open>None\<close>).\<close>

fun watch_loop :: "watch_event list \<Rightarrow> cli_op list \<times> nat option" where
  "watch_loop [] = ([], None)"
| "watch_loop (GotFrame f # es) = apfst ((#) (PrintFrame f)) (watch_loop es)"
| "watch_loop (TimerFired # es) = ([], Some 0)"
| "watch_loop (GotSignal # es) = ([], Some 0)"
| "watch_loop (ConnDone # es) = ([], Some 0)"

text \<open>The part of \<open>run\<close> after the connection is up, without its deferred calls.\<close>

definition cli_session :: "cli_flags \<Rightarrow> cli_env \<Rightarrow> cli_op list \<times> nat option" where
  "cli_session fl env =
     (let hello = \<not> cf_resilient fl \<and> cf_hello fl;
          ops = (if hello then [Handshake] else [])
      in if hello \<and> \<not> ce_hello env then (ops, Some 1)
         else let ops = ops @ (if cf_topic fl \<noteq> '''' then [SubscribeTo (cf_topic fl)] else [])
              in if cf_topic fl \<noteq> '''' \<and> \<not> ce_subscribe env then (ops, Some 1)
                 else let payload = (if cf_data fl \<noteq> '''' then coerceJSONPayload (cf_data fl) else AnyNil);
                          ops = ops @ (if cf_action fl \<noteq> '''' then [CallAction (cf_action fl) payload] else [])
                      in if cf_action fl \<noteq> '''' \<and> ce_call env = None then (ops, Some 1)
                         else let ops = ops @ (case ce_call env of
                                  Some r \<Rightarrow> if cf_action fl \<noteq> '''' then [PrintResponse r] else [] | None \<Rightarrow> [])
                              in if watchFor fl > 0 then apfst ((@) ops) (watch_loop (ce_watch env))
                                 else (ops, Some 0))"

text \<open>\<open>run\<close>, the deferred calls in the order they run when it returns.\<close>

definition cli_run :: "bool \<Rightarrow> cli_flags \<Rightarrow> cli_env \<Rightarrow> cli_op list \<times> nat option" where
  "cli_run flags_ok fl env =
     (if \<not> flags_ok then ([], Some 2)
      else let trap = (if watchFor fl > 0 then [TrapSignals] else []);
               untrap = (if watchFor fl > 0 then [UntrapSignals] else []);
               keep = \<not> cf_resilient fl \<and> cf_keepalive fl > 0;
               dial = [if cf_resilient fl then Connect else Dial]
           in if \<not> ce_connect env then (trap @ dial @ untrap, Some 1)
              else (case cli_session fl env of
                      (ops, None) \<Rightarrow> (trap @ dial @ (if keep then [StartKeepAlive] else []) @ ops, None)
                    | (ops, Some ec) \<Rightarrow>
                        (trap @ dial @ (if keep then [StartKeepAlive] else []) @ ops @
                         (if keep then [StopKeepAlive] else []) @ [CloseGracefullyOp, CloseOp] @ untrap, Some ec)))"

lemma watch_loop_ops: "set (fst (watch_loop es)) \<subseteq> range PrintFrame \<and> snd (watch_loop es) \<in> {None, Some 0}"
  by (induction es rule: watch_loop.induct) (auto simp: apfst_def map_prod_def split: prod.splits)

lemma cli_session_ops:
  "CloseOp \<notin> set (fst (cli_session fl env)) \<and> CloseGracefullyOp \<notin> set (fst (cli_session fl env)) \<and>
   snd (cli_session fl env) \<in> {None, Some 0, Some 1}"
  using watch_loop_ops [of "ce_watch env"]
  by (auto simp: cli_session_def Let_def apfst_def map_prod_def split: option.splits prod.splits)

text \<open>
  Whatever happens after the connection is up, a run that ends says goodbye and closes the connection,
  once each and in this order; a run that never connected does neither. The exit code is 0, 1 or 2.
\<close>

lemma cli_says_goodbye:
  assumes "cli_run flags_ok fl env = (ops, Some ec)"
  shows "filter (\<lambda>x. x \<in> {CloseGracefullyOp, CloseOp}) ops =
      (if flags_ok \<and> ce_connect env then [CloseGracefullyOp, CloseOp] else []) \<and> ec \<le> 2"
proof (cases "cli_session fl env")
  case (Pair os res)
  have "filter (\<lambda>x. x \<in> {CloseGracefullyOp, CloseOp}) os = []"
    using cli_session_ops [of fl env] Pair by (auto simp: filter_empty_conv)
  then show ?thesis
    using assms cli_session_ops [of fl env] Pair
    by (auto simp: cli_run_def Let_def split: if_splits option.splits)
qed

text \<open>What the client sends as data is always marshalled, as the raw text or as a string.\<close>

lemma coerceJSONPayload_encodes: "\<exists>f. EncodeJSON t i a (coerceJSONPayload d) = Some f"
  by (simp add: coerceJSONPayload_def EncodeJSON_def Let_def)

lemma coerceJSONPayload_Marshal: "json_Marshal (coerceJSONPayload d) \<noteq> None"
  by (simp add: coerceJSONPayload_def json_Marshal_def json_Valid_def)

end
