(* ===== verification/Load_Generator.thy ===== *)
theory Load_Generator
  imports Server_Programs Rpc_Roundtrip Programs
begin

text \<open>
  The load generator of \<open>examples/concurrent-client\<close>: its payloads, the run of one client with what it
  checks of every answer, the collection of the results and of the pushes, and the summary. The
  section at the end puts it against the handler of the echo server, through the client library and the
  protocol.
\<close>

section \<open>The load generator\<close>

definition bigPayload :: "nat \<Rightarrow> string" where
  "bigPayload sz =
     (if sz < 16 then replicate sz (CHR ''x'')
      else let head = ''HEAD:''; tail = '':TAIL'';
               body = concat (replicate (sz div 16) ''0123456789abcdef'')
           in take (sz - length tail) (head @ body @ tail) @ tail)"

text \<open>The slice is in range and the payload has exactly the size asked for, with both sentinels.\<close>

lemma bigPayload_exact:
  "length (bigPayload sz) = sz"
  "16 \<le> sz \<Longrightarrow> sz - 5 \<le> length (''HEAD:'' @ concat (replicate (sz div 16) ''0123456789abcdef'') @ '':TAIL'')"
  "16 \<le> sz \<Longrightarrow> take 5 (bigPayload sz) = ''HEAD:'' \<and> drop (sz - 5) (bigPayload sz) = '':TAIL''"
proof -
  have l: "length (concat (replicate n ''0123456789abcdef'')) = 16 * n" for n by (induction n) auto
  show s: "sz - 5 \<le> length (''HEAD:'' @ concat (replicate (sz div 16) ''0123456789abcdef'') @ '':TAIL'')" if "16 \<le> sz"
    using that l [of "sz div 16"] by simp
  then show "length (bigPayload sz) = sz" by (auto simp: bigPayload_def Let_def)
  show "take 5 (bigPayload sz) = ''HEAD:'' \<and> drop (sz - 5) (bigPayload sz) = '':TAIL''" if sz: "16 \<le> sz"
  proof -
    define X where "X = concat (replicate (sz div 16) ''0123456789abcdef'') @ '':TAIL''"
    define P where "P = take (sz - 5) (''HEAD:'' @ X)"
    have five: "length '':TAIL'' = 5" by simp
    have "bigPayload sz = P @ '':TAIL''"
      unfolding bigPayload_def Let_def P_def X_def five using sz by (intro if_not_P) simp
    moreover have "length P = sz - 5" using s [OF sz] by (simp add: P_def X_def)
    moreover have "take 5 P = ''HEAD:''" using sz by (simp add: P_def)
    ultimately show ?thesis using sz by simp
  qed
qed

text \<open>What a call brings, as the program looks at it: a failed call, an error of the server, or the data.\<close>

datatype call_answer = CallFailed | AnswerError | Answer string

definition call_answer_of :: "Response \<Rightarrow> call_answer" where
  "call_answer_of r = (if Response_OK r then Answer (r_Data r) else AnswerError)"

record result =
  res_id :: nat
  res_requests :: nat
  res_ok :: nat
  res_latency :: int
  res_err :: bool

text \<open>Decoding the answer into the struct with the one field \<open>data\<close>.\<close>

fun data_step :: "string \<times> string \<times> json \<Rightarrow> string option \<Rightarrow> string option" where
  "data_step (key, raw, v) None = None"
| "data_step (key, raw, v) (Some d) =
     (case match_field [''data''] key of None \<Rightarrow> Some d | Some f \<Rightarrow> decode_string d v)"

definition decode_data :: "json \<Rightarrow> string option" where
  "decode_data v = (case v of JNull \<Rightarrow> Some [] | JObject ms \<Rightarrow> fold data_step ms (Some []) | _ \<Rightarrow> None)"

definition request_payload :: "nat \<Rightarrow> int \<Rightarrow> nat \<Rightarrow> string" where
  "request_payload cid payloadSize i =
     (if payloadSize > 0 then bigPayload (nat payloadSize)
      else ''hello from client '' @ itoa cid @ '', request '' @ itoa i)"

text \<open>The loop over the requests: what each answer was and how long it took are inputs.\<close>

fun client_requests ::
  "(nat \<Rightarrow> string) \<Rightarrow> (nat \<Rightarrow> call_answer) \<Rightarrow> (nat \<Rightarrow> int) \<Rightarrow> nat \<Rightarrow> nat \<Rightarrow> result \<Rightarrow> result" where
  "client_requests payload answer took i 0 res = res"
| "client_requests payload answer took i (Suc n) res =
     (let res = res\<lparr>res_latency := res_latency res + took i, res_requests := res_requests res + 1\<rparr>
      in case answer i of
           CallFailed \<Rightarrow> res\<lparr>res_err := True\<rparr>
         | AnswerError \<Rightarrow> res\<lparr>res_err := True\<rparr>
         | Answer d \<Rightarrow>
             (case unmarshal decode_data d of
                Inl e \<Rightarrow> res\<lparr>res_err := True\<rparr>
              | Inr x \<Rightarrow>
                  (if x \<noteq> payload i then res\<lparr>res_err := True\<rparr>
                   else client_requests payload answer took (Suc i) n (res\<lparr>res_ok := res_ok res + 1\<rparr>))))"

text \<open>
  \<open>runClient\<close>: the operations on the connection, deferred ones in the order they run, and the result. The
  first client also subscribes and keeps the connection alive.
\<close>

datatype client_op =
    ClDial | ClSubscribe string | ClKeepAlive int | ClCollect | ClCalls nat | ClStopKeepAlive | ClCloseGracefully

record client_env =
  ce_dial :: bool
  ce_subscribed :: bool
  ce_answer :: "nat \<Rightarrow> call_answer"
  ce_took :: "nat \<Rightarrow> int"

definition runClient :: "client_env \<Rightarrow> nat \<Rightarrow> int \<Rightarrow> int \<Rightarrow> int \<Rightarrow> client_op list \<times> result" where
  "runClient env cid requests subscribeFor payloadSize =
     (let res = \<lparr>res_id = cid, res_requests = 0, res_ok = 0, res_latency = 0, res_err = False\<rparr>;
          subs = (subscribeFor > 0 \<and> cid = 0)
      in if \<not> ce_dial env then ([ClDial], res\<lparr>res_err := True\<rparr>)
         else if subs \<and> \<not> ce_subscribed env
           then ([ClDial, ClSubscribe ''ticks'', ClCloseGracefully], res\<lparr>res_err := True\<rparr>)
         else (let res' = client_requests (request_payload cid payloadSize) (ce_answer env) (ce_took env) 0 (nat requests) res
               in ([ClDial] @ (if subs then [ClSubscribe ''ticks'', ClKeepAlive 15, ClCollect] else []) @
                   [ClCalls (res_requests res')] @ (if subs then [ClStopKeepAlive] else []) @ [ClCloseGracefully], res')))"

text \<open>
  \<open>runAll\<close>: one goroutine per client, the results in the order in which they reach the channel, which has
  room for all of them; a negative number of clients makes \<open>make\<close> panic.
\<close>

definition runAll ::
  "(result list \<Rightarrow> result list) \<Rightarrow> (nat \<Rightarrow> client_env) \<Rightarrow> int \<Rightarrow> int \<Rightarrow> int \<Rightarrow> int \<Rightarrow> result list option" where
  "runAll arrival envs numClients requests subscribeFor payloadSize =
     (if numClients < 0 then None
      else Some (arrival (map (\<lambda>cid. snd (runClient (envs cid) cid requests subscribeFor payloadSize)) [0..<nat numClients])))"

text \<open>\<open>summarize\<close>: who failed, the requests answered correctly, all requests, and the average latency.\<close>

definition go_div :: "int \<Rightarrow> int \<Rightarrow> int" where
  "go_div x n = (if x < 0 then - ((- x) div n) else x div n)"

definition summarize :: "result list \<Rightarrow> nat list \<times> nat \<times> nat \<times> int" where
  "summarize rs =
     (let total = sum_list (map res_requests rs)
      in (map res_id (filter res_err rs), sum_list (map res_ok rs), total,
          go_div (sum_list (map res_latency rs)) (int (max total 1))))"

text \<open>
  \<open>collectPushes\<close>: what it prints, and whether it has returned. Frames reach it through a channel with room
  for sixteen, filled by \<open>eventSink\<close>.
\<close>

datatype push_event = PushFrame Frame | PushDeadline

fun collectPushes :: "push_event list \<Rightarrow> (string \<times> string) list \<times> bool" where
  "collectPushes [] = ([], False)"
| "collectPushes (PushFrame f # es) =
     (let (out, ret) = collectPushes es
      in case DecodeJSONMessage (Some f) of Inl err \<Rightarrow> (out, ret) | Inr msg \<Rightarrow> ((Action msg, Data msg) # out, ret))"
| "collectPushes (PushDeadline # es) = ([], True)"

section \<open>What the load generator reports\<close>

text \<open>A client stops at its first failure: every request but possibly the last was answered correctly.\<close>

lemma client_requests_counts:
  "res_err res = False \<Longrightarrow>
    (let r = client_requests payload answer took i n res
     in res_requests r = res_ok r - res_ok res + res_requests res + (if res_err r then 1 else 0) \<and>
        res_ok res \<le> res_ok r \<and> (\<not> res_err r \<longrightarrow> res_ok r = res_ok res + n))"
proof (induction n arbitrary: i res)
  case (Suc n)
  let ?next = "res\<lparr>res_latency := res_latency res + took i, res_requests := res_requests res + 1, res_ok := res_ok res + 1\<rparr>"
  show ?case
    using Suc.IH [of ?next "Suc i"] Suc.prems
    by (auto simp: Let_def split: call_answer.splits sum.splits)
qed simp

text \<open>The scoreboard does not depend on the order in which the clients end.\<close>

lemma summarize_order:
  assumes "mset rs = mset rs'"
  shows "snd (summarize rs) = snd (summarize rs') \<and> mset (fst (summarize rs)) = mset (fst (summarize rs'))"
proof -
  have s: "sum_list (map f rs) = sum_list (map f rs')" for f :: "result \<Rightarrow> 'b :: comm_monoid_add"
    using assms by (metis mset_map sum_mset_sum_list)
  have "mset (map res_id (filter res_err rs)) = mset (map res_id (filter res_err rs'))"
    using assms by (simp add: mset_filter)
  then show ?thesis by (simp add: summarize_def Let_def s)
qed

text \<open>A connection that was opened is closed with a goodbye, last of all, whatever happens on it.\<close>

lemma runClient_says_goodbye:
  "ce_dial env \<longleftrightarrow> last (fst (runClient env cid requests subscribeFor payloadSize)) = ClCloseGracefully"
  by (auto simp: runClient_def Let_def)

lemma collectPushes_returns: "snd (collectPushes es) \<longleftrightarrow> PushDeadline \<in> set es"
  by (induction es rule: collectPushes.induct) (auto simp: Let_def split: prod.splits sum.splits)

section \<open>Against the echo server\<close>

text \<open>The payloads are plain ASCII, so they survive JSON unchanged.\<close>

lemma plain_append: "jsonPlainASCII (s @ t) \<longleftrightarrow> jsonPlainASCII s \<and> jsonPlainASCII t"
  by (simp add: jsonPlainASCII_def)

lemma plain_valid: "jsonPlainASCII s \<Longrightarrow> to_valid s = s"
  using unquote_quote_body [of s] by (simp add: plain_quote_body unquote_plain)

lemma plain_digit: "n < 10 \<Longrightarrow> jsonPlainASCII [char_of (48 + n :: nat)]"
proof -
  assume "n < 10"
  moreover have "list_all (\<lambda>n. jsonPlainASCII [char_of (48 + n :: nat)]) [0..<10]" by code_simp
  ultimately show ?thesis by (simp add: list_all_iff)
qed

lemma plain_itoa: "jsonPlainASCII (itoa n)"
proof (induction n rule: itoa.induct)
  case (1 n)
  show ?case
  proof (cases "n < 10")
    case True
    then show ?thesis using plain_digit by (simp add: itoa.simps [of n])
  next
    case False
    with 1 plain_digit [of "n mod 10"] show ?thesis by (simp add: itoa.simps [of n] plain_append)
  qed
qed

lemma plain_texts:
  "jsonPlainASCII ''hello from client ''" "jsonPlainASCII '', request ''" "jsonPlainASCII ''HEAD:''" "jsonPlainASCII '':TAIL''"
  "jsonPlainASCII ''0123456789abcdef''" "jsonPlainASCII ''x''" "jsonPlainASCII ''echo''"
  by code_simp+

lemma plain_bigPayload: "jsonPlainASCII (bigPayload sz)"
proof -
  have x: "jsonPlainASCII (replicate n (CHR ''x''))" for n
    using plain_texts(6) by (induction n) (simp_all add: jsonPlainASCII_def)
  have c: "jsonPlainASCII (concat (replicate n ''0123456789abcdef''))" for n
  proof (induction n)
    case (Suc n)
    then show ?case using plain_texts(5) plain_append [of "''0123456789abcdef''"] by simp
  qed (simp add: jsonPlainASCII_def)
  have t: "jsonPlainASCII (take n s)" if "jsonPlainASCII s" for n s
    using that by (auto simp: jsonPlainASCII_def list_all_iff dest: in_set_takeD)
  have "jsonPlainASCII (take n (''HEAD:'' @ concat (replicate (sz div 16) ''0123456789abcdef'') @ '':TAIL'') @ '':TAIL'')" for n
    by (simp only: plain_append plain_texts c simp_thms t)
  with x show ?thesis unfolding bigPayload_def Let_def by (simp only: if_split simp_thms)
qed

lemma plain_payload: "jsonPlainASCII (request_payload cid sz i)"
proof (cases "sz > 0")
  case True
  then show ?thesis by (simp add: request_payload_def plain_bigPayload)
next
  case False
  then have "request_payload cid sz i = ''hello from client '' @ itoa cid @ '', request '' @ itoa i" by (simp add: request_payload_def)
  then show ?thesis by (simp only: plain_append plain_texts plain_itoa simp_thms)
qed

text \<open>
  What a call of action \<open>echo\<close> brings from the echo server: the client's request frame, the server's answer
  to it, and what the client's read loop makes of that.
\<close>

definition echo_answer :: "(string \<Rightarrow> string) \<Rightarrow> string \<Rightarrow> uint32 \<Rightarrow> string \<Rightarrow> call_answer" where
  "echo_answer quoted now sid s =
     (case EncodeJSON REQUEST sid ''echo'' (AnyString s) of
        None \<Rightarrow> CallFailed
      | Some q \<Rightarrow>
          (case handleRequestFrame (handleDemo quoted now) q of
             [effect.CtxWrite (Some r)] \<Rightarrow> call_answer_of (response_of r)
           | _ \<Rightarrow> CallFailed))"

lemma parse_echo: "parse_json (env_text ''echo'' (marshal_string s)) =
    Some (JObject [(''action'', marshal_string ''echo'', JString (to_valid ''echo'')), (''data'', marshal_string s, JString (to_valid s))])"
  using parse_marshal_string [of "2 * length (marshal_string s)" 1 s "[]"]
  by (intro parse_env_text) (simp_all add: marshal_string_def del: parse_value.simps)

lemma json_text_echo: "json_text (env_text a (marshal_string s))"
proof -
  let ?ms = "[(''action'', marshal_string a, JString (to_valid a)), (''data'', marshal_string s, JString (to_valid s))]"
  have "parse_value (Suc 0) 2 (marshal_string s @ ''}'') = Some (JString (to_valid s), ''}'')"
    by (rule parse_marshal_string)
  from parse_member_data [OF this]
  have "parse_members 3 2 (json_key ''action'' @ marshal_string a @ CHR '','' # json_key ''data'' @ marshal_string s @ ''}'') =
      Some (?ms, [])"
    unfolding eval_nat_numeral by (subst parse_member_action(1)) simp
  then obtain rest where t: "env_text a (marshal_string s) = CHR ''{'' # quote # rest" "parse_members 3 2 (quote # rest) = Some (?ms, [])"
    by (simp add: env_text_def marshal_string_def [of s] del: parse_members.simps)
  have "parse_members (2 * length (CHR ''{'' # quote # rest)) 2 (quote # rest) = Some (?ms, [])"
    by (rule parse_enough(2) [OF _ t(2)]) simp
  then show ?thesis
    by (simp add: json_text_def t(1) maxNestingDepth_def eval_nat_numeral del: parse_members.simps)
qed

lemma echo_answer_data: "echo_answer quoted now sid s = Answer (env_text ''echo'' (marshal_string s))"
proof -
  let ?t = "env_text ''echo'' (marshal_string s)"
  have v: "valid_utf8 ''echo''" by code_simp
  have ne: "marshal_string s \<noteq> []" by (simp add: marshal_string_def)
  have q: "EncodeJSON REQUEST sid ''echo'' (AnyString s) = Some (newFrame REQUEST sid (bytes_of ?t))"
    by (simp add: EncodeJSON_eq data_text_def)
  have d: "DecodeJSONMessage (Some (newFrame REQUEST sid (bytes_of ?t))) = Inr \<lparr>Action = ''echo'', Data = marshal_string s\<rparr>"
    using decode_env_text [of "marshal_string s" REQUEST sid "''echo''"] v json_text_marshal_string by simp
  have h: "handleDemo quoted now ''echo'' (marshal_string s) = Inr (AnyOther (Some ?t))"
    using marshal_map_env [OF json_Marshal_marshal_string ne, of "''echo''"] by (simp add: handleDemo_def)
  have "json_Marshal (AnyOther (Some ?t)) = Some ?t" by (simp add: json_Marshal_def)
  with d h have r: "handleRequestFrame (handleDemo quoted now) (newFrame REQUEST sid (bytes_of ?t)) =
      [effect.CtxWrite (Some (newFrame RESPONSE sid (mustJSON ''echo'' ?t)))]"
    by (simp add: handleRequestFrame_def Let_def)
  have "json_text ?t" by (rule json_text_echo)
  moreover have "unmarshal decode_ErrorMessage ?t = Inr []"
    by (simp add: unmarshal_def parse_echo decode_ErrorMessage_def error_step_def match_field_def)
  ultimately have "response_of (newFrame RESPONSE sid (mustJSON ''echo'' ?t)) = \<lparr>r_Action = ''echo'', r_Data = ?t, r_Err = None\<rparr>"
    using response_of_mustJSON [of ?t "''echo''" RESPONSE sid] v by (simp add: env_text_def)
  with q r show ?thesis by (simp add: echo_answer_def call_answer_of_def Response_OK_def)
qed

lemma echo_data_decodes: "unmarshal decode_data (env_text ''echo'' (marshal_string s)) = Inr (to_valid s)"
  by (simp add: unmarshal_def parse_echo decode_data_def match_field_def)

lemma client_requests_all:
  assumes "\<And>i. \<exists>d. answer i = Answer d \<and> unmarshal decode_data d = Inr (payload i)"
  shows "client_requests payload answer took i n res =
    res\<lparr>res_requests := res_requests res + n, res_ok := res_ok res + n,
      res_latency := res_latency res + sum_list (map took [i..<i + n])\<rparr>"
proof (induction n arbitrary: i res)
  case (Suc n)
  obtain d where "answer i = Answer d" "unmarshal decode_data d = Inr (payload i)" using assms by blast
  moreover have "[i..<i + Suc n] = i # [Suc i..<Suc i + n]" by (simp add: upt_rec)
  ultimately show ?case by (simp add: Suc.IH Let_def)
qed simp

definition echo_env :: "(string \<Rightarrow> string) \<Rightarrow> (nat \<Rightarrow> string) \<Rightarrow> (nat \<Rightarrow> uint32) \<Rightarrow> nat \<Rightarrow> int \<Rightarrow> client_env \<Rightarrow> bool" where
  "echo_env quoted now sid cid payloadSize env \<longleftrightarrow> ce_dial env \<and> ce_subscribed env \<and>
     (\<forall>i. ce_answer env i = echo_answer quoted (now i) (sid i) (request_payload cid payloadSize i))"

lemma runClient_echo:
  assumes "echo_env quoted now sid cid payloadSize env"
  shows "snd (runClient env cid requests subscribeFor payloadSize) =
    \<lparr>res_id = cid, res_requests = nat requests, res_ok = nat requests,
     res_latency = sum_list (map (ce_took env) [0..<nat requests]), res_err = False\<rparr>"
proof -
  have "\<exists>d. ce_answer env i = Answer d \<and> unmarshal decode_data d = Inr (request_payload cid payloadSize i)" for i
    using assms plain_valid [OF plain_payload] by (simp add: echo_env_def echo_answer_data echo_data_decodes)
  from client_requests_all [where answer = "ce_answer env" and payload = "request_payload cid payloadSize", OF this] assms
  show ?thesis by (simp add: runClient_def echo_env_def Let_def)
qed



end
