(* ===== verification/Spec2Isabelle.thy ===== *)
theory Spec2Isabelle
  imports Stream_Codec Envelope Balancer_Weighted Balancer_Ring Protocol_Serve Rpc_Roundtrip
    Resilient_Replay Buffer_Pool Reactor_Safety Executor_Model Load_Generator
begin

text \<open>
  A verification library for SimpleGoServer, a TCP server framework in Go with a framed
  request/response and publish/subscribe protocol, its clients, and the programs built on them.

  \<^bold>\<open>The program.\<close> A \<open>Reactor\<close> (\<open>pkg/reactor\<close>) accepts connections and hands each to a worker chosen by a
  load balancer (\<open>internal/balancer\<close>). The worker registers the connection and starts a handler, which
  builds a pipeline of handlers (\<open>internal/handler\<close>) and fires read events into it. In the server programs
  the pipeline is a frame codec and a protocol handler (\<open>pkg/proto/protocol.go\<close>). The codec turns bytes
  into frames (\<open>frame.go\<close>, \<open>codec.go\<close>) and fragments into messages (\<open>stream.go\<close>) using pooled buffers
  (\<open>pool.go\<close>). The protocol handler answers requests, keeps sessions, subscriptions and a replay cache,
  and speaks JSON envelopes (\<open>json.go\<close>). The client (\<open>client.go\<close>) matches responses to calls by stream
  id, and the reconnecting client (\<open>resilient.go\<close>) resumes its session and has missed publishes
  replayed. Beside these stand an executor with futures (\<open>internal/executor\<close>), a small HTTP key-value
  service (\<open>http-service\<close>), utilities and command-line programs.

  \<^bold>\<open>Theories and sources.\<close>
  \<^item> \<open>Go_Prelude\<close>: machine types, byte strings, readers, \<open>sort.Search\<close>, Go maps, shared lemmas.
  \<^item> \<open>Wire_Codec\<close> (\<open>frame.go\<close>, \<open>codec.go\<close>): header and frame encoding. Lemmas: round trip, soundness of
    decoding, the signed length check, the error of a truncated header.
  \<^item> \<open>Stream_Codec\<close> (\<open>stream.go\<close>): fragmentation and assembly. Lemmas: round trip for every threshold,
    shape of the fragments, soundness of assembly, oversized messages.
  \<^item> \<open>Buffer_Pool\<close> (\<open>pool.go\<close> and the pooled half of \<open>stream.go\<close>): a heap of arrays and cells; the
    backend interface is the locale \<open>pool_contract\<close>. Lemmas: equality with the pool-free encoder and
    exclusive ownership of buffers.
  \<^item> \<open>Json_Std\<close>, \<open>Envelope\<close> (\<open>json.go\<close>): what is used of \<open>encoding/json\<close>, and the envelope. Lemmas: round
    trips, comparison with the struct marshal.
  \<^item> \<open>Balancer_Interface\<close>, \<open>Balancer_List\<close>, \<open>Balancer_Weighted\<close>, \<open>Balancer_Ring\<close> (\<open>pkg/balancer.go\<close>,
    \<open>internal/balancer\<close>): the interface as the locale \<open>balancer\<close>, interpreted by all seven balancers.
    Lemmas: fairness, exact distribution, consistent hashing, least load.
  \<^item> \<open>Protocol_State\<close>, \<open>Protocol_Server\<close> (\<open>protocol.go\<close>): the tables of the protocol handler and its
    operations, every handler whole. \<open>Protocol_Cache\<close>: the byte budget of the replay cache under all
    interleavings. \<open>Protocol_Session\<close>, \<open>Protocol_Serve\<close>: the serve relation over requests, publishes and
    the janitor, session table and replay state, resume, order of the replay log, delivery.
  \<^item> \<open>Rpc_Client\<close>, \<open>Rpc_Safety\<close> (\<open>client.go\<close>): the pending table, response channels and read loop as the
    step relation \<open>cl_step\<close>; matching of responses, wake-up on connection loss. \<open>Rpc_Roundtrip\<close>: a call
    through client, codec, server and back.
  \<^item> \<open>Resilient_Client\<close>, \<open>Resilient_Replay\<close> (\<open>resilient.go\<close>): cursors and the accepted set refine the set of
    accepted publishes, the server's replay completes it, no connection outlives \<open>Close\<close> (\<open>rc_step\<close>).
  \<^item> \<open>Pipeline_List\<close>, \<open>Pipeline_Events\<close> (\<open>pkg/handler\<close>, \<open>internal/handler\<close>): the doubly linked nodes as a
    store with the representation relation \<open>linked\<close>, the interface as the locale \<open>handler_pipeline\<close>, and
    nested event propagation, with what is asked of user handlers as the locale \<open>event_handlers\<close>. Lemmas:
    refinement to a list, propagation ends, and the loop of exception handlers that write.
  \<^item> \<open>Reactor_Model\<close>, \<open>Reactor_Safety\<close> (\<open>pkg/reactor\<close>): registry, worker loop, connection handlers, accept
    loop and shutdown as the step relation \<open>re_step\<close>. Lemmas: every connection is in one place or closed,
    the registry gate, the counters, and the two gaps of shutdown.
  \<^item> \<open>Executor_Model\<close> (\<open>internal/executor\<close>): futures and worker pool as \<open>ex_step\<close>.
  \<^item> \<open>Http_Service\<close> (\<open>http-service\<close>): the store interface as the locale \<open>kv_store\<close>, service and handlers; the
    store holds what the responses promised.
  \<^item> \<open>Server_Pipeline\<close> (\<open>cmd/server\<close>, \<open>protocol.go\<close>, \<open>Worker.handleConnection\<close>): codec and protocol handler as
    stateful handlers of the linked pipeline, and the goroutine of a connection. Lemmas: it refines a
    straight loop over the messages of the connection, and pipelined requests are answered in order.
  \<^item> \<open>Utilities\<close> (\<open>pkg/channels/selector.go\<close>, \<open>pkg/options.go\<close>, \<open>pkg/utils/graceful.go\<close>).
  \<^item> \<open>Server_Programs\<close> (\<open>cmd/server\<close>, \<open>examples/echo-server\<close>): flags, configuration, request handlers, the
    broadcast and janitor loops, start and shutdown. \<open>Programs\<close> (\<open>cmd/cli\<close>): the command-line client.
    \<open>Load_Generator\<close> (\<open>examples/concurrent-client\<close>): its clients, checks and summary, shown to report no
    failure against the echo server.

  \<^bold>\<open>Conventions.\<close> A struct is a record, an enumeration a datatype, a mutex-protected section one function
  on the state, and concurrency an inductive step relation over such sections, one rule for each atomic,
  channel or mutex operation; reachable states are an inductive predicate and invariants are shown by rule
  induction. Errors are values of a sum or option type; panics are outcomes that keep the state they leave.
  A Go map is an association list; where its iteration order can be observed the order is an argument.
  Fixed-width integers are words where wrap-around matters (lengths, stream ids, sequence numbers, limits,
  flags); counters that cannot reach their bound in practice are unbounded.

  \<^bold>\<open>Bounds and fuel.\<close> The JSON parser has fuel twice the length of its input plus one; a lemma shows that
  this is always enough. Event propagation has fuel for the nesting of handler calls; three times the size
  of the pipeline is shown to be enough when exception handlers do not write, and no amount when they do on
  a closed connection; four is enough for the server's pipeline. Loops that follow pointers are partial functions shown to return on linked stores.
  All other loops are structural or have a measure.

  \<^bold>\<open>Parameters.\<close> What is not in the repository is an argument: application request handlers, user pipeline
  handlers, the choices of \<open>sync.Pool\<close>, hash functions, random draws, token generation, \<open>url.Parse\<close>,
  \<open>net.Listen\<close> and the answers of viper. Time is nondeterministic: a timer may fire at any step.

  \<^bold>\<open>Not modelled.\<close> Logging and diagnostic strings; interface declarations without code (\<open>pkg/channels\<close> other
  than the selection keys, \<open>pkg/event\<close>, \<open>pkg/scheduler.go\<close>, \<open>pkg/logger.go\<close>); the parsing of flags and
  configuration files by cobra and viper; routing and timeouts of \<open>net/http\<close>; delivery of signals. They are
  input and output around library calls, or have no code in the repository.
\<close>

end
